(* ===== verification/JS_Prelude.thy ===== *)
theory JS_Prelude
  imports Main "HOL-Library.Word" "HOL-Library.List_Lexorder"
begin

text \<open>
  Shared vocabulary of the development: the values and library operations of JavaScript
  that the modelled sources use.

  \<^item> A JavaScript string is a list of UTF-16 code units, \<open>jsstr = 16 word list\<close>. Indexing,
    \<open>length\<close>, comparison (\<open><\<close>, \<open>>\<close>, the default \<open>sort\<close>) are all by code unit, which is the
    lexicographic order of \<open>HOL-Library.List_Lexorder\<close>. \<open>lit ''abc''\<close> is an ASCII literal.
  \<^item> A raised exception is the left summand of \<open>js_error + 'a\<close>; \<open>ebind\<close> runs the rest of
    a computation unless an exception was raised. Reading a property of an array element
    that does not exist is the exception of \<open>arr_get\<close>.
  \<^item> \<open>js_substring\<close>, \<open>js_slice\<close>, \<open>js_substr\<close>, \<open>js_indexOf\<close>, \<open>js_split\<close>, \<open>js_join\<close> are the
    methods of \<open>String.prototype\<close> and \<open>Array.prototype\<close> of those names.
\<close>

section \<open>Strings\<close>

type_synonym jschar = "16 word"
type_synonym jsstr = "16 word list"

definition lit :: "string \<Rightarrow> jsstr" where
  "lit s = map of_char s"

abbreviation ch :: "char \<Rightarrow> jschar" where
  "ch c \<equiv> of_char c"

named_theorems js_simps \<open>equations of the JavaScript library operations\<close>

lemma lit_Nil [simp]: "lit [] = []"
  by (simp add: lit_def)

lemma lit_Cons [simp]: "lit (c # cs) = ch c # lit cs"
  by (simp add: lit_def)

section \<open>Exceptions\<close>

datatype js_error =
    TypeError string
  | JsError string

definition ebind :: "'e + 'a \<Rightarrow> ('a \<Rightarrow> 'e + 'b) \<Rightarrow> 'e + 'b" where
  "ebind x f = (case x of Inl e \<Rightarrow> Inl e | Inr a \<Rightarrow> f a)"

lemma ebind_simps [simp]:
  "ebind (Inl e) f = Inl e"
  "ebind (Inr a) f = f a"
  by (simp_all add: ebind_def)

lemma ebind_Inr_iff:
  "ebind x f = Inr b \<longleftrightarrow> (\<exists>a. x = Inr a \<and> f a = Inr b)"
  by (cases x) auto

lemma ebind_cong [fundef_cong]:
  "x = y \<Longrightarrow> (\<And>a. y = Inr a \<Longrightarrow> f a = g a) \<Longrightarrow> ebind x f = ebind y g"
  by (cases y) auto

text \<open>Run a fallible function over an array, in order, stopping at the first exception.\<close>

fun emap :: "('a \<Rightarrow> 'e + 'b) \<Rightarrow> 'a list \<Rightarrow> 'e + 'b list" where
  "emap f [] = Inr []"
| "emap f (x # xs) = ebind (f x) (\<lambda>y. ebind (emap f xs) (\<lambda>ys. Inr (y # ys)))"

lemma emap_Inr:
  assumes "\<And>x. x \<in> set xs \<Longrightarrow> f x = Inr (g x)"
  shows "emap f xs = Inr (map g xs)"
  using assms by (induction xs) auto

lemma list_all2_pick: "list_all2 P xs ys \<Longrightarrow> y \<in> set ys \<Longrightarrow> \<exists>x \<in> set xs. P x y"
  by (induction rule: list_all2_induct) auto

lemma emap_iff: "emap f xs = Inr ys \<longleftrightarrow> list_all2 (\<lambda>x y. f x = Inr y) xs ys"
  by (induction xs arbitrary: ys) (auto simp: ebind_Inr_iff list_all2_Cons1)

lemma emap_total:
  assumes "\<And>x. x \<in> set xs \<Longrightarrow> \<exists>y. f x = Inr y \<and> P x y"
  shows "\<exists>ys. emap f xs = Inr ys \<and> list_all2 P xs ys"
  using assms
proof (induction xs)
  case Nil
  then show ?case by simp
next
  case (Cons x xs)
  obtain y where y: "f x = Inr y" "P x y" using Cons.prems by auto
  obtain ys where "emap f xs = Inr ys" "list_all2 P xs ys" using Cons by auto
  with y show ?case by simp
qed

section \<open>Arrays\<close>

text \<open>
  \<open>xs[i].field\<close>: an index outside the array gives \<open>undefined\<close>, and reading a property of
  \<open>undefined\<close> raises a TypeError.
\<close>

definition arr_get :: "'a list \<Rightarrow> int \<Rightarrow> js_error + 'a" where
  "arr_get xs i =
     (if 0 \<le> i \<and> i < int (length xs) then Inr (xs ! nat i)
      else Inl (TypeError ''cannot read properties of undefined''))"

lemma arr_get_in [simp]:
  "0 \<le> i \<Longrightarrow> i < int (length xs) \<Longrightarrow> arr_get xs i = Inr (xs ! nat i)"
  by (simp add: arr_get_def)

lemma arr_get_int [simp]: "i < length xs \<Longrightarrow> arr_get xs (int i) = Inr (xs ! i)"
  by (simp add: arr_get_def)

section \<open>Pieces of strings and arrays\<close>

text \<open>\<open>substring(a, b)\<close> clamps both ends to the string and swaps them if needed.\<close>

definition js_clamp :: "nat \<Rightarrow> int \<Rightarrow> nat" where
  "js_clamp n i = min n (nat i)"

definition js_substring :: "'a list \<Rightarrow> int \<Rightarrow> int \<Rightarrow> 'a list" where
  "js_substring s a b =
     (let n = length s; x = js_clamp n a; y = js_clamp n b; lo = min x y; hi = max x y
      in take (hi - lo) (drop lo s))"

text \<open>\<open>slice(a, b)\<close> counts negative ends from the back and is empty when they cross.\<close>

definition js_rel_index :: "nat \<Rightarrow> int \<Rightarrow> nat" where
  "js_rel_index n i = (if i < 0 then nat (int n + i) else min n (nat i))"

definition js_slice :: "'a list \<Rightarrow> int \<Rightarrow> int \<Rightarrow> 'a list" where
  "js_slice s a b =
     (let n = length s; x = js_rel_index n a; y = js_rel_index n b in take (y - x) (drop x s))"

definition js_slice_from :: "'a list \<Rightarrow> int \<Rightarrow> 'a list" where
  "js_slice_from s a = drop (js_rel_index (length s) a) s"

text \<open>\<open>substr(start, len)\<close>; a negative length gives the empty string.\<close>

definition js_substr :: "'a list \<Rightarrow> int \<Rightarrow> int \<Rightarrow> 'a list" where
  "js_substr s start len = take (nat len) (drop (js_rel_index (length s) start) s)"

definition js_substr_from :: "'a list \<Rightarrow> int \<Rightarrow> 'a list" where
  "js_substr_from s start = drop (js_rel_index (length s) start) s"

text \<open>\<open>charAt(i)\<close> is a string of one code unit, or the empty string out of range.\<close>

definition js_charAt :: "'a list \<Rightarrow> int \<Rightarrow> 'a list" where
  "js_charAt s i = (if 0 \<le> i \<and> i < int (length s) then [s ! nat i] else [])"

lemma js_substring_nat [simp]:
  "js_substring s (int a) (int b) =
     take (max (min (length s) a) (min (length s) b) - min (min (length s) a) (min (length s) b))
       (drop (min (min (length s) a) (min (length s) b)) s)"
  by (simp add: js_substring_def js_clamp_def Let_def)

lemma js_substring_between:
  "a \<le> b \<Longrightarrow> b \<le> length s \<Longrightarrow> js_substring s (int a) (int b) = take (b - a) (drop a s)"
  by (simp add: min_def max_def)

lemma length_js_substring_between:
  "a \<le> b \<Longrightarrow> b \<le> length s \<Longrightarrow> length (js_substring s (int a) (int b)) = b - a"
  by (simp add: js_substring_between del: js_substring_nat)

text \<open>Adjacent pieces of a string fit together.\<close>

lemma take_drop_append:
  "a \<le> b \<Longrightarrow> b \<le> c \<Longrightarrow> take (b - a) (drop a s) @ take (c - b) (drop b s) = take (c - a) (drop a s)"
  using take_add [of "b - a" "c - b" "drop a s"] by simp

section \<open>Searching, splitting and joining\<close>

definition js_indexOf :: "'a list \<Rightarrow> 'a list \<Rightarrow> int \<Rightarrow> int" where
  "js_indexOf s pat from =
     (case List.find (\<lambda>k. take (length pat) (drop k s) = pat)
             [min (length s) (nat from) ..< Suc (length s)] of
        None \<Rightarrow> - 1
      | Some k \<Rightarrow> int k)"

text \<open>\<open>split(sep)\<close> with a string separator; an empty separator gives the single code units.\<close>

function split_loop :: "'a list \<Rightarrow> 'a list \<Rightarrow> 'a list \<Rightarrow> 'a list list" where
  "split_loop sep acc [] = [acc]"
| "split_loop sep acc (c # cs) =
     (if sep \<noteq> [] \<and> take (length sep) (c # cs) = sep
      then acc # split_loop sep [] (drop (length sep) (c # cs))
      else split_loop sep (acc @ [c]) cs)"
  by pat_completeness auto
termination
  by (relation "measure (\<lambda>(sep, acc, s). length s)") auto

definition js_split :: "'a list \<Rightarrow> 'a list \<Rightarrow> 'a list list" where
  "js_split s sep = (if sep = [] then map (\<lambda>c. [c]) s else split_loop sep [] s)"

fun js_join :: "'a list \<Rightarrow> 'a list list \<Rightarrow> 'a list" where
  "js_join sep [] = []"
| "js_join sep [x] = x"
| "js_join sep (x # y # ys) = x @ sep @ js_join sep (y # ys)"

lemma split_loop_nonempty [simp]: "split_loop sep acc s \<noteq> []"
  by (induction sep acc s rule: split_loop.induct) auto

lemma js_join_Cons: "xs \<noteq> [] \<Longrightarrow> js_join sep (x # xs) = x @ sep @ js_join sep xs"
  by (cases xs) auto

lemma join_split_loop: "js_join sep (split_loop sep acc s) = acc @ s"
proof (induction sep acc s rule: split_loop.induct)
  case (1 sep acc)
  then show ?case by simp
next
  case (2 sep acc c cs)
  show ?case
  proof (cases "sep \<noteq> [] \<and> take (length sep) (c # cs) = sep")
    case True
    then have "js_join sep (split_loop sep acc (c # cs)) = acc @ sep @ drop (length sep) (c # cs)"
      using 2 by (simp add: js_join_Cons)
    also have "\<dots> = acc @ c # cs"
      using True by (metis append_take_drop_id)
    finally show ?thesis .
  next
    case False
    then show ?thesis using 2 by auto
  qed
qed

lemma js_join_empty: "js_join [] xs = concat xs"
  by (induction "[] :: 'a list" xs rule: js_join.induct) auto

lemma js_join_split: "js_join sep (js_split s sep) = s"
  by (auto simp: js_split_def join_split_loop js_join_empty concat_map_singleton)

text \<open>Splitting undoes joining when the separator is one code unit the pieces do not contain.\<close>

lemma split_loop_no_sep:
  "c \<notin> set s \<Longrightarrow> split_loop [c] acc s = [acc @ s]"
  by (induction s arbitrary: acc) auto

lemma split_loop_append_sep:
  "split_loop [c] acc (s @ c # t) = split_loop [c] acc s @ split_loop [c] [] t"
  by (induction s arbitrary: acc) auto

lemma js_split_append_sep: "js_split (s @ c # t) [c] = js_split s [c] @ js_split t [c]"
  by (simp add: js_split_def split_loop_append_sep)

lemma js_split_no_sep: "c \<notin> set s \<Longrightarrow> js_split s [c] = [s]"
  by (simp add: js_split_def split_loop_no_sep)

lemma js_split_Nil [simp]: "sp \<noteq> [] \<Longrightarrow> js_split [] sp = [[]]"
  by (simp add: js_split_def)

lemma split_loop_pieces:
  "c \<notin> set acc \<Longrightarrow> p \<in> set (split_loop [c] acc s) \<Longrightarrow> c \<notin> set p"
proof (induction s arbitrary: acc)
  case (Cons a s)
  show ?case
  proof (cases "a = c")
    case True
    then show ?thesis using Cons.prems Cons.IH [of "[]"] by auto
  next
    case False
    then show ?thesis using Cons.prems Cons.IH [of "acc @ [a]"] by auto
  qed
qed simp

lemma js_split_pieces: "p \<in> set (js_split s [c]) \<Longrightarrow> c \<notin> set p"
  by (auto simp: js_split_def dest: split_loop_pieces [rotated])

lemma js_split_join:
  assumes "xs \<noteq> []" and "\<forall>x \<in> set xs. c \<notin> set x"
  shows "js_split (js_join [c] xs) [c] = xs"
  using assms
proof (induction "[c]" xs rule: js_join.induct)
  case (2 x)
  then show ?case by (simp add: js_split_no_sep)
next
  case (3 x y ys)
  then show ?case by (simp add: js_split_append_sep js_split_no_sep)
qed simp

text \<open>
  \<open>split(/[...]+/)\<close>: the separators are the maximal runs of code units in a class. A run at
  the beginning or at the end gives an empty first or last piece.
\<close>

function js_split_runs :: "('a \<Rightarrow> bool) \<Rightarrow> 'a list \<Rightarrow> 'a list list" where
  "js_split_runs P s =
     (let piece = takeWhile (\<lambda>c. \<not> P c) s; rest = dropWhile (\<lambda>c. \<not> P c) s
      in if rest = [] then [piece] else piece # js_split_runs P (dropWhile P rest))"
  by pat_completeness auto
termination
proof (relation "measure (\<lambda>(P, s). length s)", goal_cases)
  case (2 P s piece rest)
  then obtain c cs where "rest = c # cs" "P c"
    by (metis hd_dropWhile list.collapse)
  then have "length (dropWhile P rest) < length rest"
    using length_dropWhile_le [of P cs] by simp
  also have "length rest \<le> length s"
    by (simp add: 2 length_dropWhile_le)
  finally show ?case by simp
qed simp

declare js_split_runs.simps [simp del]

text \<open>The class \<open>\s\<close> of regular expressions, which is also what \<open>trim\<close> removes.\<close>

definition js_space :: "jschar \<Rightarrow> bool" where
  "js_space c \<longleftrightarrow>
     0x0009 \<le> c \<and> c \<le> 0x000D \<or> c = 0x0020 \<or> c = 0x00A0 \<or> c = 0x1680 \<or>
     0x2000 \<le> c \<and> c \<le> 0x200A \<or> c = 0x2028 \<or> c = 0x2029 \<or> c = 0x202F \<or>
     c = 0x205F \<or> c = 0x3000 \<or> c = 0xFEFF"

end
