(* ===== verification/Posix_Path.thy ===== *)
theory Posix_Path
  imports JS_Prelude
begin

text \<open>
  The POSIX path module bundled in \<open>src/docs/generated_site/assets/javascripts/lunr/wordcut.js\<close>
  (module 22, lines 4085--4312): \<open>normalizeArray\<close>, \<open>resolve\<close>, \<open>normalize\<close>, \<open>isAbsolute\<close>,
  \<open>join\<close> and \<open>relative\<close>, together with \<open>process.cwd\<close> of the process shim, which is the
  constant \<open>'/'\<close>. An argument of JavaScript type string is \<open>Some s\<close>, one of any other type
  is \<open>None\<close>.

  The meaning of a path is a walk in a directory tree: \<open>walk\<close> maps the segments to the
  number of levels climbed above the start and the names entered from there. The module
  computes it backwards, with a counter; \<open>normalizeArray_walk\<close> states that the two agree,
  and every property of the module follows from it.
\<close>

section \<open>Operations\<close>

abbreviation sep :: jsstr where
  "sep \<equiv> [47]"

abbreviation slash :: jschar where
  "slash \<equiv> 47"

abbreviation dot :: jsstr where
  "dot \<equiv> [46]"

abbreviation dotdot :: jsstr where
  "dotdot \<equiv> [46, 46]"

lemma path_literals: "sep = lit ''/''" "dot = lit ''.''" "dotdot = lit ''..''"
  by simp_all

definition process_cwd :: jsstr where
  "process_cwd = lit ''/''"

text \<open>
  The loop of \<open>normalizeArray\<close>: the segments from the last to the first, the counter \<open>up\<close>
  of names still to be dropped, and the segments kept so far.
\<close>

fun normalize_loop :: "jsstr list \<Rightarrow> nat \<Rightarrow> jsstr list \<Rightarrow> jsstr list \<times> nat" where
  "normalize_loop [] up kept = (kept, up)"
| "normalize_loop (seg # rest) up kept =
     (if seg = dot then normalize_loop rest up kept
      else if seg = dotdot then normalize_loop rest (Suc up) kept
      else if up \<noteq> 0 then normalize_loop rest (up - 1) kept
      else normalize_loop rest up (seg # kept))"

definition normalizeArray :: "jsstr list \<Rightarrow> bool \<Rightarrow> jsstr list" where
  "normalizeArray parts allowAboveRoot =
     (let (kept, up) = normalize_loop (rev parts) 0 []
      in if allowAboveRoot then replicate up dotdot @ kept else kept)"

definition path_parts :: "jsstr \<Rightarrow> jsstr list" where
  "path_parts s = filter (\<lambda>p. p \<noteq> []) (js_split s sep)"

definition isAbsolute :: "jsstr \<Rightarrow> bool" where
  "isAbsolute path \<longleftrightarrow> js_charAt path 0 = sep"

fun resolve_loop :: "jsstr option list \<Rightarrow> jsstr \<Rightarrow> bool \<Rightarrow> js_error + jsstr \<times> bool" where
  "resolve_loop [] resolvedPath resolvedAbsolute = Inr (resolvedPath, resolvedAbsolute)"
| "resolve_loop (arg # args) resolvedPath resolvedAbsolute =
     (if resolvedAbsolute then Inr (resolvedPath, resolvedAbsolute)
      else case arg of
        None \<Rightarrow> Inl (TypeError ''Arguments to path.resolve must be strings'')
      | Some path \<Rightarrow>
          if path = [] then resolve_loop args resolvedPath resolvedAbsolute
          else resolve_loop args (path @ sep @ resolvedPath) (js_charAt path 0 = sep))"

definition resolve :: "jsstr option list \<Rightarrow> js_error + jsstr" where
  "resolve args =
     ebind (resolve_loop (rev args @ [Some process_cwd]) [] False)
       (\<lambda>(resolvedPath, resolvedAbsolute).
          let joined = js_join sep (normalizeArray (path_parts resolvedPath) (\<not> resolvedAbsolute));
              r = (if resolvedAbsolute then sep else []) @ joined
          in Inr (if r = [] then dot else r))"

definition normalize :: "jsstr \<Rightarrow> jsstr" where
  "normalize path0 =
     (let absolute = isAbsolute path0;
          trailingSlash = (js_substr_from path0 (- 1) = sep);
          path1 = js_join sep (normalizeArray (path_parts path0) (\<not> absolute));
          path2 = (if path1 = [] \<and> \<not> absolute then dot else path1);
          path3 = (if path2 \<noteq> [] \<and> trailingSlash then path2 @ sep else path2)
      in (if absolute then sep else []) @ path3)"

definition join_filter :: "jsstr option \<Rightarrow> js_error + jsstr" where
  "join_filter p =
     (case p of None \<Rightarrow> Inl (TypeError ''Arguments to path.join must be strings'') | Some s \<Rightarrow> Inr s)"

definition join :: "jsstr option list \<Rightarrow> js_error + jsstr" where
  "join paths =
     ebind (emap join_filter paths)
       (\<lambda>ps. Inr (normalize (js_join sep (filter (\<lambda>p. p \<noteq> []) ps))))"

definition trim :: "jsstr list \<Rightarrow> jsstr list" where
  "trim arr =
     (let start = int (length (takeWhile (\<lambda>x. x = []) arr));
          end = int (length arr) - 1 - int (length (takeWhile (\<lambda>x. x = []) (rev arr)))
      in if start > end then [] else js_slice arr start (end - start + 1))"

fun samePartsLength :: "jsstr list \<Rightarrow> jsstr list \<Rightarrow> nat" where
  "samePartsLength (x # xs) (y # ys) = (if x \<noteq> y then 0 else Suc (samePartsLength xs ys))"
| "samePartsLength _ _ = 0"

definition relative :: "jsstr option \<Rightarrow> jsstr option \<Rightarrow> js_error + jsstr" where
  "relative from0 to0 =
     ebind (resolve [from0]) (\<lambda>from1. ebind (resolve [to0]) (\<lambda>to1.
       let fromParts = trim (js_split (js_substr_from from1 1) sep);
           toParts = trim (js_split (js_substr_from to1 1) sep);
           n = samePartsLength fromParts toParts;
           outputParts = replicate (length fromParts - n) dotdot @ drop n toParts
       in Inr (js_join sep outputParts)))"

section \<open>The walk a path denotes\<close>

definition walk_step :: "nat \<times> jsstr list \<Rightarrow> jsstr \<Rightarrow> nat \<times> jsstr list" where
  "walk_step s x =
     (let (up, names) = s
      in if x = dot then (up, names)
         else if x = dotdot then (if names = [] then (Suc up, names) else (up, butlast names))
         else (up, names @ [x]))"

definition walk :: "jsstr list \<Rightarrow> nat \<times> jsstr list" where
  "walk parts = foldl walk_step (0, []) parts"

lemma walk_snoc: "walk (parts @ [x]) = walk_step (walk parts) x"
  by (simp add: walk_def)

lemma walk_Nil [simp]: "walk [] = (0, [])"
  by (simp add: walk_def)

lemma normalize_loop_walk:
  "normalize_loop (rev parts) n kept =
     (take (length (snd (walk parts)) - n) (snd (walk parts)) @ kept,
      fst (walk parts) + (n - length (snd (walk parts))))"
proof (induction parts arbitrary: n kept rule: rev_induct)
  case Nil
  then show ?case by simp
next
  case (snoc x parts)
  obtain up names where w: "walk parts = (up, names)" by (cases "walk parts")
  consider "x = dot" | "x = dotdot" | "x \<noteq> dot" "x \<noteq> dotdot" by blast
  then show ?case
  proof cases
    case 1
    then show ?thesis using snoc w by (simp add: walk_snoc walk_step_def)
  next
    case 2
    then show ?thesis using snoc w
      by (cases names) (auto simp: walk_snoc walk_step_def take_butlast butlast_conv_take)
  next
    case 3
    then show ?thesis using snoc w
      by (cases n) (auto simp: walk_snoc walk_step_def)
  qed
qed

lemma normalizeArray_by_walk:
  "normalizeArray parts allow =
     (if allow then replicate (fst (walk parts)) dotdot else []) @ snd (walk parts)"
  by (simp add: normalizeArray_def normalize_loop_walk [of parts 0 "[]", simplified])

section \<open>Proper names and canonical segment lists\<close>

definition proper_name :: "jsstr \<Rightarrow> bool" where
  "proper_name p \<longleftrightarrow> p \<noteq> [] \<and> slash \<notin> set p \<and> p \<noteq> dot \<and> p \<noteq> dotdot"

definition clean_segment :: "jsstr \<Rightarrow> bool" where
  "clean_segment p \<longleftrightarrow> p \<noteq> [] \<and> slash \<notin> set p"

lemma proper_segment: "proper_name p \<Longrightarrow> clean_segment p"
  by (simp add: proper_name_def clean_segment_def)

lemma segment_dotdot [simp]: "clean_segment dotdot"
  by (simp add: clean_segment_def)

lemma path_parts_segments: "p \<in> set (path_parts s) \<Longrightarrow> clean_segment p"
  by (auto simp: path_parts_def clean_segment_def dest: js_split_pieces)

lemma walk_append_names:
  "list_all proper_name names \<Longrightarrow> walk (parts @ names) = (fst (walk parts), snd (walk parts) @ names)"
proof (induction names rule: rev_induct)
  case Nil
  then show ?case by simp
next
  case (snoc x xs)
  then have "walk (parts @ xs) = (fst (walk parts), snd (walk parts) @ xs)"
    and "x \<noteq> dot" "x \<noteq> dotdot" by (auto simp: proper_name_def)
  then show ?case
    by (simp add: walk_snoc [of "parts @ xs", simplified] walk_step_def)
qed

lemma walk_names: "list_all proper_name names \<Longrightarrow> walk names = (0, names)"
  using walk_append_names [of names "[]"] by simp

lemma walk_append_ups:
  "walk (parts @ replicate n dotdot) =
     (fst (walk parts) + (n - length (snd (walk parts))),
      take (length (snd (walk parts)) - n) (snd (walk parts)))"
proof (induction n)
  case 0
  then show ?case by simp
next
  case (Suc n)
  have "parts @ replicate (Suc n) dotdot = (parts @ replicate n dotdot) @ [dotdot]"
    by (simp add: replicate_append_same)
  then have "walk (parts @ replicate (Suc n) dotdot) = walk_step (walk (parts @ replicate n dotdot)) dotdot"
    by (simp only: walk_snoc)
  with Suc show ?case
    by (cases "n < length (snd (walk parts))")
      (auto simp: walk_step_def butlast_take Suc_diff_le)
qed

lemma walk_proper:
  "(\<And>p. p \<in> set parts \<Longrightarrow> clean_segment p) \<Longrightarrow> list_all proper_name (snd (walk parts))"
proof (induction parts rule: rev_induct)
  case Nil
  then show ?case by simp
next
  case (snoc x parts)
  then have "list_all proper_name (snd (walk parts))" and "clean_segment x" by auto
  then show ?case
    by (auto simp: walk_snoc walk_step_def clean_segment_def proper_name_def list_all_iff Let_def
        case_prod_unfold dest!: in_set_butlastD)
qed

lemma path_parts_append: "path_parts (s @ slash # t) = path_parts s @ path_parts t"
  by (simp add: path_parts_def js_split_append_sep)

lemma path_parts_Nil [simp]: "path_parts [] = []"
  by (simp add: path_parts_def)

lemma path_parts_segment: "clean_segment p \<Longrightarrow> path_parts p = [p]"
  by (simp add: path_parts_def clean_segment_def js_split_no_sep)

lemma path_parts_join: "list_all clean_segment ps \<Longrightarrow> path_parts (js_join sep ps) = ps"
proof (induction sep ps rule: js_join.induct)
  case (3 x y ys)
  then show ?case by (simp add: path_parts_append path_parts_segment)
qed (auto simp: path_parts_segment)

lemma path_parts_process_cwd [simp]: "path_parts process_cwd = []"
  by (simp add: process_cwd_def path_parts_def js_split_def)

section \<open>Properties of the operations\<close>

lemma js_charAt_0: "js_charAt s 0 = (case s of [] \<Rightarrow> [] | c # _ \<Rightarrow> [c])"
  by (simp add: js_charAt_def split: list.split)

lemma isAbsolute_iff: "isAbsolute s \<longleftrightarrow> (\<exists>t. s = slash # t)"
  by (simp add: isAbsolute_def js_charAt_0 split: list.split)

lemma isAbsolute_parts: "isAbsolute s \<Longrightarrow> path_parts s = path_parts (tl s)"
  using path_parts_append [of "[]"] by (auto simp: isAbsolute_iff)

lemma path_parts_trailing: "path_parts (s @ [slash]) = path_parts s"
  using path_parts_append [of s "[]"] by simp

lemma walk_parts_proper: "list_all proper_name (snd (walk (path_parts s)))"
  by (intro walk_proper path_parts_segments)

lemma list_all_proper_segment: "list_all proper_name ps \<Longrightarrow> list_all clean_segment ps"
  by (auto simp: list_all_iff proper_segment)

lemma list_all_replicate_dotdot [simp]: "list_all clean_segment (replicate n dotdot)"
  by (simp add: list_all_iff)

lemma segments_walk_parts: "list_all clean_segment (snd (walk (path_parts s)))"
  by (intro list_all_proper_segment walk_parts_proper)

text \<open>The segments a normal form is made of, and that walking them again is harmless.\<close>

definition canonical :: "bool \<Rightarrow> jsstr list \<Rightarrow> bool" where
  "canonical absolute ps \<longleftrightarrow>
     (\<exists>n names. ps = replicate n dotdot @ names \<and> list_all proper_name names \<and> (absolute \<longrightarrow> n = 0))"

lemma canonical_normalizeArray: "canonical absolute (normalizeArray (path_parts s) (\<not> absolute))"
  unfolding canonical_def normalizeArray_by_walk
  using walk_parts_proper [of s] by (cases absolute) auto

lemma canonical_segments: "canonical absolute ps \<Longrightarrow> list_all clean_segment ps"
  by (auto simp: canonical_def list_all_proper_segment)

lemma normalizeArray_canonical: "canonical absolute ps \<Longrightarrow> normalizeArray ps (\<not> absolute) = ps"
proof -
  assume "canonical absolute ps"
  then obtain n names where ps: "ps = replicate n dotdot @ names" "list_all proper_name names"
    and n: "absolute \<longrightarrow> n = 0" unfolding canonical_def by blast
  have "walk (replicate n dotdot) = (n, [])"
    using walk_append_ups [of "[]" n] by simp
  then have "walk ps = (n, names)"
    using ps by (simp add: walk_append_names)
  with ps n show ?thesis by (simp add: normalizeArray_by_walk)
qed

lemma js_join_eq_Nil: "list_all clean_segment ps \<Longrightarrow> js_join sep ps = [] \<longleftrightarrow> ps = []"
  by (induction sep ps rule: js_join.induct) (auto simp: clean_segment_def)

lemma js_join_hd:
  "list_all clean_segment ps \<Longrightarrow> js_join sep ps \<noteq> slash # t"
  by (induction sep ps rule: js_join.induct) (auto simp: clean_segment_def append_eq_Cons_conv)

lemma js_join_last:
  "list_all clean_segment ps \<Longrightarrow> js_join sep ps \<noteq> t @ [slash]"
proof (induction sep ps arbitrary: t rule: js_join.induct)
  case (3 x y ys)
  have "js_join sep (y # ys) \<noteq> []"
    using "3.prems" js_join_eq_Nil [of "y # ys"] by simp
  then obtain u c where "js_join sep (y # ys) = u @ [c]"
    by (metis append_butlast_last_id)
  with 3 show ?case by auto
qed (auto simp: clean_segment_def)

lemma ends_in_slash: "js_substr_from s (- 1) = sep \<longleftrightarrow> (\<exists>t. s = t @ [slash])"
  by (cases s rule: rev_cases) (auto simp: js_substr_from_def js_rel_index_def nat_diff_distrib')

definition normal_form :: "bool \<Rightarrow> jsstr list \<Rightarrow> bool \<Rightarrow> jsstr" where
  "normal_form absolute ps trailing =
     (let p1 = js_join sep ps;
          p2 = (if p1 = [] \<and> \<not> absolute then dot else p1)
      in (if absolute then sep else []) @ (if p2 \<noteq> [] \<and> trailing then p2 @ sep else p2))"

lemma normalize_by_normal_form:
  "normalize p =
     normal_form (isAbsolute p) (normalizeArray (path_parts p) (\<not> isAbsolute p))
       (\<exists>t. p = t @ [slash])"
  unfolding normalize_def normal_form_def ends_in_slash Let_def ..

lemma normal_form_root: "normal_form True [] trailing = sep"
  by (simp add: normal_form_def)

text \<open>The shape of a normal form: its kind, its segments and its trailing slash.\<close>

lemma normalize_shape:
  fixes p :: jsstr
  defines "ps \<equiv> normalizeArray (path_parts p) (\<not> isAbsolute p)"
  shows "canonical (isAbsolute p) ps"
    and "isAbsolute (normalize p) = isAbsolute p"
    and "normalizeArray (path_parts (normalize p)) (\<not> isAbsolute p) = ps"
    and "isAbsolute p \<and> ps = [] \<or>
         (\<exists>t. normalize p = t @ [slash]) = (\<exists>t. p = t @ [slash])"
proof -
  show can: "canonical (isAbsolute p) ps"
    unfolding ps_def by (rule canonical_normalizeArray)
  note seg = canonical_segments [OF can]
  define p2 where "p2 = (if ps = [] \<and> \<not> isAbsolute p then dot else js_join sep ps)"
  define trailing where "trailing = (\<exists>t. p = t @ [slash])"
  have norm: "normalize p =
      (if isAbsolute p then sep else []) @ p2 @ (if p2 \<noteq> [] \<and> trailing then sep else [])"
    unfolding normalize_by_normal_form normal_form_def p2_def trailing_def Let_def
      ps_def [symmetric] js_join_eq_Nil [OF seg] by (auto simp: js_join_eq_Nil [OF seg])
  have p2: "p2 = [] \<longleftrightarrow> ps = [] \<and> isAbsolute p" and hd: "\<And>t. p2 \<noteq> slash # t"
    and last: "\<And>t. p2 \<noteq> t @ [slash]"
    using js_join_eq_Nil [OF seg] js_join_hd [OF seg] js_join_last [OF seg]
    by (auto simp: p2_def)
  show abs: "isAbsolute (normalize p) = isAbsolute p"
    using hd p2 by (auto simp: norm isAbsolute_iff append_eq_Cons_conv)
  have "path_parts (normalize p) = path_parts p2"
    using isAbsolute_parts [of "normalize p"]
    by (auto simp: norm abs path_parts_trailing isAbsolute_iff)
  moreover have "path_parts p2 = (if ps = [] \<and> \<not> isAbsolute p then [dot] else ps)"
    by (auto simp: p2_def path_parts_join [OF seg] path_parts_segment clean_segment_def)
  ultimately show "normalizeArray (path_parts (normalize p)) (\<not> isAbsolute p) = ps"
    using normalizeArray_canonical [OF can]
    by (auto simp: normalizeArray_def)
  show "isAbsolute p \<and> ps = [] \<or> (\<exists>t. normalize p = t @ [slash]) = (\<exists>t. p = t @ [slash])"
  proof (cases "p2 = []")
    case False
    then obtain u c where "p2 = u @ [c]" by (metis append_butlast_last_id)
    then show ?thesis using last by (auto simp: norm trailing_def)
  qed (simp add: p2)
qed

section \<open>Resolving is changing directories\<close>

definition cd :: "jsstr list \<Rightarrow> jsstr \<Rightarrow> jsstr list" where
  "cd dir s = snd (walk ((if isAbsolute s then [] else dir) @ path_parts s))"

lemma walk_names_irrelevant_ups:
  "snd (foldl walk_step (n, names) ys) = snd (foldl walk_step (m, names) ys)"
  by (induction ys arbitrary: n m names) (auto simp: walk_step_def)

lemma walk_append: "walk (xs @ ys) = foldl walk_step (walk xs) ys"
  by (simp add: walk_def)

lemma walk_names_append:
  assumes "\<And>x. x \<in> set xs \<Longrightarrow> clean_segment x"
  shows "snd (walk (snd (walk xs) @ ys)) = snd (walk (xs @ ys))"
proof -
  have "walk (snd (walk xs)) = (0, snd (walk xs))"
    by (intro walk_names walk_proper assms)
  then show ?thesis
    using walk_names_irrelevant_ups [of 0 "snd (walk xs)" ys "fst (walk xs)"]
    by (simp add: walk_append)
qed

lemma cd_proper: "list_all proper_name dir \<Longrightarrow> list_all proper_name (cd dir s)"
  unfolding cd_def
  by (intro walk_proper)
    (auto simp: list_all_iff proper_segment dest: path_parts_segments split: if_splits)

lemma foldl_cd_proper:
  "list_all proper_name dir \<Longrightarrow> list_all proper_name (foldl cd dir ss)"
  by (induction ss arbitrary: dir) (auto simp: cd_proper)

lemma resolve_loop_cd:
  "\<exists>P. resolve_loop (rev (map Some ss) @ [Some process_cwd]) acc False = Inr (P, True) \<and>
       snd (walk (path_parts P)) = snd (walk (foldl cd [] ss @ path_parts acc))"
proof (induction ss arbitrary: acc rule: rev_induct)
  case Nil
  show ?case
    by (simp add: process_cwd_def js_charAt_def path_parts_append [of "[]", simplified])
next
  case (snoc s ss)
  let ?dir = "foldl cd [] ss"
  have dir: "list_all proper_name ?dir" by (simp add: foldl_cd_proper)
  show ?case
  proof (cases "s = []")
    case True
    then have "cd ?dir s = ?dir"
      by (simp add: cd_def walk_names dir isAbsolute_iff)
    then show ?thesis using snoc True by simp
  next
    case False
    have segs: "x \<in> set ((if isAbsolute s then [] else ?dir) @ path_parts s) \<Longrightarrow> clean_segment x" for x
      using dir by (auto simp: list_all_iff proper_segment dest: path_parts_segments split: if_splits)
    have walk: "snd (walk (cd ?dir s @ path_parts acc)) =
        snd (walk ((if isAbsolute s then [] else ?dir) @ path_parts (s @ sep @ acc)))"
      using walk_names_append [of "(if isAbsolute s then [] else ?dir) @ path_parts s" "path_parts acc"]
        segs by (auto simp: cd_def path_parts_append)
    show ?thesis
    proof (cases "isAbsolute s")
      case True
      then show ?thesis using False walk
        by (cases "rev (map Some ss) @ [Some process_cwd]") (auto simp: isAbsolute_def)
    next
      case rel: False
      then show ?thesis using False walk snoc [of "s @ sep @ acc"]
        by (auto simp: isAbsolute_def)
    qed
  qed
qed

lemma resolve_cd: "resolve (map Some ss) = Inr (sep @ js_join sep (foldl cd [] ss))"
proof -
  obtain P where P: "resolve_loop (rev (map Some ss) @ [Some process_cwd]) [] False = Inr (P, True)"
    and w: "snd (walk (path_parts P)) = snd (walk (foldl cd [] ss))"
    using resolve_loop_cd [of ss "[]"] by auto
  have "snd (walk (foldl cd [] ss)) = foldl cd [] ss"
    by (simp add: walk_names foldl_cd_proper)
  with P w show ?thesis
    by (simp add: resolve_def normalizeArray_by_walk rev_map)
qed

section \<open>Relative paths\<close>

lemma takeWhile_segments: "list_all clean_segment ps \<Longrightarrow> takeWhile (\<lambda>x. x = []) ps = []"
  by (cases ps) (auto simp: clean_segment_def)

lemma trim_split_join: "list_all clean_segment ps \<Longrightarrow> trim (js_split (js_join sep ps) sep) = ps"
proof (cases "ps = []")
  case True
  then show ?thesis by (simp add: trim_def)
next
  case False
  assume seg: "list_all clean_segment ps"
  then have "js_split (js_join sep ps) sep = ps"
    using False by (intro js_split_join) (auto simp: list_all_iff clean_segment_def)
  moreover have "takeWhile (\<lambda>x. x = []) ps = []" "takeWhile (\<lambda>x. x = []) (rev ps) = []"
    using seg by (auto intro!: takeWhile_segments simp: list_all_iff)
  moreover have "js_slice ps 0 (int (length ps)) = ps"
    by (simp add: js_slice_def js_rel_index_def)
  ultimately show ?thesis using False by (simp add: trim_def Let_def)
qed

lemma samePartsLength_le:
  "samePartsLength xs ys \<le> length xs" "samePartsLength xs ys \<le> length ys"
  by (induction xs ys rule: samePartsLength.induct) auto

lemma samePartsLength_take:
  "take (samePartsLength xs ys) xs = take (samePartsLength xs ys) ys"
  by (induction xs ys rule: samePartsLength.induct) auto

lemma relative_eq:
  fixes f t :: jsstr
  defines "F \<equiv> cd [] f" and "T \<equiv> cd [] t"
  defines "n \<equiv> samePartsLength F T"
  shows "relative (Some f) (Some t) =
    Inr (js_join sep (replicate (length F - n) dotdot @ drop n T))"
proof -
  have "list_all clean_segment F" "list_all clean_segment T"
    by (simp_all add: F_def T_def list_all_proper_segment cd_proper)
  then have "trim (js_split (js_join sep F) sep) = F" "trim (js_split (js_join sep T) sep) = T"
    by (simp_all add: trim_split_join)
  then show ?thesis
    using resolve_cd [of "[f]"] resolve_cd [of "[t]"]
    by (simp add: relative_def F_def T_def n_def js_substr_from_def js_rel_index_def Let_def)
qed

lemma cd_relative:
  assumes F: "list_all proper_name F" and T: "list_all proper_name T"
  defines "n \<equiv> samePartsLength F T"
  shows "cd F (js_join sep (replicate (length F - n) dotdot @ drop n T)) = T"
proof -
  let ?ps = "replicate (length F - n) dotdot @ drop n T"
  have drop: "list_all proper_name (drop n T)"
    using T by (auto simp: list_all_iff dest: in_set_dropD)
  then have seg: "list_all clean_segment ?ps"
    by (simp add: list_all_proper_segment)
  then have "\<not> isAbsolute (js_join sep ?ps)"
    by (auto simp: isAbsolute_iff js_join_hd)
  then have "cd F (js_join sep ?ps) = snd (walk ((F @ replicate (length F - n) dotdot) @ drop n T))"
    by (simp add: cd_def path_parts_join [OF seg])
  also have "\<dots> = take n F @ drop n T"
    using samePartsLength_le(1) [of F T]
    by (simp only: walk_append_names [OF drop] walk_append_ups walk_names [OF F])
      (simp add: n_def)
  also have "\<dots> = T"
    unfolding n_def using samePartsLength_take [of F T] by simp
  finally show ?thesis .
qed

section \<open>Theorems\<close>

text \<open>
  \<open>normalizeArray\<close>, which scans the segments backwards with a counter, computes the
  forward walk: \<open>.\<close> stays, \<open>..\<close> leaves the last entered directory or climbs above the
  start, a name enters a directory. With \<open>allowAboveRoot\<close> the climbs are kept as leading
  \<open>..\<close> segments, without it they are dropped.
\<close>

theorem path_normalizeArray_walk:
  "normalizeArray parts allowAboveRoot =
     (let (up, names) = foldl walk_step (0, []) parts
      in (if allowAboveRoot then replicate up dotdot else []) @ names)"
  by (simp add: normalizeArray_by_walk walk_def case_prod_unfold Let_def)

text \<open>C40. Normalising a path twice gives the same as normalising it once.\<close>

theorem path_normalize_idempotent: "normalize (normalize p) = normalize p"
proof -
  note sh = normalize_shape [of p]
  have "normalize (normalize p) =
      normal_form (isAbsolute p) (normalizeArray (path_parts p) (\<not> isAbsolute p))
        (\<exists>t. normalize p = t @ [slash])"
    unfolding normalize_by_normal_form [of "normalize p"] sh(2) sh(3) ..
  then show ?thesis
    using sh(4) unfolding normalize_by_normal_form [of p] by (auto simp: normal_form_root)
qed

text \<open>
  C17. Resolving a list of path strings is a sequence of directory changes from the root:
  each absolute argument starts again at the root, each relative one continues, and the
  result is the absolute path of the directory reached. In particular no exception is
  raised and the result is always absolute and free of \<open>.\<close>, \<open>..\<close> and empty segments.
\<close>

theorem path_resolve_changes_directory:
  "resolve (map Some ss) = Inr (sep @ js_join sep (foldl cd [] ss)) \<and>
   list_all proper_name (foldl cd [] ss)"
  by (simp add: resolve_cd [simplified] foldl_cd_proper)

text \<open>
  C27. \<open>relative(from, to)\<close> is a way from \<open>from\<close> to \<open>to\<close>: resolving it against \<open>from\<close>
  gives what \<open>to\<close> resolves to.
\<close>

theorem path_relative_roundtrip:
  "\<exists>r. relative (Some f) (Some t) = Inr r \<and> resolve [Some f, Some r] = resolve [Some t]"
proof -
  let ?F = "cd [] f" and ?T = "cd [] t"
  let ?r = "js_join sep (replicate (length ?F - samePartsLength ?F ?T) dotdot
    @ drop (samePartsLength ?F ?T) ?T)"
  have "cd ?F ?r = ?T"
    by (intro cd_relative) (simp_all add: cd_proper)
  then have "resolve [Some f, Some ?r] = resolve [Some t]"
    using resolve_cd [of "[f, ?r]"] resolve_cd [of "[t]"] by simp
  then show ?thesis using relative_eq [of f t] by blast
qed

end
