(* ===== verification/Wordcut_Dict.thy ===== *)
theory Wordcut_Dict
  imports Posix_Path "HOL-Library.Sublist"
begin

text \<open>
  The dictionary of the Thai word segmenter, module 2 of
  \<open>src/docs/generated_site/assets/javascripts/lunr/wordcut.js\<close> (lines 58--204), and the
  acceptor objects that all rules of the segmenter share.

  The dictionary is an array of words. \<open>finalizeDict\<close> sorts it and drops duplicates;
  an acceptor follows one candidate word through the text by narrowing an index range with
  the binary search \<open>dictSeek\<close>. The text literal of \<open>addFiles\<close>, half a megabyte of words on
  one source line, is the parameter \<open>builtin\<close>: everything here holds for any literal.
\<close>

section \<open>Data\<close>

record wordcut_dict =
  dict :: "jsstr list"

datatype side = LEFT | RIGHT

text \<open>
  An acceptor is a JavaScript object with a \<open>transit\<close> closure; \<open>transit_fn\<close> says which closure
  it is and holds the fields only that closure uses: the live patterns of \<open>PartRule\<close>, the
  dictionary and index range of a dictionary acceptor. A field that the object literal does
  not have is \<open>None\<close>.
\<close>

datatype transit_method =
    WordTransit
  | NumberTransit
  | SpaceTransit
  | SingleSymbolTransit
  | Rule0Transit
  | PartTransit "jsstr list"
  | DictTransit wordcut_dict int int

record acceptor =
  strOffset :: nat
  isFinal :: bool
  isError :: bool
  acc_tag :: string
  acc_type :: string
  acc_w :: int
  acc_unk :: "int option"
  acc_mw :: "int option"
  transit_fn :: transit_method

section \<open>Operations\<close>

fun uniq_loop :: "jsstr option \<Rightarrow> jsstr list \<Rightarrow> jsstr list" where
  "uniq_loop prev [] = []"
| "uniq_loop prev (item # rest) =
     (if prev = None \<or> prev \<noteq> Some item then item # uniq_loop (Some item) rest
      else uniq_loop (Some item) rest)"

definition sortuniq :: "jsstr list \<Rightarrow> jsstr list" where
  "sortuniq a = uniq_loop None (sort a)"

definition flatten :: "jsstr list list \<Rightarrow> jsstr list" where
  "flatten a = concat a"

definition finalizeDict :: "wordcut_dict \<Rightarrow> wordcut_dict" where
  "finalizeDict d = d\<lparr>dict := sortuniq (dict d)\<rparr>"

text \<open>The optional argument \<open>finalize\<close>: \<open>None\<close> is \<open>undefined\<close>, which counts as true.\<close>

definition addWords :: "wordcut_dict \<Rightarrow> jsstr list \<Rightarrow> bool option \<Rightarrow> wordcut_dict" where
  "addWords d words finalize =
     (let d1 = d\<lparr>dict := dict d @ words\<rparr>
      in if finalize = None \<or> finalize = Some True then finalizeDict d1 else d1)"

definition builtin_words :: "jsstr \<Rightarrow> jsstr list" where
  "builtin_words builtin =
     filter (\<lambda>w. length w > 1) (js_split_runs (\<lambda>c. c = 13 \<or> c = 10) builtin)"

definition addFiles ::
  "jsstr \<Rightarrow> wordcut_dict \<Rightarrow> jsstr list \<Rightarrow> bool option \<Rightarrow> wordcut_dict" where
  "addFiles builtin d files finalize =
     (let d1 = addWords d (builtin_words builtin) (Some False)
      in if finalize = None \<or> finalize = Some True then finalizeDict d1 else d1)"

datatype dict_path = PathUndefined | PathArray "jsstr list" | PathString jsstr

definition dirname_tmp :: jsstr where
  "dirname_tmp = lit ''/dist/tmp''"

definition init_dictPath :: "dict_path \<Rightarrow> bool \<Rightarrow> jsstr list" where
  "init_dictPath dictPathFile withDefault =
     (let defaultDict = Posix_Path.normalize (dirname_tmp @ lit ''/..'') @ lit ''/data/tdict-*.txt'';
          dictPathIsDefined = (dictPathFile \<noteq> PathUndefined);
          dictPath = (if withDefault \<or> \<not> dictPathIsDefined then [defaultDict] else [])
      in case dictPathFile of
           PathUndefined \<Rightarrow> dictPath
         | PathArray files \<Rightarrow> dictPath
         | PathString f \<Rightarrow> dictPath @ [if f = [] then defaultDict else f])"

definition dict_init ::
  "jsstr \<Rightarrow> dict_path \<Rightarrow> bool option \<Rightarrow> jsstr list option \<Rightarrow> wordcut_dict" where
  "dict_init builtin dictPathFile withDefault words =
     (let d0 = \<lparr>dict = []\<rparr>;
          d1 = addFiles builtin d0 (init_dictPath dictPathFile (withDefault = Some True)) (Some False);
          d2 = (case words of None \<Rightarrow> d1 | Some ws \<Rightarrow> addWords d1 ws (Some False))
      in finalizeDict d2)"

function dictSeek_loop ::
  "wordcut_dict \<Rightarrow> int \<Rightarrow> int \<Rightarrow> jschar \<Rightarrow> nat \<Rightarrow> side \<Rightarrow> int option \<Rightarrow> js_error + int option"
where
  "dictSeek_loop d l r c off pos ans =
     (if l \<le> r then
        let m = (l + r) div 2
        in ebind (arr_get (dict d) m) (\<lambda>dict_item.
             if length dict_item \<le> off then dictSeek_loop d (m + 1) r c off pos ans
             else if dict_item ! off < c then dictSeek_loop d (m + 1) r c off pos ans
             else if dict_item ! off > c then dictSeek_loop d l (m - 1) c off pos ans
             else if pos = LEFT then dictSeek_loop d l (m - 1) c off pos (Some m)
             else dictSeek_loop d (m + 1) r c off pos (Some m))
      else Inr ans)"
  by pat_completeness auto
termination
  by (relation "measure (\<lambda>(d, l, r, c, off, pos, ans). nat (r - l + 1))") auto

declare dictSeek_loop.simps [simp del]

definition dictSeek ::
  "wordcut_dict \<Rightarrow> int \<Rightarrow> int \<Rightarrow> jschar \<Rightarrow> nat \<Rightarrow> side \<Rightarrow> js_error + int option" where
  "dictSeek d l r c off pos = dictSeek_loop d l r c off pos None"

definition dict_isFinal :: "wordcut_dict \<Rightarrow> int \<Rightarrow> nat \<Rightarrow> js_error + bool" where
  "dict_isFinal d l off = ebind (arr_get (dict d) l) (\<lambda>item. Inr (length item = off))"

definition dict_createAcceptor :: "wordcut_dict \<Rightarrow> acceptor" where
  "dict_createAcceptor d =
     \<lparr>strOffset = 0, isFinal = False, isError = False, acc_tag = ''DICT'', acc_type = ''DICT'',
      acc_w = 1, acc_unk = None, acc_mw = None,
      transit_fn = DictTransit d 0 (int (length (dict d)) - 1)\<rparr>"

text \<open>When the second search finds nothing, \<open>r\<close> becomes \<open>null\<close>, which counts as 0.\<close>

definition dict_transit :: "wordcut_dict \<Rightarrow> int \<Rightarrow> int \<Rightarrow> acceptor \<Rightarrow> jschar \<Rightarrow> js_error + acceptor" where
  "dict_transit d l r a c =
     ebind (dictSeek d l r c (strOffset a) LEFT) (\<lambda>l1.
       case l1 of
         None \<Rightarrow> Inr (a\<lparr>isError := True\<rparr>)
       | Some l' \<Rightarrow>
           ebind (dictSeek d l' r c (strOffset a) RIGHT) (\<lambda>r1.
             let r' = (case r1 of None \<Rightarrow> 0 | Some x \<Rightarrow> x); off = Suc (strOffset a)
             in ebind (dict_isFinal d l' off) (\<lambda>fin.
                  Inr (a\<lparr>strOffset := off, isFinal := fin, transit_fn := DictTransit d l' r'\<rparr>))))"

section \<open>Sorting and removing duplicates\<close>

lemma uniq_loop_sorted:
  "sorted xs \<Longrightarrow> (\<And>y x. prev = Some y \<Longrightarrow> x \<in> set xs \<Longrightarrow> y \<le> x) \<Longrightarrow>
   sorted_wrt (<) (uniq_loop prev xs) \<and>
   set (uniq_loop prev xs) = set xs - set_option prev"
proof (induction prev xs rule: uniq_loop.induct)
  case (1 prev)
  then show ?case by simp
next
  case (2 prev item rest)
  have step: "sorted_wrt (<) (uniq_loop (Some item) rest)"
    "set (uniq_loop (Some item) rest) = set rest - {item}"
    using 2 by (cases "prev = None \<or> prev \<noteq> Some item"; auto)+
  show ?case
  proof (cases "prev = Some item")
    case True
    then show ?thesis using step by auto
  next
    case False
    have "prev = Some y \<Longrightarrow> y \<notin> set rest" for y
      using 2(3,4) False by (fastforce simp: order.antisym)
    moreover have "x \<in> set rest - {item} \<Longrightarrow> item < x" for x
      using 2(3) by (auto simp: order.strict_iff_order)
    ultimately show ?thesis using False step
      by (cases prev) auto
  qed
qed

lemma sortuniq_sorted: "sorted_wrt (<) (sortuniq a)"
  and set_sortuniq [simp]: "set (sortuniq a) = set a"
  using uniq_loop_sorted [of "sort a" None] by (auto simp: sortuniq_def)

text \<open>The representation invariant of a finalized dictionary.\<close>

definition dict_ok :: "wordcut_dict \<Rightarrow> bool" where
  "dict_ok d \<longleftrightarrow> sorted_wrt (<) (dict d)"

lemma finalizeDict_ok [simp]: "dict_ok (finalizeDict d)"
  by (simp add: dict_ok_def finalizeDict_def sortuniq_sorted)

lemma set_finalizeDict [simp]: "set (dict (finalizeDict d)) = set (dict d)"
  by (simp add: finalizeDict_def)

lemma dict_init_ok: "dict_ok (dict_init builtin dpath withDefault words)"
  by (simp add: dict_init_def Let_def)

lemma set_dict_init:
  "set (dict (dict_init builtin dpath withDefault words)) =
     set (builtin_words builtin) \<union> (case words of None \<Rightarrow> {} | Some ws \<Rightarrow> set ws)"
  by (auto simp: dict_init_def Let_def addFiles_def addWords_def split: option.splits)

section \<open>Lexicographic order and prefixes\<close>

lemma list_less_append_same [simp]:
  fixes u :: "'a::linorder list"
  shows "u @ x < u @ y \<longleftrightarrow> x < y"
  by (induction u) auto

lemma prefix_le:
  fixes u :: "'a::linorder list"
  shows "prefix u v \<Longrightarrow> u \<le> v"
proof (induction u arbitrary: v)
  case (Cons a u)
  then show ?case by (cases v) auto
qed simp

lemma less_heads:
  fixes x y :: "'a::linorder list"
  assumes "x < y" shows "y \<noteq> [] \<and> (x = [] \<or> hd x \<le> hd y)"
  using assms by (cases x; cases y) auto

text \<open>
  \<open>covers D u l r\<close>: the words of \<open>D\<close> that start with \<open>u\<close> are exactly those at the indices
  from \<open>l\<close> to \<open>r\<close>.
\<close>

definition covers :: "jsstr list \<Rightarrow> jsstr \<Rightarrow> int \<Rightarrow> int \<Rightarrow> bool" where
  "covers D u l r \<longleftrightarrow> 0 \<le> l \<and> r < int (length D) \<and>
     (\<forall>i. 0 \<le> i \<longrightarrow> i < int (length D) \<longrightarrow> (l \<le> i \<and> i \<le> r \<longleftrightarrow> prefix u (D ! nat i)))"

lemma covers_nth:
  "covers D u l r \<Longrightarrow> k < length D \<Longrightarrow> prefix u (D ! k) \<longleftrightarrow> l \<le> int k \<and> int k \<le> r"
  unfolding covers_def by (metis nat_int of_nat_0_le_iff of_nat_less_iff)

lemma covers_range: "covers D u l r \<Longrightarrow> l \<le> i \<Longrightarrow> i \<le> r \<Longrightarrow> 0 \<le> i \<and> i < int (length D)"
  by (auto simp: covers_def)

lemma covers_start: "covers D [] 0 (int (length D) - 1)"
  by (auto simp: covers_def)

text \<open>Within such a range the next code unit grows with the index.\<close>

lemma covers_monotone:
  assumes D: "sorted_wrt (<) D" and c: "covers D u l r"
    and ij: "l \<le> i" "i < j" "j \<le> r"
  shows "length u < length (D ! nat j)"
    and "length u < length (D ! nat i) \<Longrightarrow> D ! nat i ! length u \<le> D ! nat j ! length u"
proof -
  from c ij have rng: "0 \<le> i" "j < int (length D)" "nat i < nat j" "nat j < length D"
    by (auto simp: covers_def)
  then have pre: "prefix u (D ! nat i)" "prefix u (D ! nat j)"
    using covers_nth [OF c, of "nat i"] covers_nth [OF c, of "nat j"] ij by auto
  then obtain x y where xy: "D ! nat i = u @ x" "D ! nat j = u @ y"
    by (auto simp: prefix_def)
  have "D ! nat i < D ! nat j"
    using D rng by (simp add: sorted_wrt_nth_less)
  then have "x < y" by (simp add: xy)
  note h = less_heads [OF this]
  show "length u < length (D ! nat j)" using h by (simp add: xy)
  show "D ! nat i ! length u \<le> D ! nat j ! length u" if "length u < length (D ! nat i)"
    using that h by (auto simp: xy nth_append hd_conv_nth)
qed

section \<open>The binary search\<close>

definition hit :: "jsstr list \<Rightarrow> jschar \<Rightarrow> nat \<Rightarrow> int \<Rightarrow> bool" where
  "hit D c off i \<longleftrightarrow> off < length (D ! nat i) \<and> D ! nat i ! off = c"

lemma find_append:
  "List.find P (xs @ ys) = (case List.find P xs of None \<Rightarrow> List.find P ys | Some x \<Rightarrow> Some x)"
  by (induction xs) auto

lemma find_none: "(\<And>x. x \<in> set xs \<Longrightarrow> \<not> P x) \<Longrightarrow> List.find P xs = None"
  by (simp add: find_None_iff)

lemma find_Cons: "List.find P (x # xs) = (if P x then Some x else List.find P xs)"
  by simp

lemma find_hit_split:
  assumes "l \<le> m" "m \<le> r"
  shows "List.find P [l..r] =
      (case List.find P [l..m - 1] of
         Some x \<Rightarrow> Some x
       | None \<Rightarrow> if P m then Some m else List.find P [m + 1..r])"
    and "List.find P (rev [l..r]) =
      (case List.find P (rev [m + 1..r]) of
         Some x \<Rightarrow> Some x
       | None \<Rightarrow> if P m then Some m else List.find P (rev [l..m - 1]))"
  using assms by (simp_all only: upto_split3 [of l m r] find_append find_Cons rev_append rev.simps
      append_assoc append.simps)

text \<open>
  Inside a covered range the binary search returns what a scan returns: from the left for
  \<open>LEFT\<close>, from the right for \<open>RIGHT\<close>; it never reads outside the array.
\<close>

definition scan :: "jsstr list \<Rightarrow> side \<Rightarrow> int \<Rightarrow> int \<Rightarrow> jschar \<Rightarrow> nat \<Rightarrow> int option" where
  "scan D pos l r c off = List.find (hit D c off) (if pos = LEFT then [l..r] else rev [l..r])"

lemma scan_empty [simp]: "r < l \<Longrightarrow> scan D pos l r c off = None"
  by (simp add: scan_def)

lemma scan_right_part:
  assumes "l \<le> m" "m \<le> r" "\<And>i. l \<le> i \<Longrightarrow> i \<le> m \<Longrightarrow> \<not> hit D c off i"
  shows "scan D pos l r c off = scan D pos (m + 1) r c off"
proof -
  have "List.find (hit D c off) [l..m - 1] = None" "List.find (hit D c off) (rev [l..m - 1]) = None"
    by (rule find_none; use assms(3) in auto)+
  with assms show ?thesis
    by (auto simp: scan_def find_hit_split [OF assms(1,2)] split: option.splits)
qed

lemma scan_left_part:
  assumes "l \<le> m" "m \<le> r" "\<And>i. m \<le> i \<Longrightarrow> i \<le> r \<Longrightarrow> \<not> hit D c off i"
  shows "scan D pos l r c off = scan D pos l (m - 1) c off"
proof -
  have "List.find (hit D c off) [m + 1..r] = None" "List.find (hit D c off) (rev [m + 1..r]) = None"
    by (rule find_none; use assms(3) in auto)+
  with assms show ?thesis
    by (auto simp: scan_def find_hit_split [OF assms(1,2)] split: option.splits)
qed

lemma scan_hit:
  assumes "l \<le> m" "m \<le> r" "hit D c off m"
  shows "scan D LEFT l r c off = (case scan D LEFT l (m - 1) c off of None \<Rightarrow> Some m | Some x \<Rightarrow> Some x)"
    and "scan D RIGHT l r c off = (case scan D RIGHT (m + 1) r c off of None \<Rightarrow> Some m | Some x \<Rightarrow> Some x)"
  using assms(3) by (auto simp: scan_def find_hit_split [OF assms(1,2)] split: option.splits)

lemma dictSeek_loop_scan:
  assumes D: "sorted_wrt (<) (dict d)" and cov: "covers (dict d) u l0 r0"
  shows "l0 \<le> l \<Longrightarrow> r \<le> r0 \<Longrightarrow>
    dictSeek_loop d l r c (length u) pos ans =
      Inr (case scan (dict d) pos l r c (length u) of None \<Rightarrow> ans | Some m \<Rightarrow> Some m)"
proof (induction "nat (r - l + 1)" arbitrary: l r ans rule: less_induct)
  case less
  let ?D = "dict d" and ?off = "length u"
  show ?case
  proof (cases "l \<le> r")
    case False
    then show ?thesis by (subst dictSeek_loop.simps) simp
  next
    case True
    define m where "m = (l + r) div 2"
    have m: "l \<le> m" "m \<le> r" using True by (auto simp: m_def)
    have get: "arr_get ?D m = Inr (?D ! nat m)"
      using m less.prems cov by (intro arr_get_in) (auto simp: covers_def)
    note mono = covers_monotone [OF D cov]
    have IHr: "dictSeek_loop d (m + 1) r c ?off pos a =
        Inr (case scan ?D pos (m + 1) r c ?off of None \<Rightarrow> a | Some m \<Rightarrow> Some m)" for a
      by (rule less.hyps) (use m less.prems in auto)
    have IHl: "dictSeek_loop d l (m - 1) c ?off pos a =
        Inr (case scan ?D pos l (m - 1) c ?off of None \<Rightarrow> a | Some m \<Rightarrow> Some m)" for a
      by (rule less.hyps) (use m less.prems in auto)
    note unfold = dictSeek_loop.simps [of d l r] m_def [symmetric] Let_def get True
    consider (low) "length (?D ! nat m) \<le> ?off \<or> ?D ! nat m ! ?off < c"
      | (high) "?off < length (?D ! nat m)" "c < ?D ! nat m ! ?off"
      | (eq) "?off < length (?D ! nat m)" "?D ! nat m ! ?off = c"
      by fastforce
    then show ?thesis
    proof cases
      case low
      have "\<not> hit ?D c ?off i" if "l \<le> i" "i \<le> m" for i
        using low that mono [of i m] m less.prems
        by (cases "i = m") (fastforce simp: hit_def)+
      then have "scan ?D pos l r c ?off = scan ?D pos (m + 1) r c ?off"
        using m by (intro scan_right_part)
      then show ?thesis using low by (auto simp: unfold IHr)
    next
      case high
      have "\<not> hit ?D c ?off i" if "m \<le> i" "i \<le> r" for i
        using high that mono [of m i] m less.prems
        by (cases "i = m") (fastforce simp: hit_def)+
      then have "scan ?D pos l r c ?off = scan ?D pos l (m - 1) c ?off"
        using m by (intro scan_left_part)
      then show ?thesis using high by (auto simp: unfold IHl)
    next
      case eq
      then have "hit ?D c ?off m" by (simp add: hit_def)
      note h = scan_hit [OF m this]
      have "\<not> length (?D ! nat m) \<le> ?off" "\<not> ?D ! nat m ! ?off < c" "\<not> c < ?D ! nat m ! ?off"
        using eq by auto
      then show ?thesis using IHl [of "Some m"] IHr [of "Some m"]
        by (cases pos) (simp_all add: unfold h split: option.split)
    qed
  qed
qed

section \<open>Following a word\<close>

lemma scan_LEFT_Some:
  assumes "scan D LEFT l r c off = Some m"
  shows "l \<le> m" "m \<le> r" "hit D c off m" "\<And>i. l \<le> i \<Longrightarrow> i < m \<Longrightarrow> \<not> hit D c off i"
proof -
  from assms obtain k where k: "k < length [l..r]" "hit D c off ([l..r] ! k)" "m = [l..r] ! k"
    and first: "\<And>j. j < k \<Longrightarrow> \<not> hit D c off ([l..r] ! j)"
    by (auto simp: scan_def find_Some_iff)
  have m: "m = l + int k" using k by (simp add: nth_upto)
  show "l \<le> m" "m \<le> r" "hit D c off m" using k m by auto
  show "\<not> hit D c off i" if "l \<le> i" "i < m" for i
    using first [of "nat (i - l)"] that m k by (simp add: nth_upto)
qed

lemma scan_RIGHT_Some:
  assumes "scan D RIGHT l r c off = Some m"
  shows "l \<le> m" "m \<le> r" "hit D c off m" "\<And>i. m < i \<Longrightarrow> i \<le> r \<Longrightarrow> \<not> hit D c off i"
proof -
  from assms obtain k where k: "k < length [l..r]" "hit D c off (rev [l..r] ! k)" "m = rev [l..r] ! k"
    and first: "\<And>j. j < k \<Longrightarrow> \<not> hit D c off (rev [l..r] ! j)"
    by (auto simp: scan_def find_Some_iff)
  have m: "m = r - int k" using k by (simp add: rev_nth nth_upto)
  show "l \<le> m" "m \<le> r" "hit D c off m" using k m by auto
  show "\<not> hit D c off i" if "m < i" "i \<le> r" for i
  proof -
    have "nat (r - i) < length [l..r]" using that m k by auto
    then have "rev [l..r] ! nat (r - i) = i"
      using that m k by (simp add: rev_nth nth_upto)
    then show ?thesis using first [of "nat (r - i)"] that m by simp
  qed
qed

lemma scan_None_iff: "scan D pos l r c off = None \<longleftrightarrow> (\<forall>i. l \<le> i \<longrightarrow> i \<le> r \<longrightarrow> \<not> hit D c off i)"
  by (auto simp: scan_def find_None_iff)

lemma prefix_snoc_iff:
  "prefix (u @ [c]) w \<longleftrightarrow> prefix u w \<and> length u < length w \<and> w ! length u = c"
proof (cases "prefix u w")
  case True
  then obtain z where "w = u @ z" by (auto simp: prefix_def)
  then show ?thesis by (cases z) auto
next
  case False
  then show ?thesis by (auto dest: append_prefixD)
qed

lemma Bex_set_int:
  "(\<exists>w \<in> set xs. P w) \<longleftrightarrow> (\<exists>i. 0 \<le> i \<and> i < int (length xs) \<and> P (xs ! nat i))"
proof
  assume "\<exists>w \<in> set xs. P w"
  then obtain k where "k < length xs" "P (xs ! k)" by (auto simp: in_set_conv_nth)
  then show "\<exists>i. 0 \<le> i \<and> i < int (length xs) \<and> P (xs ! nat i)"
    by (intro exI [of _ "int k"]) simp
next
  assume "\<exists>i. 0 \<le> i \<and> i < int (length xs) \<and> P (xs ! nat i)"
  then show "\<exists>w \<in> set xs. P w" by (auto simp: nat_less_iff intro!: bexI nth_mem)
qed

lemma covers_hit:
  assumes "covers D u l r" "0 \<le> i" "i < int (length D)"
  shows "prefix (u @ [c]) (D ! nat i) \<longleftrightarrow> l \<le> i \<and> i \<le> r \<and> hit D c (length u) i"
  using assms covers_nth [OF assms(1), of "nat i"] by (simp add: prefix_snoc_iff hit_def nat_less_iff)

lemma covers_step:
  assumes D: "sorted_wrt (<) D" and cov: "covers D u l r"
    and l': "scan D LEFT l r c (length u) = Some l'" and r': "scan D RIGHT l' r c (length u) = Some r'"
  shows "covers D (u @ [c]) l' r'"
proof -
  note L = scan_LEFT_Some [OF l'] and R = scan_RIGHT_Some [OF r']
  have between: "hit D c (length u) i" if "l' \<le> i" "i \<le> r'" for i
  proof (cases "i = l' \<or> i = r'")
    case True
    then show ?thesis using L R by auto
  next
    case False
    then have "l' < i" "i < r'" using that by auto
    then show ?thesis
      using covers_monotone [OF D cov, of l' i] covers_monotone [OF D cov, of i r'] L R
      by (auto simp: hit_def)
  qed
  have "0 \<le> l'" "r' < int (length D)" using cov L R by (auto simp: covers_def)
  moreover have "l' \<le> i \<and> i \<le> r' \<longleftrightarrow> prefix (u @ [c]) (D ! nat i)"
    if "0 \<le> i" "i < int (length D)" for i
    unfolding covers_hit [OF cov that] using between L R by (metis leI order.trans)
  ultimately show ?thesis by (simp add: covers_def)
qed

text \<open>The first word of a range is the shortest: the prefix itself, if it is a word.\<close>

lemma covers_first:
  assumes D: "sorted_wrt (<) D" and cov: "covers D u l r" and "l \<le> r"
  shows "length (D ! nat l) = length u \<longleftrightarrow> u \<in> set D"
proof
  have l: "0 \<le> l" "l < int (length D)" using cov \<open>l \<le> r\<close> by (auto simp: covers_def)
  then have pre: "prefix u (D ! nat l)" using cov \<open>l \<le> r\<close> by (auto simp: covers_def)
  show "u \<in> set D" if "length (D ! nat l) = length u"
  proof -
    have "u = D ! nat l" using pre that by (auto simp: prefix_def)
    moreover have "D ! nat l \<in> set D" using l by (intro nth_mem) (simp add: nat_less_iff)
    ultimately show ?thesis by simp
  qed
  show "length (D ! nat l) = length u" if u: "u \<in> set D"
  proof -
    obtain k where k: "k < length D" "D ! k = u" using u by (metis in_set_conv_nth)
    have "l \<le> int k" using covers_nth [OF cov k(1)] k(2) by simp
    have "D ! nat l \<le> u"
    proof (cases "nat l = k")
      case False
      then have "nat l < k" using l \<open>l \<le> int k\<close> by linarith
      then have "D ! nat l < D ! k" using k by (intro sorted_wrt_nth_less [OF D])
      then show ?thesis using k by simp
    qed (use k in simp)
    moreover have "u \<le> D ! nat l" by (rule prefix_le [OF pre])
    ultimately show ?thesis by simp
  qed
qed

text \<open>
  \<open>follows d u a\<close>: \<open>a\<close> is a live dictionary acceptor that has read exactly \<open>u\<close>.
\<close>

definition follows :: "wordcut_dict \<Rightarrow> jsstr \<Rightarrow> acceptor \<Rightarrow> bool" where
  "follows d u a \<longleftrightarrow>
     \<not> isError a \<and> strOffset a = length u \<and>
     (isFinal a \<longleftrightarrow> u \<noteq> [] \<and> u \<in> set (dict d)) \<and>
     (\<exists>l r. transit_fn a = DictTransit d l r \<and> covers (dict d) u l r)"

lemma follows_create: "follows d [] (dict_createAcceptor d)"
  by (auto simp: follows_def dict_createAcceptor_def covers_start)

lemma dict_transit_follows:
  assumes ok: "dict_ok d" and cov: "covers (dict d) u l r" and off: "strOffset a = length u"
    and err: "\<not> isError a"
  shows "\<exists>a'. dict_transit d l r a c = Inr a' \<and>
     (if \<exists>w \<in> set (dict d). prefix (u @ [c]) w then follows d (u @ [c]) a' \<and>
          a' = a\<lparr>strOffset := strOffset a', isFinal := isFinal a', transit_fn := transit_fn a'\<rparr>
      else a' = a\<lparr>isError := True\<rparr>)"
proof -
  let ?D = "dict d"
  have D: "sorted_wrt (<) ?D" using ok by (simp add: dict_ok_def)
  have seek: "dictSeek d x r c (length u) pos = Inr (scan ?D pos x r c (length u))" if "l \<le> x" for x pos
    unfolding dictSeek_def using dictSeek_loop_scan [OF D cov that order.refl]
    by (simp split: option.split)
  have some: "(\<exists>w \<in> set ?D. prefix (u @ [c]) w) \<longleftrightarrow> scan ?D LEFT l r c (length u) \<noteq> None"
  proof -
    have "(\<exists>w \<in> set ?D. prefix (u @ [c]) w) \<longleftrightarrow> (\<exists>i. l \<le> i \<and> i \<le> r \<and> hit ?D c (length u) i)"
      unfolding Bex_set_int using covers_hit [OF cov] covers_range [OF cov] by blast
    then show ?thesis by (auto simp: scan_None_iff)
  qed
  show ?thesis
  proof (cases "scan ?D LEFT l r c (length u)")
    case None
    then show ?thesis using some seek [of l LEFT] off by (auto simp: dict_transit_def)
  next
    case (Some l')
    note L = scan_LEFT_Some [OF Some]
    obtain r' where r': "scan ?D RIGHT l' r c (length u) = Some r'"
      using L by (cases "scan ?D RIGHT l' r c (length u)") (auto simp: scan_None_iff)
    note R = scan_RIGHT_Some [OF r']
    have cov': "covers ?D (u @ [c]) l' r'" by (rule covers_step [OF D cov Some r'])
    have "arr_get ?D l' = Inr (?D ! nat l')"
      using cov L by (intro arr_get_in) (auto simp: covers_def)
    then have fin: "dict_isFinal d l' (Suc (length u)) = Inr (u @ [c] \<in> set ?D)"
      using covers_first [OF D cov'] R by (simp add: dict_isFinal_def)
    show ?thesis
      using Some r' seek [of l LEFT] seek [of l' RIGHT] L off err fin cov' some
      by (auto simp: dict_transit_def follows_def)
  qed
qed

text \<open>A dictionary acceptor run over a string; a failed acceptor is never used again.\<close>

fun dict_run :: "acceptor \<Rightarrow> jsstr \<Rightarrow> js_error + acceptor" where
  "dict_run a [] = Inr a"
| "dict_run a (c # cs) =
     (if isError a then Inr a
      else case transit_fn a of
        DictTransit d l r \<Rightarrow> ebind (dict_transit d l r a c) (\<lambda>a'. dict_run a' cs)
      | _ \<Rightarrow> Inr a)"

lemma dict_run_follows:
  assumes ok: "dict_ok d" and u: "follows d u a"
  shows "\<exists>a'. dict_run a v = Inr a' \<and>
     (if v = [] \<or> (\<exists>w \<in> set (dict d). prefix (u @ v) w) then follows d (u @ v) a' else isError a')"
  using u
proof (induction v arbitrary: u a)
  case Nil
  then show ?case by simp
next
  case (Cons c v)
  obtain l r where live: "\<not> isError a" and m: "transit_fn a = DictTransit d l r"
    and cov: "covers (dict d) u l r" and off: "strOffset a = length u"
    using Cons.prems by (auto simp: follows_def)
  from dict_transit_follows [OF ok cov off live, of c]
  obtain a1 where a1: "dict_transit d l r a c = Inr a1"
    and res: "if \<exists>w \<in> set (dict d). prefix (u @ [c]) w then follows d (u @ [c]) a1 \<and>
        a1 = a\<lparr>strOffset := strOffset a1, isFinal := isFinal a1, transit_fn := transit_fn a1\<rparr>
      else a1 = a\<lparr>isError := True\<rparr>"
    by blast
  show ?case
  proof (cases "\<exists>w \<in> set (dict d). prefix (u @ [c]) w")
    case True
    then have "follows d (u @ [c]) a1" using res by simp
    from Cons.IH [OF this] obtain a2 where a2: "dict_run a1 v = Inr a2"
      and res2: "if v = [] \<or> (\<exists>w \<in> set (dict d). prefix ((u @ [c]) @ v) w)
        then follows d ((u @ [c]) @ v) a2 else isError a2"
      by blast
    have "v = [] \<or> (\<exists>w \<in> set (dict d). prefix ((u @ [c]) @ v) w) \<longleftrightarrow>
        (\<exists>w \<in> set (dict d). prefix (u @ c # v) w)"
      using True by (cases v) auto
    then show ?thesis using res2 live m a1 a2 by (simp split: if_split_asm)
  next
    case False
    then have "\<not> prefix (u @ c # v) w" if "w \<in> set (dict d)" for w
      using that append_prefixD [of "u @ [c]" v w] by auto
    moreover have "isError a1" using False res by simp
    moreover have "dict_run a1 v = Inr a1" using \<open>isError a1\<close> by (cases v) auto
    ultimately show ?thesis using live m a1 by auto
  qed
qed

section \<open>Theorems\<close>

text \<open>
  \<open>sortuniq\<close> returns the same words in strictly increasing code unit order, hence
  without duplicates.
\<close>

theorem dict_sortuniq_strictly_sorted:
  "sorted_wrt (<) (sortuniq a) \<and> set (sortuniq a) = set a"
  by (simp add: sortuniq_sorted)

text \<open>
  C6. In a finalized dictionary, within the index range of the words that start with \<open>u\<close>,
  the binary search \<open>dictSeek\<close> returns the first (\<open>LEFT\<close>) or last (\<open>RIGHT\<close>) index whose
  word has \<open>c\<close> after \<open>u\<close>, as a linear scan would, and raises no exception.
\<close>

theorem dictSeek_is_scan:
  assumes "dict_ok d" and "covers (dict d) u l r"
  shows "dictSeek d l r c (length u) pos =
      Inr (List.find (\<lambda>i. length u < length (dict d ! nat i) \<and> dict d ! nat i ! length u = c)
             (if pos = LEFT then [l..r] else rev [l..r]))"
proof -
  have "dictSeek d l r c (length u) pos = Inr (scan (dict d) pos l r c (length u))"
    unfolding dictSeek_def using assms dictSeek_loop_scan [of d u l r l r]
    by (simp add: dict_ok_def split: option.split)
  then show ?thesis by (simp add: scan_def hit_def [abs_def])
qed

theorem dictSeek_is_scan_witness:
  "dictSeek \<lparr>dict = [lit ''ab'', lit ''b'', lit ''ba'', lit ''bc'']\<rparr> 1 3 (ch CHR ''c'') 1 LEFT
     = Inr (Some 3)"
proof -
  let ?d = "\<lparr>dict = [lit ''ab'', lit ''b'', lit ''ba'', lit ''bc'']\<rparr>"
  have ok: "dict_ok ?d" by (simp add: dict_ok_def)
  have "covers (dict ?d) (lit ''b'') 1 3"
  proof -
    have "i = 0 \<or> i = 1 \<or> i = 2 \<or> i = 3" if "0 \<le> i" "i < int 4" for i
      using that by auto
    then show ?thesis by (force simp: covers_def)
  qed
  from dictSeek_is_scan [OF ok this, of "ch CHR ''c''" LEFT] show ?thesis
    by (simp add: upto.simps)
qed

text \<open>
  C7. In every dictionary that \<open>init\<close> builds, an acceptor that is fed a non-empty string
  raises no exception, stays alive exactly when some word starts with that string, and is
  final exactly when the string is itself a word: one of the built-in words or of the
  words given to \<open>init\<close>.
\<close>

theorem dict_acceptor_recognizes_words:
  fixes builtin dpath withDefault words c u
  defines "d \<equiv> dict_init builtin dpath withDefault words"
  shows "\<exists>a. dict_run (dict_createAcceptor d) (c # u) = Inr a \<and>
    (\<not> isError a \<longleftrightarrow> (\<exists>w \<in> set (dict d). prefix (c # u) w)) \<and>
    (\<not> isError a \<and> isFinal a \<longleftrightarrow>
       c # u \<in> set (builtin_words builtin) \<union> (case words of None \<Rightarrow> {} | Some ws \<Rightarrow> set ws))"
proof -
  have "dict_ok d" by (simp add: d_def dict_init_ok)
  from dict_run_follows [OF this follows_create, of "c # u"]
  obtain a where a: "dict_run (dict_createAcceptor d) (c # u) = Inr a"
    and "if c # u = [] \<or> (\<exists>w \<in> set (dict d). prefix ([] @ c # u) w)
      then follows d ([] @ c # u) a else isError a"
    by blast
  then have res: "if \<exists>w \<in> set (dict d). prefix (c # u) w then follows d (c # u) a else isError a"
    by (simp split: if_split_asm)
  have "c # u \<in> set (dict d) \<Longrightarrow> \<exists>w \<in> set (dict d). prefix (c # u) w"
    by blast
  moreover have "set (builtin_words builtin) \<union> (case words of None \<Rightarrow> {} | Some ws \<Rightarrow> set ws) =
      set (dict d)"
    by (simp add: d_def set_dict_init)
  ultimately show ?thesis
    using a res by (auto simp: follows_def split: if_split_asm simp del: dict_run.simps)
qed

end
