(* ===== verification/Wordcut_Rules.thy ===== *)
theory Wordcut_Rules
  imports Wordcut_Dict
begin

text \<open>
  The rules of the Thai word segmenter that are not words of the dictionary: the Latin rules
  (module 3 of \<open>wordcut.js\<close>, lines 205--305) and the Thai rules (module 6, lines 420--487).
  Each rule creates acceptors, and each acceptor reads one code unit per \<open>transit\<close>.

  \<open>toLowerCase\<close> is applied to one code unit and its result is only compared with the
  letters a to z. Besides A to Z, two code units have a lower case that starts with such a
  letter: U+0130, which becomes \<open>i\<close> and a combining dot, and U+212A, the Kelvin sign, which
  becomes \<open>k\<close>. Every other code unit is its own lower case or has one above \<open>z\<close>, as it
  itself is, so the model leaves it alone.
\<close>

section \<open>Latin rules\<close>

definition toLowerCase :: "jschar \<Rightarrow> jsstr" where
  "toLowerCase c =
     (if ch CHR ''A'' \<le> c \<and> c \<le> ch CHR ''Z'' then [c + 32]
      else if c = 0x0130 then [0x0069, 0x0307]
      else if c = 0x212A then [0x006B]
      else [c])"

text \<open>What every object literal of the rules has in common.\<close>

definition new_acceptor :: "string \<Rightarrow> transit_method \<Rightarrow> acceptor" where
  "new_acceptor t m =
     \<lparr>strOffset = 0, isFinal = False, isError = False, acc_tag = t, acc_type = t,
      acc_w = 1, acc_unk = None, acc_mw = None, transit_fn = m\<rparr>"

text \<open>The tags of the acceptors that survived the previous code unit.\<close>

type_synonym tags = "string \<Rightarrow> acceptor option"

definition WordRule_create :: "tags \<Rightarrow> acceptor option" where
  "WordRule_create tag =
     (if tag ''WORD_RULE'' \<noteq> None then None else Some (new_acceptor ''WORD_RULE'' WordTransit))"

definition WordRule_transit :: "acceptor \<Rightarrow> jschar \<Rightarrow> acceptor" where
  "WordRule_transit a c =
     (let lch = toLowerCase c
      in if lch \<ge> lit ''a'' \<and> lch \<le> lit ''z''
         then a\<lparr>isFinal := True, strOffset := Suc (strOffset a)\<rparr>
         else a\<lparr>isError := True\<rparr>)"

definition NumberRule_create :: "tags \<Rightarrow> acceptor option" where
  "NumberRule_create tag =
     (if tag ''NUMBER_RULE'' \<noteq> None then None else Some (new_acceptor ''NUMBER_RULE'' NumberTransit))"

definition NumberRule_transit :: "acceptor \<Rightarrow> jschar \<Rightarrow> acceptor" where
  "NumberRule_transit a c =
     (if c \<ge> ch CHR ''0'' \<and> c \<le> ch CHR ''9''
      then a\<lparr>isFinal := True, strOffset := Suc (strOffset a)\<rparr>
      else a\<lparr>isError := True\<rparr>)"

definition SpaceRule_create :: "tags \<Rightarrow> acceptor option" where
  "SpaceRule_create tag =
     (if tag ''SPACE_RULE'' \<noteq> None then None else Some (new_acceptor ''SPACE_RULE'' SpaceTransit))"

definition SpaceRule_transit :: "acceptor \<Rightarrow> jschar \<Rightarrow> acceptor" where
  "SpaceRule_transit a c =
     (if c = 32 \<or> c = 9 \<or> c = 13 \<or> c = 10 \<or> c = 0x00A0 \<or> c = 0x2003
      then a\<lparr>isFinal := True, strOffset := Suc (strOffset a)\<rparr>
      else a\<lparr>isError := True\<rparr>)"

definition SingleSymbolRule_create :: "tags \<Rightarrow> acceptor option" where
  "SingleSymbolRule_create tag = Some (new_acceptor ''SINSYM'' SingleSymbolTransit)"

text \<open>The class \<open>[\@\(\)\/\,\-\."`]\<close>.\<close>

definition single_symbol :: "jschar \<Rightarrow> bool" where
  "single_symbol c \<longleftrightarrow> c \<in> set [64, 40, 41, 47, 44, 45, 46, 34, 96]"

definition SingleSymbolRule_transit :: "acceptor \<Rightarrow> jschar \<Rightarrow> acceptor" where
  "SingleSymbolRule_transit a c =
     (if strOffset a = 0 \<and> single_symbol c
      then a\<lparr>isFinal := True, strOffset := Suc (strOffset a)\<rparr>
      else a\<lparr>isError := True\<rparr>)"

section \<open>Thai rules\<close>

definition consonant :: "jschar \<Rightarrow> bool" where
  "consonant c \<longleftrightarrow> 0x0E01 \<le> c \<and> c \<le> 0x0E2E"

definition isMatch :: "jsstr \<Rightarrow> nat \<Rightarrow> jschar \<Rightarrow> bool" where
  "isMatch pat offset c =
     (if length pat \<le> offset then False
      else let c' = pat ! offset
           in c' = c
              \<or> (c' = 0x0E01 \<or> c' = 0x0E02) \<and> consonant c
              \<or> (c' = 0x0E21 \<or> c' = 0x0E1A) \<and> consonant c
              \<or> c' = 0x0E49 \<and> 0x0E48 \<le> c \<and> c \<le> 0x0E4B)"

definition Rule0_pat :: jsstr where
  "Rule0_pat = [0x0E40, 0x0E2B, 0x0E01, 0x0E47, 0x0E21]"

definition Rule0_create :: "tags \<Rightarrow> acceptor option" where
  "Rule0_create tag = Some (new_acceptor ''THAI_RULE'' Rule0Transit)"

definition Rule0_transit :: "acceptor \<Rightarrow> jschar \<Rightarrow> acceptor" where
  "Rule0_transit a c =
     (if isMatch Rule0_pat (strOffset a) c
      then a\<lparr>isFinal := (strOffset a + 1 = length Rule0_pat), strOffset := Suc (strOffset a)\<rparr>
      else a\<lparr>isError := True\<rparr>)"

definition PartRule_patterns :: "jsstr list" where
  "PartRule_patterns =
     [[0x0E41, 0x0E01], [0x0E40, 0x0E01], [0x0E01, 0x0E49], [0x0E01, 0x0E01, 0x0E4C],
      [0x0E01, 0x0E32], [0x0E01, 0x0E35], [0x0E01, 0x0E34], [0x0E01, 0x0E37, 0x0E01]]"

definition PartRule_create :: "tags \<Rightarrow> acceptor option" where
  "PartRule_create tag = Some ((new_acceptor ''PART'' (PartTransit PartRule_patterns))\<lparr>acc_unk := Some 1\<rparr>)"

definition PartRule_transit :: "jsstr list \<Rightarrow> acceptor \<Rightarrow> jschar \<Rightarrow> acceptor" where
  "PartRule_transit patterns a c =
     (let offset = strOffset a;
          pats = filter (\<lambda>pat. isMatch pat offset c) patterns;
          a1 = a\<lparr>transit_fn := PartTransit pats\<rparr>
      in if length pats > 0
         then a1\<lparr>isFinal := list_ex (\<lambda>pat. length pat = 1 + offset) pats,
                 strOffset := Suc (strOffset a)\<rparr>
         else a1\<lparr>isError := True\<rparr>)"

section \<open>Creators and dispatch\<close>

datatype creator =
    WordRule | SpaceRule | SingleSymbolRule | NumberRule | Rule0 | PartRule | DictRule wordcut_dict

definition LatinRules :: "creator list" where
  "LatinRules = [WordRule, SpaceRule, SingleSymbolRule, NumberRule]"

definition ThaiRules :: "creator list" where
  "ThaiRules = [Rule0, PartRule]"

fun createAcceptor :: "creator \<Rightarrow> tags \<Rightarrow> acceptor option" where
  "createAcceptor WordRule tag = WordRule_create tag"
| "createAcceptor SpaceRule tag = SpaceRule_create tag"
| "createAcceptor SingleSymbolRule tag = SingleSymbolRule_create tag"
| "createAcceptor NumberRule tag = NumberRule_create tag"
| "createAcceptor Rule0 tag = Rule0_create tag"
| "createAcceptor PartRule tag = PartRule_create tag"
| "createAcceptor (DictRule d) tag = Some (dict_createAcceptor d)"

definition acceptor_transit :: "acceptor \<Rightarrow> jschar \<Rightarrow> js_error + acceptor" where
  "acceptor_transit a c =
     (case transit_fn a of
        WordTransit \<Rightarrow> Inr (WordRule_transit a c)
      | NumberTransit \<Rightarrow> Inr (NumberRule_transit a c)
      | SpaceTransit \<Rightarrow> Inr (SpaceRule_transit a c)
      | SingleSymbolTransit \<Rightarrow> Inr (SingleSymbolRule_transit a c)
      | Rule0Transit \<Rightarrow> Inr (Rule0_transit a c)
      | PartTransit pats \<Rightarrow> Inr (PartRule_transit pats a c)
      | DictTransit d l r \<Rightarrow> dict_transit d l r a c)"

lemmas rule_defs =
  WordRule_create_def NumberRule_create_def SpaceRule_create_def SingleSymbolRule_create_def
  Rule0_create_def PartRule_create_def new_acceptor_def dict_createAcceptor_def

lemmas transit_defs =
  WordRule_transit_def NumberRule_transit_def SpaceRule_transit_def SingleSymbolRule_transit_def
  Rule0_transit_def PartRule_transit_def

end
