(* ===== verification/Wordcut_Acceptors.thy ===== *)
theory Wordcut_Acceptors
  imports Wordcut_Rules
begin

text \<open>
  The pool of acceptors of the Thai word segmenter (module 1 of \<open>wordcut.js\<close>, lines 1--57)
  and the contract between the pool and the rules. The contract is the locale
  \<open>acceptor_contract\<close>: creating an acceptor gives one that has read nothing, and a step of
  a live acceptor raises nothing and either fails it or makes it one code unit longer. The
  interpretation \<open>acc\<close> shows that the Latin rules, the Thai rules and a finalized dictionary
  keep it.
\<close>

section \<open>Operations\<close>

record acceptors =
  creators :: "creator list"
  current :: "acceptor list"
  tag :: tags

definition acceptors_init :: acceptors where
  "acceptors_init = \<lparr>creators = [], current = [], tag = Map.empty\<rparr>"

definition acceptors_reset :: "acceptors \<Rightarrow> acceptors" where
  "acceptors_reset self = self\<lparr>current := [], tag := Map.empty\<rparr>"

definition created_acceptors :: "creator list \<Rightarrow> tags \<Rightarrow> acceptor list" where
  "created_acceptors ks t = List.map_filter (\<lambda>k. createAcceptor k t) ks"

definition acceptors_transit :: "acceptors \<Rightarrow> jschar \<Rightarrow> js_error + acceptors" where
  "acceptors_transit self c =
     ebind (emap (\<lambda>a. acceptor_transit a c)
              (current self @ created_acceptors (creators self) (tag self)))
       (\<lambda>stepped.
          let live = filter (\<lambda>a. \<not> isError a) stepped
          in Inr (self\<lparr>current := live,
                       tag := fold (\<lambda>a t. t(acc_tag a \<mapsto> a)) live Map.empty\<rparr>))"

definition getFinalAcceptors :: "acceptors \<Rightarrow> acceptor list" where
  "getFinalAcceptors self = filter isFinal (current self)"

section \<open>The contract of rules and acceptors\<close>

locale acceptor_contract =
  fixes create :: "'k \<Rightarrow> 't \<Rightarrow> 'a option"
    and step :: "'a \<Rightarrow> 'c \<Rightarrow> 'e + 'a"
    and offset :: "'a \<Rightarrow> nat"
    and failed :: "'a \<Rightarrow> bool"
    and rule_ok :: "'k \<Rightarrow> bool"
    and ok :: "'a \<Rightarrow> bool"
  assumes create_fresh: "rule_ok k \<Longrightarrow> create k t = Some a \<Longrightarrow> ok a \<and> \<not> failed a \<and> offset a = 0"
    and step_total: "ok a \<Longrightarrow> \<not> failed a \<Longrightarrow>
      \<exists>a'. step a c = Inr a' \<and> (failed a' \<or> ok a' \<and> offset a' = Suc (offset a))"
begin

lemma created_fresh:
  assumes "\<forall>k \<in> set ks. rule_ok k" and "a \<in> set (List.map_filter (\<lambda>k. create k t) ks)"
  shows "ok a \<and> \<not> failed a \<and> offset a = 0"
proof -
  from assms(2) obtain k where "k \<in> set ks" "create k t = Some a"
    by (auto simp: List.map_filter_def split: option.splits)
  then show ?thesis using assms(1) create_fresh by blast
qed

lemma pool_step:
  assumes "\<forall>a \<in> set as. ok a \<and> \<not> failed a \<and> offset a \<le> n"
  shows "\<exists>as'. emap (\<lambda>a. step a c) as = Inr as' \<and>
    (\<forall>a' \<in> set as'. \<not> failed a' \<longrightarrow> ok a' \<and> 0 < offset a' \<and> offset a' \<le> Suc n)"
proof -
  have "\<exists>a'. step a c = Inr a' \<and> (\<not> failed a' \<longrightarrow> ok a' \<and> 0 < offset a' \<and> offset a' \<le> Suc n)"
    if "a \<in> set as" for a
    using step_total [of a c] assms that by fastforce
  then have "\<exists>as'. emap (\<lambda>a. step a c) as = Inr as' \<and>
      list_all2 (\<lambda>a a'. \<not> failed a' \<longrightarrow> ok a' \<and> 0 < offset a' \<and> offset a' \<le> Suc n) as as'"
    by (intro emap_total)
  then show ?thesis
    by (force simp: list_all2_conv_all_nth in_set_conv_nth)
qed

end

section \<open>The rules keep the contract\<close>

fun creator_ok :: "creator \<Rightarrow> bool" where
  "creator_ok (DictRule d) = dict_ok d"
| "creator_ok _ = True"

definition acceptor_ok :: "acceptor \<Rightarrow> bool" where
  "acceptor_ok a =
     (case transit_fn a of
        DictTransit d l r \<Rightarrow> dict_ok d \<and> (\<exists>u. strOffset a = length u \<and> covers (dict d) u l r)
      | _ \<Rightarrow> True)"

lemma createAcceptor_fresh:
  "creator_ok k \<Longrightarrow> createAcceptor k t = Some a \<Longrightarrow>
     acceptor_ok a \<and> \<not> isError a \<and> strOffset a = 0"
  by (cases k) (auto simp: rule_defs acceptor_ok_def covers_start split: if_splits)

lemma acceptor_transit_total:
  assumes ok: "acceptor_ok a" and live: "\<not> isError a"
  shows "\<exists>a'. acceptor_transit a c = Inr a' \<and>
    (isError a' \<or> acceptor_ok a' \<and> strOffset a' = Suc (strOffset a))"
proof (cases "transit_fn a")
  case (DictTransit d l r)
  then obtain u where dok: "dict_ok d" and u: "strOffset a = length u" "covers (dict d) u l r"
    using ok by (auto simp: acceptor_ok_def)
  from dict_transit_follows [OF dok u(2,1) live, of c]
  obtain a' where a': "dict_transit d l r a c = Inr a'"
    and res: "if \<exists>w \<in> set (dict d). prefix (u @ [c]) w then follows d (u @ [c]) a' \<and>
        a' = a\<lparr>strOffset := strOffset a', isFinal := isFinal a', transit_fn := transit_fn a'\<rparr>
      else a' = a\<lparr>isError := True\<rparr>"
    by blast
  have "isError a' \<or> acceptor_ok a' \<and> strOffset a' = Suc (strOffset a)"
  proof (cases "\<exists>w \<in> set (dict d). prefix (u @ [c]) w")
    case True
    then have "follows d (u @ [c]) a'" using res by simp
    then show ?thesis using dok u by (auto simp: follows_def acceptor_ok_def intro!: exI [of _ "u @ [c]"])
  next
    case False
    then have "a' = a\<lparr>isError := True\<rparr>" using res by simp
    then show ?thesis by simp
  qed
  then show ?thesis using DictTransit a' by (simp add: acceptor_transit_def)
qed (auto simp: acceptor_transit_def transit_defs acceptor_ok_def Let_def)

interpretation acc: acceptor_contract createAcceptor acceptor_transit strOffset isError creator_ok acceptor_ok
  by unfold_locales (use createAcceptor_fresh acceptor_transit_total in blast)+

section \<open>The invariant of the pool\<close>

text \<open>After \<open>n\<close> code units: all acceptors are live, and have read between one and \<open>n\<close> of them.\<close>

definition pool_ok :: "nat \<Rightarrow> acceptors \<Rightarrow> bool" where
  "pool_ok n self \<longleftrightarrow>
     (\<forall>k \<in> set (creators self). creator_ok k) \<and>
     (\<forall>a \<in> set (current self). acceptor_ok a \<and> \<not> isError a \<and> 0 < strOffset a \<and> strOffset a \<le> n)"

lemma pool_ok_reset: "\<forall>k \<in> set (creators self). creator_ok k \<Longrightarrow> pool_ok 0 (acceptors_reset self)"
  by (simp add: pool_ok_def acceptors_reset_def)

lemma acceptors_transit_ok:
  assumes "pool_ok n self"
  shows "\<exists>self'. acceptors_transit self c = Inr self' \<and> pool_ok (Suc n) self' \<and>
    creators self' = creators self"
proof -
  let ?as = "current self @ created_acceptors (creators self) (tag self)"
  have "\<forall>a \<in> set ?as. acceptor_ok a \<and> \<not> isError a \<and> strOffset a \<le> n"
    using assms acc.created_fresh [of "creators self" _ "tag self"]
    by (fastforce simp: pool_ok_def created_acceptors_def)
  from acc.pool_step [OF this, of c] obtain as' where
    "emap (\<lambda>a. acceptor_transit a c) ?as = Inr as'"
    and "\<forall>a' \<in> set as'. \<not> isError a' \<longrightarrow> acceptor_ok a' \<and> 0 < strOffset a' \<and> strOffset a' \<le> Suc n"
    by blast
  then show ?thesis using assms
    by (auto simp: acceptors_transit_def pool_ok_def Let_def)
qed

lemma getFinalAcceptors_ok:
  "pool_ok n self \<Longrightarrow> a \<in> set (getFinalAcceptors self) \<Longrightarrow> 0 < strOffset a \<and> strOffset a \<le> n"
  by (auto simp: pool_ok_def getFinalAcceptors_def)

end
