(* ===== verification/Segmentation.thy ===== *)
theory Segmentation
  imports JS_Prelude
begin

text \<open>
  What the two text segmenters of the search index promise to the tokenizers that call
  them: the locale \<open>segmenter\<close>. A segmenter cuts a text into non-empty pieces and loses
  nothing. The Thai segmenter (\<open>Wordcut_Core\<close>) and the Japanese one (\<open>Tiny_Segmenter\<close>) are
  interpretations.
\<close>

text \<open>The start offsets of consecutive pieces.\<close>

fun piece_starts :: "nat \<Rightarrow> 'c list list \<Rightarrow> nat list" where
  "piece_starts i [] = []"
| "piece_starts i (w # ws) = i # piece_starts (i + length w) ws"

lemma length_piece_starts [simp]: "length (piece_starts i ws) = length ws"
  by (induction ws arbitrary: i) auto

lemma piece_at_start:
  "k < length ws \<Longrightarrow> concat ws = drop i s \<Longrightarrow>
   take (length (ws ! k)) (drop (piece_starts i ws ! k) s) = ws ! k"
proof (induction ws arbitrary: i k)
  case Nil
  then show ?case by simp
next
  case (Cons w ws)
  from Cons.prems(2) have w: "drop i s = w @ concat ws" by simp
  then have "drop (i + length w) s = concat ws"
    by (metis add.commute append_eq_conv_conj drop_drop)
  then show ?case using Cons w by (cases k) auto
qed

lemma count_nonempty_pieces: "[] \<notin> set ws \<Longrightarrow> length ws \<le> length (concat ws)"
proof (induction ws)
  case (Cons w ws)
  then show ?case by (cases w) auto
qed simp

locale segmenter =
  fixes pieces :: "'c list \<Rightarrow> 'c list list"
  assumes lossless: "concat (pieces s) = s"
    and no_empty_piece: "[] \<notin> set (pieces s)"
begin

lemma pieces_empty_iff: "pieces s = [] \<longleftrightarrow> s = []"
  using lossless [of s] no_empty_piece [of s] by (cases "pieces s") auto

lemma pieces_at_starts:
  "k < length (pieces s) \<Longrightarrow>
   take (length (pieces s ! k)) (drop (piece_starts 0 (pieces s) ! k) s) = pieces s ! k"
  by (rule piece_at_start) (simp_all add: lossless)

lemma count_le_length: "length (pieces s) \<le> length s"
  using count_nonempty_pieces [OF no_empty_piece, of s] by (simp add: lossless)

lemma piece_chars: "w \<in> set (pieces s) \<Longrightarrow> set w \<subseteq> set s"
  using lossless [of s] by (metis Union_upper image_eqI set_concat)

text \<open>A separator that does not occur in the text can be put between the pieces and taken out again.\<close>

lemma split_join_pieces:
  assumes "c \<notin> set s" and "s \<noteq> []"
  shows "js_split (js_join [c] (pieces s)) [c] = pieces s"
  using assms piece_chars [of _ s] by (intro js_split_join) (auto simp: pieces_empty_iff)

end

end
