(* ===== verification/Wordcut_Core.thy ===== *)
theory Wordcut_Core
  imports Wordcut_Acceptors Segmentation
begin

text \<open>
  The Thai word segmenter proper: the path builder (module 4 of \<open>wordcut.js\<close>, lines
  306--384), the path selector (module 5, lines 385--419), the set-up (module 7, lines
  488--531) and the core (module 8, lines 532--618).

  A path is an array with one entry per prefix of the text: entry \<open>k\<close> says where the last
  word of the best segmentation of the first \<open>k\<close> code units begins (\<open>info_p\<close>) and what it
  costs. \<open>buildPath\<close> fills the array from left to right, \<open>pathToRanges\<close> walks it back.
\<close>

section \<open>Paths\<close>

text \<open>
  \<open>info_p\<close> is \<open>None\<close> for the \<open>null\<close> of the first entry, \<open>info_merge\<close> is \<open>None\<close> while the
  property is undefined.
\<close>

record path_info =
  info_p :: "int option"
  info_mw :: int
  info_w :: int
  info_unk :: int
  info_type :: string
  info_merge :: "int option"

type_synonym path = "path_info list"

definition createPath :: path where
  "createPath = [\<lparr>info_p = None, info_mw = 0, info_w = 0, info_unk = 0, info_type = ''INIT'', info_merge = None\<rparr>]"

definition better :: "path_info \<Rightarrow> path_info \<Rightarrow> bool" where
  "better path selectedPath \<longleftrightarrow>
     info_unk path < info_unk selectedPath \<or>
     info_unk path = info_unk selectedPath \<and>
       (info_mw path < info_mw selectedPath \<or>
        info_mw path = info_mw selectedPath \<and> info_w path < info_w selectedPath)"

definition select_step :: "path_info option \<Rightarrow> path_info \<Rightarrow> path_info option" where
  "select_step selectedPath path =
     (case selectedPath of
        None \<Rightarrow> Some path
      | Some s \<Rightarrow> if better path s then Some path else Some s)"

definition selectPath :: "path_info list \<Rightarrow> path_info option" where
  "selectPath paths = foldl select_step None paths"

text \<open>\<open>for (j = p + 1; j <= i; j++) path[j].merge = p\<close>\<close>

fun merge_loop :: "path \<Rightarrow> int list \<Rightarrow> int \<Rightarrow> js_error + path" where
  "merge_loop path [] p = Inr path"
| "merge_loop path (j # js) p =
     ebind (arr_get path j) (\<lambda>info. merge_loop (path[nat j := info\<lparr>info_merge := Some p\<rparr>]) js p)"

definition build_info :: "path \<Rightarrow> acceptor \<Rightarrow> int \<Rightarrow> js_error + path \<times> path_info" where
  "build_info path a i =
     (let p = i - int (strOffset a) + 1
      in ebind (arr_get path p) (\<lambda>prev.
           let info = \<lparr>info_p = Some p,
                       info_mw = info_mw prev + (case acc_mw a of None \<Rightarrow> 0 | Some m \<Rightarrow> m),
                       info_w = acc_w a + info_w prev,
                       info_unk = (case acc_unk a of None \<Rightarrow> 0 | Some u \<Rightarrow> u) + info_unk prev,
                       info_type = acc_type a,
                       info_merge = None\<rparr>
           in if acc_type a = ''PART''
              then ebind (merge_loop path [p + 1..i] p) (\<lambda>path'. Inr (path', info\<lparr>info_merge := Some p\<rparr>))
              else Inr (path, info)))"

fun buildByAcceptors :: "path \<Rightarrow> acceptor list \<Rightarrow> int \<Rightarrow> js_error + path \<times> path_info list" where
  "buildByAcceptors path [] i = Inr (path, [])"
| "buildByAcceptors path (a # as) i =
     ebind (build_info path a i) (\<lambda>(path1, info).
       ebind (buildByAcceptors path1 as i) (\<lambda>(path2, infos). Inr (path2, info # infos)))"

definition fallback :: "path \<Rightarrow> int \<Rightarrow> jsstr \<Rightarrow> int \<Rightarrow> js_error + path_info" where
  "fallback path leftBoundary text i =
     ebind (arr_get path leftBoundary) (\<lambda>info.
     ebind (arr_get text i) (\<lambda>c.
       if 0x0E48 \<le> c \<and> c \<le> 0x0E4E
       then Inr \<lparr>info_p = (if leftBoundary \<noteq> 0 then info_p info else Some leftBoundary),
                 info_mw = 0, info_w = 1 + info_w info, info_unk = 1 + info_unk info,
                 info_type = ''UNK'', info_merge = None\<rparr>
       else Inr \<lparr>info_p = Some leftBoundary,
                 info_mw = info_mw info, info_w = 1 + info_w info, info_unk = 1 + info_unk info,
                 info_type = ''UNK'', info_merge = None\<rparr>))"

definition build_path_infos ::
  "path \<Rightarrow> acceptor list \<Rightarrow> int \<Rightarrow> int \<Rightarrow> jsstr \<Rightarrow> js_error + path \<times> path_info list" where
  "build_path_infos path finals i leftBoundary text =
     ebind (buildByAcceptors path finals i) (\<lambda>(path1, infos).
       if length infos > 0 then Inr (path1, infos)
       else ebind (fallback path1 leftBoundary text i) (\<lambda>info. Inr (path1, [info])))"

section \<open>The segmenter\<close>

record wordcut =
  acceptors :: acceptors

definition initNoDict :: wordcut where
  "initNoDict = \<lparr>acceptors = acceptors_init\<lparr>creators := LatinRules @ ThaiRules\<rparr>\<rparr>"

definition init :: "jsstr \<Rightarrow> dict_path \<Rightarrow> bool option \<Rightarrow> jsstr list option \<Rightarrow> wordcut" where
  "init builtin dict_path withDefault additionalWords =
     (let d = dict_init builtin dict_path (Some (withDefault = Some True)) additionalWords;
          acs = acceptors initNoDict
      in initNoDict\<lparr>acceptors := acs\<lparr>creators := creators acs @ [DictRule d]\<rparr>\<rparr>)"

text \<open>One iteration of the loop of \<open>buildPath\<close>, then the loop from index \<open>i\<close>.\<close>

definition buildPath_step ::
  "jsstr \<Rightarrow> nat \<Rightarrow> acceptors \<times> path \<times> int \<Rightarrow> js_error + acceptors \<times> path \<times> int" where
  "buildPath_step text i s =
     (let (acs, path, leftBoundary) = s
      in ebind (acceptors_transit acs (text ! i)) (\<lambda>acs1.
         ebind (build_path_infos path (getFinalAcceptors acs1) (int i) leftBoundary text) (\<lambda>(path1, infos).
           case selectPath infos of
             None \<Rightarrow> Inl (TypeError ''cannot read properties of null'')
           | Some selected \<Rightarrow>
               Inr (acs1, path1 @ [selected],
                    if info_type selected \<noteq> ''UNK'' then int i else leftBoundary))))"

fun buildPath_loop ::
  "jsstr \<Rightarrow> nat list \<Rightarrow> acceptors \<times> path \<times> int \<Rightarrow> js_error + acceptors \<times> path \<times> int" where
  "buildPath_loop text [] s = Inr s"
| "buildPath_loop text (i # is) s = ebind (buildPath_step text i s) (buildPath_loop text is)"

definition buildPath :: "wordcut \<Rightarrow> jsstr \<Rightarrow> js_error + wordcut \<times> path" where
  "buildPath self text =
     ebind (buildPath_loop text [0..<length text] (acceptors_reset (acceptors self), createPath, 0))
       (\<lambda>(acs, path, leftBoundary). Inr (self\<lparr>acceptors := acs\<rparr>, path))"

text \<open>A range of the text; \<open>s\<close> is \<open>null\<close> only if the path says so. \<open>null\<close> counts as 0.\<close>

record word_range =
  range_s :: "int option"
  range_e :: int

definition null_to_0 :: "int option \<Rightarrow> int" where
  "null_to_0 x = (case x of None \<Rightarrow> 0 | Some i \<Rightarrow> i)"

text \<open>
  The loop of \<open>pathToRanges\<close>, with the ranges found so far from the last pushed to the
  first. Nothing in the loop itself makes it end: an entry that points at itself or forward
  would keep it running, which is the value \<open>None\<close>.
\<close>

partial_function (option) pathToRanges_loop ::
  "path \<Rightarrow> int \<Rightarrow> word_range list \<Rightarrow> (js_error + word_range list) option" where
  "pathToRanges_loop path e ranges =
     (if e > 0 then
        case arr_get path e of
          Inl err \<Rightarrow> Some (Inl err)
        | Inr info \<Rightarrow>
            (case (info_merge info, ranges) of
               (Some m, r # rs) \<Rightarrow> pathToRanges_loop path m (r\<lparr>range_s := Some m\<rparr> # rs)
             | _ \<Rightarrow>
                 pathToRanges_loop path (null_to_0 (info_p info))
                   (\<lparr>range_s = info_p info, range_e = e\<rparr> # ranges))
      else Some (Inr ranges))"

declare pathToRanges_loop.simps [code]

text \<open>
  The source pushes at the end and reverses the array when it is done; consing at the front
  gives the reversed array directly.
\<close>

definition pathToRanges :: "path \<Rightarrow> (js_error + word_range list) option" where
  "pathToRanges path = pathToRanges_loop path (int (length path) - 1) []"

definition range_text :: "jsstr \<Rightarrow> word_range \<Rightarrow> jsstr" where
  "range_text text r = js_substring text (null_to_0 (range_s r)) (range_e r)"

definition rangesToText :: "jsstr \<Rightarrow> word_range list \<Rightarrow> jsstr \<Rightarrow> jsstr" where
  "rangesToText text ranges delimiter = js_join delimiter (map (range_text text) ranges)"

definition path_ranges :: "wordcut \<Rightarrow> jsstr \<Rightarrow> (js_error + word_range list) option" where
  "path_ranges self text =
     (case buildPath self text of
        Inl err \<Rightarrow> Some (Inl err)
      | Inr (self', path) \<Rightarrow> pathToRanges path)"

definition cut :: "wordcut \<Rightarrow> jsstr \<Rightarrow> jsstr option \<Rightarrow> (js_error + jsstr) option" where
  "cut self text delimiter =
     map_option (map_sum id (\<lambda>ranges.
       rangesToText text ranges (case delimiter of None \<Rightarrow> lit ''|'' | Some d \<Rightarrow> d)))
       (path_ranges self text)"

definition cutIntoRanges ::
  "wordcut \<Rightarrow> jsstr \<Rightarrow> bool \<Rightarrow> (js_error + (word_range \<times> jsstr option) list) option" where
  "cutIntoRanges self text noText =
     map_option (map_sum id (map (\<lambda>r. (r, if \<not> noText then Some (range_text text r) else None))))
       (path_ranges self text)"

definition cutIntoArray :: "wordcut \<Rightarrow> jsstr \<Rightarrow> (js_error + jsstr list) option" where
  "cutIntoArray self text = map_option (map_sum id (map (range_text text))) (path_ranges self text)"

section \<open>Well-formed paths\<close>

text \<open>Every entry but the first points strictly backwards, and so does its merge mark.\<close>

definition entry_ok :: "nat \<Rightarrow> path_info \<Rightarrow> bool" where
  "entry_ok k info \<longleftrightarrow>
     (\<exists>s. info_p info = Some s \<and> 0 \<le> s \<and> s < int k) \<and>
     (\<forall>m. info_merge info = Some m \<longrightarrow> 0 \<le> m \<and> m < int k)"

definition path_ok :: "path \<Rightarrow> bool" where
  "path_ok path \<longleftrightarrow> path \<noteq> [] \<and> (\<forall>k. 0 < k \<longrightarrow> k < length path \<longrightarrow> entry_ok k (path ! k))"

lemma path_ok_create: "path_ok createPath"
  by (simp add: path_ok_def createPath_def)

lemma length_createPath: "length createPath = 1"
  by (simp add: createPath_def)

lemma path_ok_snoc: "path_ok path \<Longrightarrow> entry_ok (length path) info \<Longrightarrow> path_ok (path @ [info])"
  by (auto simp: path_ok_def nth_append less_Suc_eq)

lemma merge_loop_ok:
  assumes "path_ok path" "0 \<le> p" "\<forall>j \<in> set js. p < j \<and> j < int (length path)"
  shows "\<exists>path'. merge_loop path js p = Inr path' \<and> path_ok path' \<and> length path' = length path"
  using assms
proof (induction js arbitrary: path)
  case Nil
  then show ?case by simp
next
  case (Cons j js)
  have j: "0 \<le> j" "j < int (length path)" "p < j" using Cons.prems by auto
  let ?path' = "path[nat j := (path ! nat j)\<lparr>info_merge := Some p\<rparr>]"
  have "path_ok ?path'"
    using Cons.prems(1,2) j by (auto simp: path_ok_def nth_list_update entry_ok_def)
  from Cons.IH [OF this] Cons.prems j show ?case by auto
qed

lemma build_info_ok:
  assumes path: "path_ok path" "length path = Suc i"
    and a: "0 < strOffset a" "strOffset a \<le> Suc i"
  shows "\<exists>path' info. build_info path a (int i) = Inr (path', info) \<and> path_ok path' \<and>
    length path' = Suc i \<and> entry_ok (Suc i) info"
proof -
  define p where "p = int i - int (strOffset a) + 1"
  have p: "0 \<le> p" "p < int (length path)" "p \<le> int i" using path a by (auto simp: p_def)
  have "\<exists>path'. merge_loop path [p + 1..int i] p = Inr path' \<and> path_ok path' \<and> length path' = length path"
    by (rule merge_loop_ok) (use path p in auto)
  with p path show ?thesis
    by (auto simp: build_info_def p_def [symmetric] Let_def entry_ok_def)
qed

lemma buildByAcceptors_ok:
  assumes "path_ok path" "length path = Suc i"
    and "\<forall>a \<in> set as. 0 < strOffset a \<and> strOffset a \<le> Suc i"
  shows "\<exists>path' infos. buildByAcceptors path as (int i) = Inr (path', infos) \<and> path_ok path' \<and>
    length path' = Suc i \<and> length infos = length as \<and> (\<forall>info \<in> set infos. entry_ok (Suc i) info)"
  using assms
proof (induction as arbitrary: path)
  case Nil
  then show ?case by simp
next
  case (Cons a as)
  obtain path1 info where 1: "build_info path a (int i) = Inr (path1, info)" "path_ok path1"
    "length path1 = Suc i" "entry_ok (Suc i) info"
    using build_info_ok [of path i a] Cons.prems by auto
  from Cons.IH [OF this(2,3)] Cons.prems(3) obtain path2 infos where
    "buildByAcceptors path1 as (int i) = Inr (path2, infos)" "path_ok path2"
    "length path2 = Suc i" "length infos = length as" "\<forall>info \<in> set infos. entry_ok (Suc i) info"
    by auto
  with 1 show ?case by auto
qed

lemma fallback_ok:
  assumes path: "path_ok path" "length path = Suc i" and lb: "0 \<le> lb" "lb \<le> int i"
    and inside: "i < length text"
  shows "\<exists>info. fallback path lb text (int i) = Inr info \<and> entry_ok (Suc i) info"
proof -
  have "\<exists>s. info_p (path ! nat lb) = Some s \<and> 0 \<le> s \<and> s < lb" if "lb \<noteq> 0"
  proof -
    have "entry_ok (nat lb) (path ! nat lb)"
      using path lb that by (auto simp: path_ok_def)
    then show ?thesis using lb by (auto simp: entry_ok_def)
  qed
  then show ?thesis using path lb inside
    by (auto simp: fallback_def entry_ok_def)
qed

lemma build_path_infos_ok:
  assumes path: "path_ok path" "length path = Suc i"
    and as: "\<forall>a \<in> set as. 0 < strOffset a \<and> strOffset a \<le> Suc i"
    and lb: "0 \<le> lb" "lb \<le> int i" and inside: "i < length text"
  shows "\<exists>path' infos. build_path_infos path as (int i) lb text = Inr (path', infos) \<and>
    path_ok path' \<and> length path' = Suc i \<and> infos \<noteq> [] \<and> (\<forall>info \<in> set infos. entry_ok (Suc i) info)"
proof -
  obtain path' infos where 1: "buildByAcceptors path as (int i) = Inr (path', infos)" "path_ok path'"
    "length path' = Suc i" "\<forall>info \<in> set infos. entry_ok (Suc i) info"
    using buildByAcceptors_ok [OF path as] by auto
  obtain info where "fallback path' lb text (int i) = Inr info" "entry_ok (Suc i) info"
    using fallback_ok [OF 1(2,3) lb inside] by auto
  with 1 show ?thesis by (auto simp: build_path_infos_def)
qed

section \<open>Selecting a path\<close>

lemma select_step_fold:
  "\<exists>y. foldl select_step (Some x) ps = Some y \<and> y \<in> set (x # ps) \<and>
     (\<forall>z \<in> set (x # ps). \<not> better z y)"
proof (induction ps arbitrary: x)
  case Nil
  then show ?case by (auto simp: better_def)
next
  case (Cons q ps)
  define b where "b = (if better q x then q else x)"
  have step: "select_step (Some x) q = Some b" by (simp add: select_step_def b_def)
  from Cons.IH [of b] obtain y where y: "foldl select_step (Some b) ps = Some y"
    "y \<in> set (b # ps)" "\<forall>z \<in> set (b # ps). \<not> better z y" by blast
  have "\<not> better x y" "\<not> better q y"
    using y(3) by (auto simp: better_def b_def split: if_splits)
  with y step show ?case by (auto simp: b_def split: if_splits)
qed

lemma selectPath_minimal:
  "ps \<noteq> [] \<Longrightarrow> \<exists>y. selectPath ps = Some y \<and> y \<in> set ps \<and> (\<forall>z \<in> set ps. \<not> better z y)"
  using select_step_fold [of "hd ps" "tl ps"]
  by (cases ps) (auto simp: selectPath_def select_step_def)

section \<open>Building the path\<close>

definition build_inv :: "nat \<Rightarrow> acceptors \<times> path \<times> int \<Rightarrow> bool" where
  "build_inv i s \<longleftrightarrow>
     (let (acs, path, lb) = s
      in pool_ok i acs \<and> path_ok path \<and> length path = Suc i \<and> 0 \<le> lb \<and> lb \<le> int i)"

lemma buildPath_step_ok:
  assumes "build_inv i s" and inside: "i < length text"
  shows "\<exists>s'. buildPath_step text i s = Inr s' \<and> build_inv (Suc i) s'"
proof -
  obtain acs path lb where s: "s = (acs, path, lb)" by (cases s)
  have inv: "pool_ok i acs" "path_ok path" "length path = Suc i" "0 \<le> lb" "lb \<le> int i"
    using assms(1) by (auto simp: build_inv_def s)
  obtain acs1 where acs1: "acceptors_transit acs (text ! i) = Inr acs1" "pool_ok (Suc i) acs1"
    using acceptors_transit_ok [OF inv(1)] by blast
  then have "\<forall>a \<in> set (getFinalAcceptors acs1). 0 < strOffset a \<and> strOffset a \<le> Suc i"
    by (auto dest: getFinalAcceptors_ok)
  from build_path_infos_ok [OF inv(2,3) this inv(4,5) inside] obtain path1 infos where
    b: "build_path_infos path (getFinalAcceptors acs1) (int i) lb text = Inr (path1, infos)"
    "path_ok path1" "length path1 = Suc i" "infos \<noteq> []" "\<forall>info \<in> set infos. entry_ok (Suc i) info"
    by blast
  obtain y where y: "selectPath infos = Some y" "entry_ok (Suc i) y"
    using selectPath_minimal [OF b(4)] b(5) by blast
  have "path_ok (path1 @ [y])" using path_ok_snoc [OF b(2)] b(3) y(2) by simp
  then show ?thesis using acs1 b y inv
    by (auto simp: buildPath_step_def s build_inv_def)
qed

lemma buildPath_loop_ok:
  "build_inv i s \<Longrightarrow> i \<le> length text \<Longrightarrow>
   \<exists>s'. buildPath_loop text [i..<length text] s = Inr s' \<and> build_inv (length text) s'"
proof (induction "length text - i" arbitrary: i s)
  case 0
  then show ?case by simp
next
  case (Suc n)
  then have i: "i < length text" by simp
  obtain s' where "buildPath_step text i s = Inr s'" "build_inv (Suc i) s'"
    using buildPath_step_ok [OF Suc.prems(1) i] by blast
  with Suc.hyps(1) [of "Suc i" s'] Suc.hyps(2) i show ?case
    by (auto simp: upt_conv_Cons)
qed

definition segmenter_ok :: "wordcut \<Rightarrow> bool" where
  "segmenter_ok self \<longleftrightarrow> (\<forall>k \<in> set (creators (acceptors self)). creator_ok k)"

lemma initNoDict_ok: "segmenter_ok initNoDict"
  by (simp add: segmenter_ok_def initNoDict_def LatinRules_def ThaiRules_def)

lemma init_ok: "segmenter_ok (init builtin dpath withDefault additionalWords)"
  by (simp add: segmenter_ok_def init_def initNoDict_def LatinRules_def ThaiRules_def
      dict_init_ok Let_def)

lemma buildPath_ok:
  assumes "segmenter_ok self"
  shows "\<exists>self' path. buildPath self text = Inr (self', path) \<and> path_ok path \<and>
    length path = Suc (length text)"
proof -
  have "build_inv 0 (acceptors_reset (acceptors self), createPath, 0)"
    using assms
    by (simp add: build_inv_def pool_ok_reset path_ok_create segmenter_ok_def length_createPath)
  from buildPath_loop_ok [OF this, of "text"] show ?thesis
    by (auto simp: buildPath_def build_inv_def)
qed

section \<open>Reading the path\<close>

fun contiguous :: "int \<Rightarrow> int \<Rightarrow> word_range list \<Rightarrow> bool" where
  "contiguous a b [] \<longleftrightarrow> a = b"
| "contiguous a b (r # rs) \<longleftrightarrow> range_s r = Some a \<and> a < range_e r \<and> contiguous (range_e r) b rs"

lemma pathToRanges_loop_ok:
  assumes path: "path_ok path"
  shows "0 \<le> e \<Longrightarrow> e < int (length path) \<Longrightarrow> contiguous e n ranges \<Longrightarrow>
    \<exists>rs. pathToRanges_loop path e ranges = Some (Inr rs) \<and> contiguous 0 n rs"
proof (induction "nat e" arbitrary: e ranges rule: less_induct)
  case less
  show ?case
  proof (cases "e > 0")
    case False
    then show ?thesis using less.prems by (auto simp: pathToRanges_loop.simps)
  next
    case True
    let ?info = "path ! nat e"
    have "entry_ok (nat e) ?info" using path True less.prems by (auto simp: path_ok_def)
    then obtain s where s: "info_p ?info = Some s" "0 \<le> s" "s < e"
      and m: "\<And>m. info_merge ?info = Some m \<Longrightarrow> 0 \<le> m \<and> m < e"
      using True by (auto simp: entry_ok_def)
    have get: "arr_get path e = Inr ?info" using less.prems by simp
    have push: "\<exists>rs. pathToRanges_loop path s (\<lparr>range_s = Some s, range_e = e\<rparr> # ranges) = Some (Inr rs)
        \<and> contiguous 0 n rs"
      by (rule less.hyps) (use s less.prems in auto)
    show ?thesis
    proof (cases "info_merge ?info")
      case None
      then show ?thesis using push True get s
        by (subst pathToRanges_loop.simps) (simp add: null_to_0_def)
    next
      case (Some m)
      show ?thesis
      proof (cases ranges)
        case Nil
        then show ?thesis using push True get s Some
          by (subst pathToRanges_loop.simps) (simp add: null_to_0_def)
      next
        case (Cons r rs)
        have "\<exists>rs'. pathToRanges_loop path m (r\<lparr>range_s := Some m\<rparr> # rs) = Some (Inr rs') \<and> contiguous 0 n rs'"
          by (rule less.hyps) (use m [OF Some] less.prems Cons in auto)
        then show ?thesis using True get Some Cons
          by (subst pathToRanges_loop.simps) simp
      qed
    qed
  qed
qed

lemma path_ranges_ok:
  assumes "segmenter_ok self"
  shows "\<exists>rs. path_ranges self text = Some (Inr rs) \<and> contiguous 0 (int (length text)) rs"
proof -
  obtain self' path where "buildPath self text = Inr (self', path)" and path: "path_ok path"
    and len: "length path = Suc (length text)"
    using buildPath_ok [OF assms] by blast
  moreover have "\<exists>rs. pathToRanges_loop path (int (length text)) [] = Some (Inr rs) \<and>
      contiguous 0 (int (length text)) rs"
    by (rule pathToRanges_loop_ok [OF path]) (use len in auto)
  ultimately show ?thesis by (simp add: path_ranges_def pathToRanges_def)
qed

lemma contiguous_le: "contiguous a b rs \<Longrightarrow> a \<le> b"
  by (induction rs arbitrary: a) fastforce+

lemma contiguous_text:
  "contiguous (int a) (int (length text)) rs \<Longrightarrow> concat (map (range_text text) rs) = drop a text"
proof (induction rs arbitrary: a)
  case Nil
  then show ?case by simp
next
  case (Cons r rs)
  obtain e where e: "range_e r = int e" using Cons.prems by (cases "range_e r") auto
  have "a < e" "e \<le> length text"
    using Cons.prems contiguous_le [of "range_e r" "int (length text)" rs] by (auto simp: e)
  then have "range_text text r = take (e - a) (drop a text)"
    using Cons.prems by (simp add: range_text_def null_to_0_def e js_substring_between del: js_substring_nat)
  moreover have "concat (map (range_text text) rs) = drop e text"
    using Cons by (simp add: e)
  ultimately show ?case using \<open>a < e\<close>
    by simp (metis add.commute append_take_drop_id drop_drop le_add_diff_inverse less_imp_le)
qed

lemma contiguous_nonempty:
  "contiguous (int a) (int (length text)) rs \<Longrightarrow> [] \<notin> set (map (range_text text) rs)"
proof (induction rs arbitrary: a)
  case Nil
  then show ?case by simp
next
  case (Cons r rs)
  obtain e where e: "range_e r = int e" using Cons.prems by (cases "range_e r") auto
  have ae: "a < e" "e \<le> length text"
    using Cons.prems contiguous_le [of "range_e r" "int (length text)" rs] by (auto simp: e)
  then have "length (range_text text r) = e - a"
    using Cons.prems
    by (simp add: range_text_def null_to_0_def e length_js_substring_between del: js_substring_nat)
  then have "range_text text r \<noteq> []" using ae by auto
  moreover have "[] \<notin> set (map (range_text text) rs)"
    using Cons.IH [of e] Cons.prems by (simp add: e)
  ultimately show ?case by simp
qed

section \<open>The segmenter loses nothing\<close>

definition thai_pieces ::
  "jsstr \<Rightarrow> dict_path \<Rightarrow> bool option \<Rightarrow> jsstr list option \<Rightarrow> jsstr \<Rightarrow> jsstr list" where
  "thai_pieces builtin dpath withDefault additionalWords text =
     (case cutIntoArray (init builtin dpath withDefault additionalWords) text of
        Some (Inr ws) \<Rightarrow> ws | _ \<Rightarrow> [])"

lemma cutIntoArray_ok:
  assumes "segmenter_ok self"
  shows "\<exists>ws. cutIntoArray self text = Some (Inr ws) \<and> concat ws = text \<and> [] \<notin> set ws"
proof -
  obtain rs where "path_ranges self text = Some (Inr rs)" "contiguous 0 (int (length text)) rs"
    using path_ranges_ok [OF assms] by blast
  then show ?thesis
    using contiguous_text [of 0 "text" rs] contiguous_nonempty [of 0 "text" rs]
    by (simp add: cutIntoArray_def)
qed

lemma cutIntoArray_thai_pieces:
  "cutIntoArray (init builtin dpath withDefault additionalWords) text =
     Some (Inr (thai_pieces builtin dpath withDefault additionalWords text))"
  using cutIntoArray_ok [OF init_ok, of builtin dpath withDefault additionalWords "text"]
  by (auto simp: thai_pieces_def)

interpretation thai: segmenter "thai_pieces builtin dpath withDefault additionalWords"
  for builtin dpath withDefault additionalWords
  using cutIntoArray_ok [OF init_ok, of builtin dpath withDefault additionalWords]
  by unfold_locales (fastforce simp: cutIntoArray_thai_pieces)+

lemma cut_joins: "cut self text delimiter =
  map_option (map_sum id (js_join (case delimiter of None \<Rightarrow> lit ''|'' | Some d \<Rightarrow> d)))
    (cutIntoArray self text)"
  by (simp add: cut_def cutIntoArray_def rangesToText_def option.map_comp sum.map_comp comp_def id_def)

section \<open>A Latin word stays whole\<close>

definition latin_letter :: "jschar \<Rightarrow> bool" where
  "latin_letter c \<longleftrightarrow> lit ''a'' \<le> toLowerCase c \<and> toLowerCase c \<le> lit ''z''"

lemma latin_letter_not_thai: "latin_letter c \<Longrightarrow> unat c < 0x0E01 \<or> 0x0E4E < unat c"
  by (auto simp: latin_letter_def toLowerCase_def word_le_nat_alt word_less_nat_alt split: if_splits)

text \<open>No pattern of the part rule begins with a Latin letter.\<close>

lemma PartRule_latin:
  "latin_letter c \<Longrightarrow> filter (\<lambda>pat. isMatch pat 0 c) PartRule_patterns = []"
  using latin_letter_not_thai [of c]
  by (auto simp: PartRule_patterns_def isMatch_def consonant_def word_le_nat_alt)

text \<open>What a step never changes.\<close>

lemma acceptor_transit_frame:
  "acceptor_transit a c = Inr a' \<Longrightarrow>
     acc_tag a' = acc_tag a \<and> acc_type a' = acc_type a \<and> acc_w a' = acc_w a \<and>
     acc_unk a' = acc_unk a \<and> acc_mw a' = acc_mw a"
  by (auto simp: acceptor_transit_def transit_defs dict_transit_def Let_def ebind_Inr_iff
      split: transit_method.splits if_splits option.splits)

text \<open>The plain acceptors: those that cost one word and nothing else.\<close>

definition plain :: "acceptor \<Rightarrow> bool" where
  "plain a \<longleftrightarrow> acc_type a \<noteq> ''PART'' \<and> acc_w a = 1 \<and> acc_unk a = None \<and> acc_mw a = None"

definition word_acceptor :: "nat \<Rightarrow> acceptor" where
  "word_acceptor n =
     (new_acceptor ''WORD_RULE'' WordTransit)\<lparr>isFinal := True, strOffset := n\<rparr>"

lemma createAcceptor_plain:
  assumes "createAcceptor k t = Some a" "latin_letter c" "acceptor_transit a c = Inr a'" "\<not> isError a'"
  shows "plain a'"
proof (cases "k = PartRule")
  case True
  then have "isError a'"
    using assms PartRule_latin [OF assms(2)]
    by (auto simp: PartRule_create_def new_acceptor_def acceptor_transit_def PartRule_transit_def)
  with assms(4) show ?thesis by simp
next
  case False
  then have "plain a"
    using assms(1) by (cases k) (auto simp: rule_defs plain_def split: if_splits)
  then show ?thesis using acceptor_transit_frame [OF assms(3)] by (simp add: plain_def)
qed

lemma word_acceptor_step:
  "latin_letter c \<Longrightarrow> acceptor_transit (word_acceptor n) c = Inr (word_acceptor (Suc n))"
  "latin_letter c \<Longrightarrow>
     acceptor_transit (new_acceptor ''WORD_RULE'' WordTransit) c = Inr (word_acceptor 1)"
  by (auto simp: latin_letter_def acceptor_transit_def WordRule_transit_def word_acceptor_def
      new_acceptor_def Let_def)

text \<open>The pool while a Latin word is read: its word acceptor comes first.\<close>

definition latin_pool :: "nat \<Rightarrow> acceptors \<Rightarrow> bool" where
  "latin_pool n acs \<longleftrightarrow>
     (\<exists>ks. creators acs = WordRule # ks) \<and>
     (if n = 0 then current acs = [] \<and> tag acs = Map.empty
      else (\<exists>rest. current acs = word_acceptor n # rest \<and> list_all plain rest) \<and>
           tag acs ''WORD_RULE'' \<noteq> None)"

lemma fold_tags_keep: "t s \<noteq> None \<Longrightarrow> fold (\<lambda>a t. t(acc_tag a \<mapsto> a)) as t s \<noteq> None"
  by (induction as arbitrary: t) auto

lemma latin_pool_step:
  assumes pool: "latin_pool n acs" and c: "latin_letter c"
    and step: "acceptors_transit acs c = Inr acs'"
  shows "latin_pool (Suc n) acs'"
proof -
  obtain ks where ks: "creators acs = WordRule # ks" using pool by (auto simp: latin_pool_def)
  let ?as = "current acs @ created_acceptors (creators acs) (tag acs)"
  obtain x rest where as: "?as = x # rest"
    and x: "acceptor_transit x c = Inr (word_acceptor (Suc n))"
    and rest: "\<And>a a'. a \<in> set rest \<Longrightarrow> acceptor_transit a c = Inr a' \<Longrightarrow> \<not> isError a' \<Longrightarrow> plain a'"
  proof (cases "n = 0")
    case True
    then have "?as = new_acceptor ''WORD_RULE'' WordTransit # created_acceptors ks Map.empty"
      using pool ks by (simp add: latin_pool_def created_acceptors_def WordRule_create_def
          List.map_filter_simps)
    then show ?thesis
      using that word_acceptor_step(2) [OF c] createAcceptor_plain c True
      by (fastforce simp: created_acceptors_def List.map_filter_def)
  next
    case False
    then obtain r where r: "current acs = word_acceptor n # r" "list_all plain r"
      using pool by (auto simp: latin_pool_def)
    have "plain a'" if "a \<in> set (r @ created_acceptors (creators acs) (tag acs))"
      "acceptor_transit a c = Inr a'" "\<not> isError a'" for a a'
    proof (cases "a \<in> set r")
      case True
      then show ?thesis
        using acceptor_transit_frame [OF that(2)] r(2) by (auto simp: list_all_iff plain_def)
    next
      case False
      then show ?thesis
        using that createAcceptor_plain [OF _ c that(2,3)]
        by (auto simp: created_acceptors_def List.map_filter_def)
    qed
    then show ?thesis using that r word_acceptor_step(1) [OF c] by simp
  qed
  obtain stepped where "emap (\<lambda>a. acceptor_transit a c) ?as = Inr stepped"
    and acs': "acs' = acs\<lparr>current := filter (\<lambda>a. \<not> isError a) stepped,
      tag := fold (\<lambda>a t. t(acc_tag a \<mapsto> a)) (filter (\<lambda>a. \<not> isError a) stepped) Map.empty\<rparr>"
    using step by (auto simp: acceptors_transit_def ebind_Inr_iff Let_def)
  then obtain ys where ys: "stepped = word_acceptor (Suc n) # ys"
    "list_all2 (\<lambda>a a'. acceptor_transit a c = Inr a') rest ys"
    using as x by (auto simp: emap_iff ebind_Inr_iff)
  then have "\<forall>a' \<in> set ys. \<not> isError a' \<longrightarrow> plain a'"
    using rest by (blast dest: list_all2_pick)
  moreover have "\<not> isError (word_acceptor (Suc n))" "acc_tag (word_acceptor (Suc n)) = ''WORD_RULE''"
    by (simp_all add: word_acceptor_def new_acceptor_def)
  ultimately show ?thesis
    using ks by (auto simp: latin_pool_def acs' ys list_all_iff intro!: fold_tags_keep [simplified])
qed

text \<open>The path of a Latin word: every entry is one word from the beginning of the text.\<close>

definition latin_info :: path_info where
  "latin_info = \<lparr>info_p = Some 0, info_mw = 0, info_w = 1, info_unk = 0,
                 info_type = ''WORD_RULE'', info_merge = None\<rparr>"

definition latin_path :: "nat \<Rightarrow> path" where
  "latin_path n = createPath @ replicate n latin_info"

lemma latin_path_nth:
  "k \<le> n \<Longrightarrow> info_mw (latin_path n ! k) = 0 \<and> info_unk (latin_path n ! k) = 0 \<and>
     0 \<le> info_w (latin_path n ! k) \<and> (k = 0 \<longrightarrow> info_w (latin_path n ! k) = 0)"
  by (cases k) (auto simp: latin_path_def createPath_def latin_info_def nth_append)

lemma length_latin_path [simp]: "length (latin_path n) = Suc n"
  by (simp add: latin_path_def createPath_def)

lemma build_info_plain:
  assumes "plain a" "0 < strOffset a" "strOffset a \<le> Suc n"
  shows "\<exists>info. build_info (latin_path n) a (int n) = Inr (latin_path n, info) \<and>
    info_unk info = 0 \<and> info_mw info = 0 \<and> 1 \<le> info_w info"
proof -
  obtain p where p: "int n - int (strOffset a) + 1 = int p" "p \<le> n"
    using assms by (intro that [of "Suc n - strOffset a"]) auto
  then show ?thesis using assms(1) latin_path_nth [of p n]
    unfolding build_info_def p(1) by (simp add: plain_def Let_def)
qed

lemma build_info_word:
  "build_info (latin_path n) (word_acceptor (Suc n)) (int n) = Inr (latin_path n, latin_info)"
  by (simp add: build_info_def word_acceptor_def new_acceptor_def latin_path_def createPath_def
      latin_info_def)

lemma buildByAcceptors_plain:
  assumes "\<forall>a \<in> set as. plain a \<and> 0 < strOffset a \<and> strOffset a \<le> Suc n"
  shows "\<exists>infos. buildByAcceptors (latin_path n) as (int n) = Inr (latin_path n, infos) \<and>
    (\<forall>info \<in> set infos. \<not> better info latin_info)"
  using assms
proof (induction as)
  case Nil
  then show ?case by simp
next
  case (Cons a as)
  obtain info where "build_info (latin_path n) a (int n) = Inr (latin_path n, info)"
    "\<not> better info latin_info"
    using build_info_plain [of a n] Cons.prems by (auto simp: better_def latin_info_def)
  then show ?case using Cons by auto
qed

lemma select_step_keeps:
  "\<forall>z \<in> set ps. \<not> better z x \<Longrightarrow> foldl select_step (Some x) ps = Some x"
  by (induction ps) (auto simp: select_step_def)

lemma latin_step:
  assumes inv: "build_inv n (acs, latin_path n, lb)" and pool: "latin_pool n acs"
    and n: "n < length text" and c: "latin_letter (text ! n)"
  shows "\<exists>acs'. buildPath_step text n (acs, latin_path n, lb) = Inr (acs', latin_path (Suc n), int n) \<and>
    build_inv (Suc n) (acs', latin_path (Suc n), int n) \<and> latin_pool (Suc n) acs'"
proof -
  obtain acs' where acs': "acceptors_transit acs (text ! n) = Inr acs'" "pool_ok (Suc n) acs'"
    using inv acceptors_transit_ok [of n acs] by (auto simp: build_inv_def)
  then have pool': "latin_pool (Suc n) acs'" using latin_pool_step pool c by blast
  then obtain rest where rest: "current acs' = word_acceptor (Suc n) # rest" "list_all plain rest"
    by (auto simp: latin_pool_def)
  then have fin: "getFinalAcceptors acs' = word_acceptor (Suc n) # filter isFinal rest"
    by (simp add: getFinalAcceptors_def word_acceptor_def)
  have "\<forall>a \<in> set (filter isFinal rest). plain a \<and> 0 < strOffset a \<and> strOffset a \<le> Suc n"
    using acs'(2) rest by (auto simp: pool_ok_def list_all_iff)
  from buildByAcceptors_plain [OF this] obtain infos where
    infos: "buildByAcceptors (latin_path n) (filter isFinal rest) (int n) = Inr (latin_path n, infos)"
    and worse: "\<forall>info \<in> set infos. \<not> better info latin_info" by blast
  have "build_path_infos (latin_path n) (getFinalAcceptors acs') (int n) lb text =
      Inr (latin_path n, latin_info # infos)"
    by (simp add: build_path_infos_def fin build_info_word infos)
  moreover have "selectPath (latin_info # infos) = Some latin_info"
    using select_step_keeps [OF worse] by (simp add: selectPath_def select_step_def)
  moreover have "latin_path n @ [latin_info] = latin_path (Suc n)"
    by (simp add: latin_path_def replicate_append_same)
  ultimately have step: "buildPath_step text n (acs, latin_path n, lb) =
      Inr (acs', latin_path (Suc n), int n)"
    using acs' by (simp add: buildPath_step_def latin_info_def)
  with buildPath_step_ok [OF inv n] pool' show ?thesis by auto
qed

lemma latin_loop:
  assumes latin: "\<forall>c \<in> set text. latin_letter c"
  shows "build_inv n (acs, latin_path n, lb) \<Longrightarrow> latin_pool n acs \<Longrightarrow> n \<le> length text \<Longrightarrow>
    \<exists>acs' lb'. buildPath_loop text [n..<length text] (acs, latin_path n, lb) =
      Inr (acs', latin_path (length text), lb')"
proof (induction "length text - n" arbitrary: n acs lb)
  case 0
  then show ?case by simp
next
  case (Suc k)
  then have n: "n < length text" by simp
  then have c: "latin_letter (text ! n)" using latin by simp
  from latin_step [OF Suc.prems(1,2) n c] obtain acs' where
    "buildPath_step text n (acs, latin_path n, lb) = Inr (acs', latin_path (Suc n), int n)"
    "build_inv (Suc n) (acs', latin_path (Suc n), int n)" "latin_pool (Suc n) acs'" by blast
  with Suc.hyps(1) [of "Suc n" acs' "int n"] Suc.hyps(2) n show ?case
    by (simp add: upt_conv_Cons)
qed

lemma latin_path_ranges:
  assumes latin: "\<forall>c \<in> set text. latin_letter c" and "text \<noteq> []"
  shows "path_ranges (init builtin dpath withDefault additionalWords) text =
    Some (Inr [\<lparr>range_s = Some 0, range_e = int (length text)\<rparr>])"
proof -
  let ?self = "init builtin dpath withDefault additionalWords"
  let ?acs = "acceptors_reset (acceptors ?self)"
  have "build_inv 0 (?acs, latin_path 0, 0)"
    using init_ok [of builtin dpath withDefault additionalWords]
    by (simp add: build_inv_def pool_ok_reset path_ok_create segmenter_ok_def latin_path_def length_createPath)
  moreover have "latin_pool 0 ?acs"
    by (simp add: latin_pool_def acceptors_reset_def init_def initNoDict_def LatinRules_def Let_def)
  ultimately obtain self' where
    "buildPath ?self text = Inr (self', latin_path (length text))"
    using latin_loop [OF latin, of 0 ?acs 0] by (auto simp: buildPath_def latin_path_def)
  moreover have "latin_path (length text) ! length text = latin_info"
    using assms(2) by (simp add: latin_path_def nth_append length_createPath)
  moreover have "pathToRanges_loop path 0 rs = Some (Inr rs)" for path rs
    by (subst pathToRanges_loop.simps) simp
  ultimately show ?thesis using assms(2)
    by (simp add: path_ranges_def pathToRanges_def latin_info_def null_to_0_def
        pathToRanges_loop.simps [of _ "int (length text)"])
qed

section \<open>The Thai tokenizer of the search index\<close>

text \<open>
  \<open>lunr.th.tokenizer\<close> on a string (\<open>min/lunr.th.min.js\<close>): white space at the beginning is
  removed, the text is cut with the default delimiter and split at it.
\<close>

definition th_tokenizer :: "wordcut \<Rightarrow> jsstr \<Rightarrow> (js_error + jsstr list) option" where
  "th_tokenizer self i =
     (let n = dropWhile js_space i
      in map_option (map_sum id (\<lambda>s. js_split s (lit ''|''))) (cut self n None))"

section \<open>Observations\<close>

text \<open>
  \<open>buildPath\<close> sets \<open>leftBoundary\<close> to the index \<open>i\<close> of the last code unit of a recognised
  word, but a path entry \<open>k\<close> describes the text before index \<open>k\<close>, so the boundary behind
  that word is \<open>i + 1\<close>. An unrecognised code unit after a word is therefore joined to the
  last letter of the word, which is cut off from it.
\<close>

lemma unknown_takes_last_letter:
  "cutIntoArray (init [] PathUndefined None None) (lit ''ab#'') = Some (Inr [lit ''a'', lit ''b#''])"
  by code_simp

section \<open>Theorems\<close>

text \<open>
  C1. Whatever the dictionary and the text, the Thai segmenter returns (the loop of
  \<open>pathToRanges\<close> ends), raises no exception, produces no empty word, and its words put
  together are the text.
\<close>

theorem wordcut_lossless:
  "\<exists>ws. cutIntoArray (init builtin dict_path withDefault additionalWords) text = Some (Inr ws) \<and>
     concat ws = text \<and> [] \<notin> set ws"
  by (rule cutIntoArray_ok [OF init_ok])

text \<open>
  The ranges that \<open>cutIntoRanges\<close> returns partition the text: the first begins at 0,
  each begins where the one before ends, none is empty, the last ends at the end of the text.
\<close>

theorem wordcut_ranges_partition:
  "\<exists>rs. cutIntoRanges (init builtin dict_path withDefault additionalWords) text True =
       Some (Inr (map (\<lambda>r. (r, None)) rs)) \<and>
     contiguous 0 (int (length text)) rs"
  using path_ranges_ok [OF init_ok, of builtin dict_path withDefault additionalWords "text"]
  by (auto simp: cutIntoRanges_def)



text \<open>
  A text of Latin letters is one word, whatever the dictionary holds.
\<close>

theorem wordcut_latin_word_whole:
  assumes "text \<noteq> []" and "\<forall>c \<in> set text. latin_letter c"
  shows "cutIntoArray (init builtin dict_path withDefault additionalWords) text = Some (Inr [text])"
  using latin_path_ranges [OF assms(2,1)]
  by (simp add: cutIntoArray_def range_text_def null_to_0_def js_substring_def js_clamp_def)

theorem wordcut_latin_word_whole_witness:
  "cutIntoArray (init [] PathUndefined None (Some [lit ''Spa''])) (lit ''Sparc'') =
     Some (Inr [lit ''Sparc''])"
  by (rule wordcut_latin_word_whole) (auto simp: latin_letter_def toLowerCase_def)

text \<open>
  On a text without the delimiter \<open>|\<close> that does not begin with white space, the
  tokens of the search index are exactly the words of the segmenter.
\<close>

theorem th_tokenizer_words:
  assumes "text \<noteq> []" and "\<not> js_space (hd text)" and "ch CHR ''|'' \<notin> set text"
  shows "th_tokenizer (init builtin dict_path withDefault additionalWords) text =
    cutIntoArray (init builtin dict_path withDefault additionalWords) text"
proof -
  have "dropWhile js_space text = text" using assms(1,2) by (cases "text") auto
  then show ?thesis
    using thai.split_join_pieces [OF assms(3,1)]
    by (simp add: th_tokenizer_def cut_joins cutIntoArray_thai_pieces)
qed

theorem th_tokenizer_words_witness:
  "th_tokenizer (init [] PathUndefined None None) (lit ''ab cd'') =
     cutIntoArray (init [] PathUndefined None None) (lit ''ab cd'')"
  by (rule th_tokenizer_words) (auto simp: js_space_def)

end
