(* ===== verification/Tiny_Tables.thy ===== *)
theory Tiny_Tables
  imports JS_Prelude
begin

text \<open>
  The weight tables of the Japanese segmenter, the object literals of lines 49--90 of
  \<open>src/docs/generated_site/assets/javascripts/lunr/tinyseg.js\<close>, in the order of the source.
  A key is a string of UTF-16 code units; keys of ASCII letters are written as literals.
\<close>

type_synonym weights = "(jsstr \<times> int) list"

definition BC1 :: weights where
  "BC1 =
    [(lit ''HH'', 6), (lit ''II'', 2461), (lit ''KH'', 406), (lit ''OH'', - 1378)]"

definition BC2 :: weights where
  "BC2 =
    [(lit ''AA'', - 3267), (lit ''AI'', 2744), (lit ''AN'', - 878), (lit ''HH'', - 4070),
     (lit ''HM'', - 1711), (lit ''HN'', 4012), (lit ''HO'', 3761), (lit ''IA'', 1327),
     (lit ''IH'', - 1184), (lit ''II'', - 1332), (lit ''IK'', 1721), (lit ''IO'', 5492),
     (lit ''KI'', 3831), (lit ''KK'', - 8741), (lit ''MH'', - 3132), (lit ''MK'', 3334),
     (lit ''OO'', - 2920)]"

definition BC3 :: weights where
  "BC3 =
    [(lit ''HH'', 996), (lit ''HI'', 626), (lit ''HK'', - 721), (lit ''HN'', - 1307),
     (lit ''HO'', - 836), (lit ''IH'', - 301), (lit ''KK'', 2762), (lit ''MK'', 1079),
     (lit ''MM'', 4034), (lit ''OA'', - 1652), (lit ''OH'', 266)]"

definition BP1 :: weights where
  "BP1 =
    [(lit ''BB'', 295), (lit ''OB'', 304), (lit ''OO'', - 125), (lit ''UB'', 352)]"

definition BP2 :: weights where
  "BP2 =
    [(lit ''BO'', 60), (lit ''OO'', - 1762)]"

definition BQ1 :: weights where
  "BQ1 =
    [(lit ''BHH'', 1150), (lit ''BHM'', 1521), (lit ''BII'', - 1158), (lit ''BIM'', 886),
     (lit ''BMH'', 1208), (lit ''BNH'', 449), (lit ''BOH'', - 91), (lit ''BOO'', - 2597),
     (lit ''OHI'', 451), (lit ''OIH'', - 296), (lit ''OKA'', 1851), (lit ''OKH'', - 1020),
     (lit ''OKK'', 904), (lit ''OOO'', 2965)]"

definition BQ2 :: weights where
  "BQ2 =
    [(lit ''BHH'', 118), (lit ''BHI'', - 1159), (lit ''BHM'', 466), (lit ''BIH'', - 919),
     (lit ''BKK'', - 1720), (lit ''BKO'', 864), (lit ''OHH'', - 1139), (lit ''OHM'', - 181),
     (lit ''OIH'', 153), (lit ''UHI'', - 1146)]"

definition BQ3 :: weights where
  "BQ3 =
    [(lit ''BHH'', - 792), (lit ''BHI'', 2664), (lit ''BII'', - 299), (lit ''BKI'', 419),
     (lit ''BMH'', 937), (lit ''BMM'', 8335), (lit ''BNN'', 998), (lit ''BOH'', 775),
     (lit ''OHH'', 2174), (lit ''OHM'', 439), (lit ''OII'', 280), (lit ''OKH'', 1798),
     (lit ''OKI'', - 793), (lit ''OKO'', - 2242), (lit ''OMH'', - 2402), (lit ''OOO'', 11699)]"

definition BQ4 :: weights where
  "BQ4 =
    [(lit ''BHH'', - 3895), (lit ''BIH'', 3761), (lit ''BII'', - 4654), (lit ''BIK'', 1348),
     (lit ''BKK'', - 1806), (lit ''BMI'', - 3385), (lit ''BOO'', - 12396), (lit ''OAH'', 926),
     (lit ''OHH'', 266), (lit ''OHK'', - 2036), (lit ''ONN'', - 973)]"

definition BW1 :: weights where
  "BW1 =
    [([0x002C, 0x3068], 660), ([0x002C, 0x540C], 727), ([0x0042, 0x0031, 0x3042], 1404),
     ([0x0042, 0x0031, 0x540C], 542), ([0x3001, 0x3068], 660), ([0x3001, 0x540C], 727),
     ([0x300D, 0x3068], 1682), ([0x3042, 0x3063], 1505), ([0x3044, 0x3046], 1743),
     ([0x3044, 0x3063], - 2055), ([0x3044, 0x308B], 672), ([0x3046, 0x3057], - 4817),
     ([0x3046, 0x3093], 665), ([0x304B, 0x3089], 3472), ([0x304C, 0x3089], 600),
     ([0x3053, 0x3046], - 790), ([0x3053, 0x3068], 2083), ([0x3053, 0x3093], - 1262),
     ([0x3055, 0x3089], - 4143), ([0x3055, 0x3093], 4573), ([0x3057, 0x305F], 2641),
     ([0x3057, 0x3066], 1104), ([0x3059, 0x3067], - 3399), ([0x305D, 0x3053], 1977),
     ([0x305D, 0x308C], - 871), ([0x305F, 0x3061], 1122), ([0x305F, 0x3081], 601),
     ([0x3063, 0x305F], 3463), ([0x3064, 0x3044], - 802), ([0x3066, 0x3044], 805),
     ([0x3066, 0x304D], 1249), ([0x3067, 0x304D], 1127), ([0x3067, 0x3059], 3445),
     ([0x3067, 0x306F], 844), ([0x3068, 0x3044], - 4915), ([0x3068, 0x307F], 1922),
     ([0x3069, 0x3053], 3887), ([0x306A, 0x3044], 5713), ([0x306A, 0x3063], 3015),
     ([0x306A, 0x3069], 7379), ([0x306A, 0x3093], - 1113), ([0x306B, 0x3057], 2468),
     ([0x306B, 0x306F], 1498), ([0x306B, 0x3082], 1671), ([0x306B, 0x5BFE], - 912),
     ([0x306E, 0x4E00], - 501), ([0x306E, 0x4E2D], 741), ([0x307E, 0x305B], 2448),
     ([0x307E, 0x3067], 1711), ([0x307E, 0x307E], 2600), ([0x307E, 0x308B], - 2155),
     ([0x3084, 0x3080], - 1947), ([0x3088, 0x3063], - 2565), ([0x308C, 0x305F], 2369),
     ([0x308C, 0x3067], - 913), ([0x3092, 0x3057], 1860), ([0x3092, 0x898B], 731),
     ([0x4EA1, 0x304F], - 1886), ([0x4EAC, 0x90FD], 2558), ([0x53D6, 0x308A], - 2784),
     ([0x5927, 0x304D], - 2604), ([0x5927, 0x962A], 1497), ([0x5E73, 0x65B9], - 2314),
     ([0x5F15, 0x304D], - 1336), ([0x65E5, 0x672C], - 195), ([0x672C, 0x5F53], - 2423),
     ([0x6BCE, 0x65E5], - 2113), ([0x76EE, 0x6307], - 724), ([0xFF22, 0xFF11, 0x3042], 1404),
     ([0xFF22, 0xFF11, 0x540C], 542), ([0xFF63, 0x3068], 1682)]"

definition BW2 :: weights where
  "BW2 =
    [([0x002E, 0x002E], - 11822), ([0x0031, 0x0031], - 669), ([0x2015, 0x2015], - 5730),
     ([0x2212, 0x2212], - 13175), ([0x3044, 0x3046], - 1609), ([0x3046, 0x304B], 2490),
     ([0x304B, 0x3057], - 1350), ([0x304B, 0x3082], - 602), ([0x304B, 0x3089], - 7194),
     ([0x304B, 0x308C], 4612), ([0x304C, 0x3044], 853), ([0x304C, 0x3089], - 3198),
     ([0x304D, 0x305F], 1941), ([0x304F, 0x306A], - 1597), ([0x3053, 0x3068], - 8392),
     ([0x3053, 0x306E], - 4193), ([0x3055, 0x305B], 4533), ([0x3055, 0x308C], 13168),
     ([0x3055, 0x3093], - 3977), ([0x3057, 0x3044], - 1819), ([0x3057, 0x304B], - 545),
     ([0x3057, 0x305F], 5078), ([0x3057, 0x3066], 972), ([0x3057, 0x306A], 939),
     ([0x305D, 0x306E], - 3744), ([0x305F, 0x3044], - 1253), ([0x305F, 0x305F], - 662),
     ([0x305F, 0x3060], - 3857), ([0x305F, 0x3061], - 786), ([0x305F, 0x3068], 1224),
     ([0x305F, 0x306F], - 939), ([0x3063, 0x305F], 4589), ([0x3063, 0x3066], 1647),
     ([0x3063, 0x3068], - 2094), ([0x3066, 0x3044], 6144), ([0x3066, 0x304D], 3640),
     ([0x3066, 0x304F], 2551), ([0x3066, 0x306F], - 3110), ([0x3066, 0x3082], - 3065),
     ([0x3067, 0x3044], 2666), ([0x3067, 0x304D], - 1528), ([0x3067, 0x3057], - 3828),
     ([0x3067, 0x3059], - 4761), ([0x3067, 0x3082], - 4203), ([0x3068, 0x3044], 1890),
     ([0x3068, 0x3053], - 1746), ([0x3068, 0x3068], - 2279), ([0x3068, 0x306E], 720),
     ([0x3068, 0x307F], 5168), ([0x3068, 0x3082], - 3941), ([0x306A, 0x3044], - 2488),
     ([0x306A, 0x304C], - 1313), ([0x306A, 0x3069], - 6509), ([0x306A, 0x306E], 2614),
     ([0x306A, 0x3093], 3099), ([0x306B, 0x304A], - 1615), ([0x306B, 0x3057], 2748),
     ([0x306B, 0x306A], 2454), ([0x306B, 0x3088], - 7236), ([0x306B, 0x5BFE], - 14943),
     ([0x306B, 0x5F93], - 4688), ([0x306B, 0x95A2], - 11388), ([0x306E, 0x304B], 2093),
     ([0x306E, 0x3067], - 7059), ([0x306E, 0x306B], - 6041), ([0x306E, 0x306E], - 6125),
     ([0x306F, 0x3044], 1073), ([0x306F, 0x304C], - 1033), ([0x306F, 0x305A], - 2532),
     ([0x3070, 0x308C], 1813), ([0x307E, 0x3057], - 1316), ([0x307E, 0x3067], - 6621),
     ([0x307E, 0x308C], 5409), ([0x3081, 0x3066], - 3153), ([0x3082, 0x3044], 2230),
     ([0x3082, 0x306E], - 10713), ([0x3089, 0x304B], - 944), ([0x3089, 0x3057], - 1611),
     ([0x3089, 0x306B], - 1897), ([0x308A, 0x3057], 651), ([0x308A, 0x307E], 1620),
     ([0x308C, 0x305F], 4270), ([0x308C, 0x3066], 849), ([0x308C, 0x3070], 4114),
     ([0x308D, 0x3046], 6067), ([0x308F, 0x308C], 7901), ([0x3092, 0x901A], - 11877),
     ([0x3093, 0x3060], 728), ([0x3093, 0x306A], - 4115), ([0x4E00, 0x4EBA], 602),
     ([0x4E00, 0x65B9], - 1375), ([0x4E00, 0x65E5], 970), ([0x4E00, 0x90E8], - 1051),
     ([0x4E0A, 0x304C], - 4479), ([0x4F1A, 0x793E], - 1116), ([0x51FA, 0x3066], 2163),
     ([0x5206, 0x306E], - 7758), ([0x540C, 0x515A], 970), ([0x540C, 0x65E5], - 913),
     ([0x5927, 0x962A], - 2471), ([0x59D4, 0x54E1], - 1250), ([0x5C11, 0x306A], - 1050),
     ([0x5E74, 0x5EA6], - 8669), ([0x5E74, 0x9593], - 1626), ([0x5E9C, 0x770C], - 2363),
     ([0x624B, 0x6A29], - 1982), ([0x65B0, 0x805E], - 4066), ([0x65E5, 0x65B0], - 722),
     ([0x65E5, 0x672C], - 7068), ([0x65E5, 0x7C73], 3372), ([0x66DC, 0x65E5], - 601),
     ([0x671D, 0x9BAE], - 2355), ([0x672C, 0x4EBA], - 2697), ([0x6771, 0x4EAC], - 1543),
     ([0x7136, 0x3068], - 1384), ([0x793E, 0x4F1A], - 1276), ([0x7ACB, 0x3066], - 990),
     ([0x7B2C, 0x306B], - 1612), ([0x7C73, 0x56FD], - 4268), ([0xFF11, 0xFF11], - 669)]"

definition BW3 :: weights where
  "BW3 =
    [([0x3042, 0x305F], - 2194), ([0x3042, 0x308A], 719), ([0x3042, 0x308B], 3846),
     ([0x3044, 0x002E], - 1185), ([0x3044, 0x3002], - 1185), ([0x3044, 0x3044], 5308),
     ([0x3044, 0x3048], 2079), ([0x3044, 0x304F], 3029), ([0x3044, 0x305F], 2056),
     ([0x3044, 0x3063], 1883), ([0x3044, 0x308B], 5600), ([0x3044, 0x308F], 1527),
     ([0x3046, 0x3061], 1117), ([0x3046, 0x3068], 4798), ([0x3048, 0x3068], 1454),
     ([0x304B, 0x002E], 2857), ([0x304B, 0x3002], 2857), ([0x304B, 0x3051], - 743),
     ([0x304B, 0x3063], - 4098), ([0x304B, 0x306B], - 669), ([0x304B, 0x3089], 6520),
     ([0x304B, 0x308A], - 2670), ([0x304C, 0x002C], 1816), ([0x304C, 0x3001], 1816),
     ([0x304C, 0x304D], - 4855), ([0x304C, 0x3051], - 1127), ([0x304C, 0x3063], - 913),
     ([0x304C, 0x3089], - 4977), ([0x304C, 0x308A], - 2064), ([0x304D, 0x305F], 1645),
     ([0x3051, 0x3069], 1374), ([0x3053, 0x3068], 7397), ([0x3053, 0x306E], 1542),
     ([0x3053, 0x308D], - 2757), ([0x3055, 0x3044], - 714), ([0x3055, 0x3092], 976),
     ([0x3057, 0x002C], 1557), ([0x3057, 0x3001], 1557), ([0x3057, 0x3044], - 3714),
     ([0x3057, 0x305F], 3562), ([0x3057, 0x3066], 1449), ([0x3057, 0x306A], 2608),
     ([0x3057, 0x307E], 1200), ([0x3059, 0x002E], - 1310), ([0x3059, 0x3002], - 1310),
     ([0x3059, 0x308B], 6521), ([0x305A, 0x002C], 3426), ([0x305A, 0x3001], 3426),
     ([0x305A, 0x306B], 841), ([0x305D, 0x3046], 428), ([0x305F, 0x002E], 8875),
     ([0x305F, 0x3002], 8875), ([0x305F, 0x3044], - 594), ([0x305F, 0x306E], 812),
     ([0x305F, 0x308A], - 1183), ([0x305F, 0x308B], - 853), ([0x3060, 0x002E], 4098),
     ([0x3060, 0x3002], 4098), ([0x3060, 0x3063], 1004), ([0x3063, 0x305F], - 4748),
     ([0x3063, 0x3066], 300), ([0x3066, 0x3044], 6240), ([0x3066, 0x304A], 855),
     ([0x3066, 0x3082], 302), ([0x3067, 0x3059], 1437), ([0x3067, 0x306B], - 1482),
     ([0x3067, 0x306F], 2295), ([0x3068, 0x3046], - 1387), ([0x3068, 0x3057], 2266),
     ([0x3068, 0x306E], 541), ([0x3068, 0x3082], - 3543), ([0x3069, 0x3046], 4664),
     ([0x306A, 0x3044], 1796), ([0x306A, 0x304F], - 903), ([0x306A, 0x3069], 2135),
     ([0x306B, 0x002C], - 1021), ([0x306B, 0x3001], - 1021), ([0x306B, 0x3057], 1771),
     ([0x306B, 0x306A], 1906), ([0x306B, 0x306F], 2644), ([0x306E, 0x002C], - 724),
     ([0x306E, 0x3001], - 724), ([0x306E, 0x5B50], - 1000), ([0x306F, 0x002C], 1337),
     ([0x306F, 0x3001], 1337), ([0x3079, 0x304D], 2181), ([0x307E, 0x3057], 1113),
     ([0x307E, 0x3059], 6943), ([0x307E, 0x3063], - 1549), ([0x307E, 0x3067], 6154),
     ([0x307E, 0x308C], - 793), ([0x3089, 0x3057], 1479), ([0x3089, 0x308C], 6820),
     ([0x308B, 0x308B], 3818), ([0x308C, 0x002C], 854), ([0x308C, 0x3001], 854),
     ([0x308C, 0x305F], 1850), ([0x308C, 0x3066], 1375), ([0x308C, 0x3070], - 3246),
     ([0x308C, 0x308B], 1091), ([0x308F, 0x308C], - 605), ([0x3093, 0x3060], 606),
     ([0x3093, 0x3067], 798), ([0x30AB, 0x6708], 990), ([0x4F1A, 0x8B70], 860),
     ([0x5165, 0x308A], 1232), ([0x5927, 0x4F1A], 2217), ([0x59CB, 0x3081], 1681), ([0x5E02], 965),
     ([0x65B0, 0x805E], - 5055), ([0x65E5, 0x002C], 974), ([0x65E5, 0x3001], 974),
     ([0x793E, 0x4F1A], 2024), ([0xFF76, 0x6708], 990)]"

definition TC1 :: weights where
  "TC1 =
    [(lit ''AAA'', 1093), (lit ''HHH'', 1029), (lit ''HHM'', 580), (lit ''HII'', 998),
     (lit ''HOH'', - 390), (lit ''HOM'', - 331), (lit ''IHI'', 1169), (lit ''IOH'', - 142),
     (lit ''IOI'', - 1015), (lit ''IOM'', 467), (lit ''MMH'', 187), (lit ''OOI'', - 1832)]"

definition TC2 :: weights where
  "TC2 =
    [(lit ''HHO'', 2088), (lit ''HII'', - 1023), (lit ''HMM'', - 1154), (lit ''IHI'', - 1965),
     (lit ''KKH'', 703), (lit ''OII'', - 2649)]"

definition TC3 :: weights where
  "TC3 =
    [(lit ''AAA'', - 294), (lit ''HHH'', 346), (lit ''HHI'', - 341), (lit ''HII'', - 1088),
     (lit ''HIK'', 731), (lit ''HOH'', - 1486), (lit ''IHH'', 128), (lit ''IHI'', - 3041),
     (lit ''IHO'', - 1935), (lit ''IIH'', - 825), (lit ''IIM'', - 1035), (lit ''IOI'', - 542),
     (lit ''KHH'', - 1216), (lit ''KKA'', 491), (lit ''KKH'', - 1217), (lit ''KOK'', - 1009),
     (lit ''MHH'', - 2694), (lit ''MHM'', - 457), (lit ''MHO'', 123), (lit ''MMH'', - 471),
     (lit ''NNH'', - 1689), (lit ''NNO'', 662), (lit ''OHO'', - 3393)]"

definition TC4 :: weights where
  "TC4 =
    [(lit ''HHH'', - 203), (lit ''HHI'', 1344), (lit ''HHK'', 365), (lit ''HHM'', - 122),
     (lit ''HHN'', 182), (lit ''HHO'', 669), (lit ''HIH'', 804), (lit ''HII'', 679),
     (lit ''HOH'', 446), (lit ''IHH'', 695), (lit ''IHO'', - 2324), (lit ''IIH'', 321),
     (lit ''III'', 1497), (lit ''IIO'', 656), (lit ''IOO'', 54), (lit ''KAK'', 4845),
     (lit ''KKA'', 3386), (lit ''KKK'', 3065), (lit ''MHH'', - 405), (lit ''MHI'', 201),
     (lit ''MMH'', - 241), (lit ''MMM'', 661), (lit ''MOM'', 841)]"

definition TQ1 :: weights where
  "TQ1 =
    [(lit ''BHHH'', - 227), (lit ''BHHI'', 316), (lit ''BHIH'', - 132), (lit ''BIHH'', 60),
     (lit ''BIII'', 1595), (lit ''BNHH'', - 744), (lit ''BOHH'', 225), (lit ''BOOO'', - 908),
     (lit ''OAKK'', 482), (lit ''OHHH'', 281), (lit ''OHIH'', 249), (lit ''OIHI'', 200),
     (lit ''OIIH'', - 68)]"

definition TQ2 :: weights where
  "TQ2 =
    [(lit ''BIHH'', - 1401), (lit ''BIII'', - 1033), (lit ''BKAK'', - 543), (lit ''BOOO'', - 5591)]"

definition TQ3 :: weights where
  "TQ3 =
    [(lit ''BHHH'', 478), (lit ''BHHM'', - 1073), (lit ''BHIH'', 222), (lit ''BHII'', - 504),
     (lit ''BIIH'', - 116), (lit ''BIII'', - 105), (lit ''BMHI'', - 863), (lit ''BMHM'', - 464),
     (lit ''BOMH'', 620), (lit ''OHHH'', 346), (lit ''OHHI'', 1729), (lit ''OHII'', 997),
     (lit ''OHMH'', 481), (lit ''OIHH'', 623), (lit ''OIIH'', 1344), (lit ''OKAK'', 2792),
     (lit ''OKHH'', 587), (lit ''OKKA'', 679), (lit ''OOHH'', 110), (lit ''OOII'', - 685)]"

definition TQ4 :: weights where
  "TQ4 =
    [(lit ''BHHH'', - 721), (lit ''BHHM'', - 3604), (lit ''BHII'', - 966), (lit ''BIIH'', - 607),
     (lit ''BIII'', - 2181), (lit ''OAAA'', - 2763), (lit ''OAKK'', 180), (lit ''OHHH'', - 294),
     (lit ''OHHI'', 2446), (lit ''OHHO'', 480), (lit ''OHIH'', - 1573), (lit ''OIHH'', 1935),
     (lit ''OIHI'', - 493), (lit ''OIIH'', 626), (lit ''OIII'', - 4007), (lit ''OKAK'', - 8156)]"

definition TW1 :: weights where
  "TW1 =
    [([0x306B, 0x3064, 0x3044], - 4681), ([0x6771, 0x4EAC, 0x90FD], 2026)]"

definition TW2 :: weights where
  "TW2 =
    [([0x3042, 0x308B, 0x7A0B], - 2049), ([0x3044, 0x3063, 0x305F], - 1256),
     ([0x3053, 0x308D, 0x304C], - 2434), ([0x3057, 0x3087, 0x3046], 3873),
     ([0x305D, 0x306E, 0x5F8C], - 4430), ([0x3060, 0x3063, 0x3066], - 1049),
     ([0x3066, 0x3044, 0x305F], 1833), ([0x3068, 0x3057, 0x3066], - 4657),
     ([0x3068, 0x3082, 0x306B], - 4517), ([0x3082, 0x306E, 0x3067], 1882),
     ([0x4E00, 0x6C17, 0x306B], - 792), ([0x521D, 0x3081, 0x3066], - 1512),
     ([0x540C, 0x6642, 0x306B], - 8097), ([0x5927, 0x304D, 0x306A], - 1255),
     ([0x5BFE, 0x3057, 0x3066], - 2721), ([0x793E, 0x4F1A, 0x515A], - 3216)]"

definition TW3 :: weights where
  "TW3 =
    [([0x3044, 0x305F, 0x3060], - 1734), ([0x3057, 0x3066, 0x3044], 1314),
     ([0x3068, 0x3057, 0x3066], - 4314), ([0x306B, 0x3064, 0x3044], - 5483),
     ([0x306B, 0x3068, 0x3063], - 5989), ([0x306B, 0x5F53, 0x305F], - 6247),
     ([0x306E, 0x3067, 0x002C], - 727), ([0x306E, 0x3067, 0x3001], - 727),
     ([0x306E, 0x3082, 0x306E], - 600), ([0x308C, 0x304B, 0x3089], - 3752),
     ([0x5341, 0x4E8C, 0x6708], - 2287)]"

definition TW4 :: weights where
  "TW4 =
    [([0x3044, 0x3046, 0x002E], 8576), ([0x3044, 0x3046, 0x3002], 8576),
     ([0x304B, 0x3089, 0x306A], - 2348), ([0x3057, 0x3066, 0x3044], 2958),
     ([0x305F, 0x304C, 0x002C], 1516), ([0x305F, 0x304C, 0x3001], 1516),
     ([0x3066, 0x3044, 0x308B], 1538), ([0x3068, 0x3044, 0x3046], 1349),
     ([0x307E, 0x3057, 0x305F], 5543), ([0x307E, 0x305B, 0x3093], 1097),
     ([0x3088, 0x3046, 0x3068], - 4258), ([0x3088, 0x308B, 0x3068], 5865)]"

definition UC1 :: weights where
  "UC1 =
    [(lit ''A'', 484), (lit ''K'', 93), (lit ''M'', 645), (lit ''O'', - 505)]"

definition UC2 :: weights where
  "UC2 =
    [(lit ''A'', 819), (lit ''H'', 1059), (lit ''I'', 409), (lit ''M'', 3987), (lit ''N'', 5775),
     (lit ''O'', 646)]"

definition UC3 :: weights where
  "UC3 =
    [(lit ''A'', - 1370), (lit ''I'', 2311)]"

definition UC4 :: weights where
  "UC4 =
    [(lit ''A'', - 2643), (lit ''H'', 1809), (lit ''I'', - 1032), (lit ''K'', - 3450),
     (lit ''M'', 3565), (lit ''N'', 3876), (lit ''O'', 6646)]"

definition UC5 :: weights where
  "UC5 =
    [(lit ''H'', 313), (lit ''I'', - 1238), (lit ''K'', - 799), (lit ''M'', 539),
     (lit ''O'', - 831)]"

definition UC6 :: weights where
  "UC6 =
    [(lit ''H'', - 506), (lit ''I'', - 253), (lit ''K'', 87), (lit ''M'', 247), (lit ''O'', - 387)]"

definition UP1 :: weights where
  "UP1 =
    [(lit ''O'', - 214)]"

definition UP2 :: weights where
  "UP2 =
    [(lit ''B'', 69), (lit ''O'', 935)]"

definition UP3 :: weights where
  "UP3 =
    [(lit ''B'', 189)]"

definition UQ1 :: weights where
  "UQ1 =
    [(lit ''BH'', 21), (lit ''BI'', - 12), (lit ''BK'', - 99), (lit ''BN'', 142),
     (lit ''BO'', - 56), (lit ''OH'', - 95), (lit ''OI'', 477), (lit ''OK'', 410),
     (lit ''OO'', - 2422)]"

definition UQ2 :: weights where
  "UQ2 =
    [(lit ''BH'', 216), (lit ''BI'', 113), (lit ''OK'', 1759)]"

definition UQ3 :: weights where
  "UQ3 =
    [(lit ''BA'', - 479), (lit ''BH'', 42), (lit ''BI'', 1913), (lit ''BK'', - 7198),
     (lit ''BM'', 3160), (lit ''BN'', 6427), (lit ''BO'', 14761), (lit ''OI'', - 827),
     (lit ''ON'', - 3212)]"

definition UW1 :: weights where
  "UW1 =
    [([0x002C], 156), ([0x3001], 156), ([0x300C], - 463), ([0x3042], - 941), ([0x3046], - 127),
     ([0x304C], - 553), ([0x304D], 121), ([0x3053], 505), ([0x3067], - 201), ([0x3068], - 547),
     ([0x3069], - 123), ([0x306B], - 789), ([0x306E], - 185), ([0x306F], - 847), ([0x3082], - 466),
     ([0x3084], - 470), ([0x3088], 182), ([0x3089], - 292), ([0x308A], 208), ([0x308C], 169),
     ([0x3092], - 446), ([0x3093], - 137), ([0x30FB], - 135), ([0x4E3B], - 402), ([0x4EAC], - 268),
     ([0x533A], - 912), ([0x5348], 871), ([0x56FD], - 460), ([0x5927], 561), ([0x59D4], 729),
     ([0x5E02], - 411), ([0x65E5], - 141), ([0x7406], 361), ([0x751F], - 408), ([0x770C], - 386),
     ([0x90FD], - 718), ([0xFF62], - 463), ([0xFF65], - 135)]"

definition UW2 :: weights where
  "UW2 =
    [([0x002C], - 829), ([0x3001], - 829), ([0x3007], 892), ([0x300C], - 645), ([0x300D], 3145),
     ([0x3042], - 538), ([0x3044], 505), ([0x3046], 134), ([0x304A], - 502), ([0x304B], 1454),
     ([0x304C], - 856), ([0x304F], - 412), ([0x3053], 1141), ([0x3055], 878), ([0x3056], 540),
     ([0x3057], 1529), ([0x3059], - 675), ([0x305B], 300), ([0x305D], - 1011), ([0x305F], 188),
     ([0x3060], 1837), ([0x3064], - 949), ([0x3066], - 291), ([0x3067], - 268), ([0x3068], - 981),
     ([0x3069], 1273), ([0x306A], 1063), ([0x306B], - 1764), ([0x306E], 130), ([0x306F], - 409),
     ([0x3072], - 1273), ([0x3079], 1261), ([0x307E], 600), ([0x3082], - 1263), ([0x3084], - 402),
     ([0x3088], 1639), ([0x308A], - 579), ([0x308B], - 694), ([0x308C], 571), ([0x3092], - 2516),
     ([0x3093], 2095), ([0x30A2], - 587), ([0x30AB], 306), ([0x30AD], 568), ([0x30C3], 831),
     ([0x4E09], - 758), ([0x4E0D], - 2150), ([0x4E16], - 302), ([0x4E2D], - 968),
     ([0x4E3B], - 861), ([0x4E8B], 492), ([0x4EBA], - 123), ([0x4F1A], 978), ([0x4FDD], 362),
     ([0x5165], 548), ([0x521D], - 3025), ([0x526F], - 1566), ([0x5317], - 3414),
     ([0x533A], - 422), ([0x5927], - 1769), ([0x5929], - 865), ([0x592A], - 483),
     ([0x5B50], - 1519), ([0x5B66], 760), ([0x5B9F], 1023), ([0x5C0F], - 2009), ([0x5E02], - 813),
     ([0x5E74], - 1060), ([0x5F37], 1067), ([0x624B], - 1519), ([0x63FA], - 1033),
     ([0x653F], 1522), ([0x6587], - 1355), ([0x65B0], - 1682), ([0x65E5], - 1815),
     ([0x660E], - 1462), ([0x6700], - 630), ([0x671D], - 1843), ([0x672C], - 1650),
     ([0x6771], - 931), ([0x679C], - 665), ([0x6B21], - 2378), ([0x6C11], - 180),
     ([0x6C17], - 1740), ([0x7406], 752), ([0x767A], 529), ([0x76EE], - 1584), ([0x76F8], - 242),
     ([0x770C], - 1165), ([0x7ACB], - 763), ([0x7B2C], 810), ([0x7C73], 509), ([0x81EA], - 1353),
     ([0x884C], 838), ([0x897F], - 744), ([0x898B], - 3874), ([0x8ABF], 1010), ([0x8B70], 1198),
     ([0x8FBC], 3041), ([0x958B], 1758), ([0x9593], - 1257), ([0xFF62], - 645), ([0xFF63], 3145),
     ([0xFF6F], 831), ([0xFF71], - 587), ([0xFF76], 306), ([0xFF77], 568)]"

definition UW3 :: weights where
  "UW3 =
    [([0x002C], 4889), ([0x0031], - 800), ([0x2212], - 1723), ([0x3001], 4889), ([0x3005], - 2311),
     ([0x3007], 5827), ([0x300D], 2670), ([0x3013], - 3573), ([0x3042], - 2696), ([0x3044], 1006),
     ([0x3046], 2342), ([0x3048], 1983), ([0x304A], - 4864), ([0x304B], - 1163), ([0x304C], 3271),
     ([0x304F], 1004), ([0x3051], 388), ([0x3052], 401), ([0x3053], - 3552), ([0x3054], - 3116),
     ([0x3055], - 1058), ([0x3057], - 395), ([0x3059], 584), ([0x305B], 3685), ([0x305D], - 5228),
     ([0x305F], 842), ([0x3061], - 521), ([0x3063], - 1444), ([0x3064], - 1081), ([0x3066], 6167),
     ([0x3067], 2318), ([0x3068], 1691), ([0x3069], - 899), ([0x306A], - 2788), ([0x306B], 2745),
     ([0x306E], 4056), ([0x306F], 4555), ([0x3072], - 2171), ([0x3075], - 1798), ([0x3078], 1199),
     ([0x307B], - 5516), ([0x307E], - 4384), ([0x307F], - 120), ([0x3081], 1205), ([0x3082], 2323),
     ([0x3084], - 788), ([0x3088], - 202), ([0x3089], 727), ([0x308A], 649), ([0x308B], 5905),
     ([0x308C], 2773), ([0x308F], - 1207), ([0x3092], 6620), ([0x3093], - 518), ([0x30A2], 551),
     ([0x30B0], 1319), ([0x30B9], 874), ([0x30C3], - 1350), ([0x30C8], 521), ([0x30E0], 1109),
     ([0x30EB], 1591), ([0x30ED], 2201), ([0x30F3], 278), ([0x30FB], - 3794), ([0x4E00], - 1619),
     ([0x4E0B], - 1759), ([0x4E16], - 2087), ([0x4E21], 3815), ([0x4E2D], 653), ([0x4E3B], - 758),
     ([0x4E88], - 1193), ([0x4E8C], 974), ([0x4EBA], 2742), ([0x4ECA], 792), ([0x4ED6], 1889),
     ([0x4EE5], - 1368), ([0x4F4E], 811), ([0x4F55], 4265), ([0x4F5C], - 361), ([0x4FDD], - 2439),
     ([0x5143], 4858), ([0x515A], 3593), ([0x5168], 1574), ([0x516C], - 3030), ([0x516D], 755),
     ([0x5171], - 1880), ([0x5186], 5807), ([0x518D], 3095), ([0x5206], 457), ([0x521D], 2475),
     ([0x5225], 1129), ([0x524D], 2286), ([0x526F], 4437), ([0x529B], 365), ([0x52D5], - 949),
     ([0x52D9], - 1872), ([0x5316], 1327), ([0x5317], - 1038), ([0x533A], 4646),
     ([0x5343], - 2309), ([0x5348], - 783), ([0x5354], - 1006), ([0x53E3], 483), ([0x53F3], 1233),
     ([0x5404], 3588), ([0x5408], - 241), ([0x540C], 3906), ([0x548C], - 837), ([0x54E1], 4513),
     ([0x56FD], 642), ([0x578B], 1389), ([0x5834], 1219), ([0x5916], - 241), ([0x59BB], 2016),
     ([0x5B66], - 1356), ([0x5B89], - 423), ([0x5B9F], - 1008), ([0x5BB6], 1078),
     ([0x5C0F], - 513), ([0x5C11], - 3102), ([0x5DDE], 1155), ([0x5E02], 3197), ([0x5E73], - 1804),
     ([0x5E74], 2416), ([0x5E83], - 1030), ([0x5E9C], 1605), ([0x5EA6], 1452), ([0x5EFA], - 2352),
     ([0x5F53], - 3885), ([0x5F97], 1905), ([0x601D], - 1291), ([0x6027], 1822), ([0x6238], - 488),
     ([0x6307], - 3973), ([0x653F], - 2013), ([0x6559], - 1479), ([0x6570], 3222),
     ([0x6587], - 1489), ([0x65B0], 1764), ([0x65E5], 2099), ([0x65E7], 5792), ([0x6628], - 661),
     ([0x6642], - 1248), ([0x66DC], - 951), ([0x6700], - 937), ([0x6708], 4125), ([0x671F], 360),
     ([0x674E], 3094), ([0x6751], 364), ([0x6771], - 805), ([0x6838], 5156), ([0x68EE], 2438),
     ([0x696D], 484), ([0x6C0F], 2613), ([0x6C11], - 1694), ([0x6C7A], - 1073), ([0x6CD5], 1868),
     ([0x6D77], - 495), ([0x7121], 979), ([0x7269], 461), ([0x7279], - 3850), ([0x751F], - 273),
     ([0x7528], 914), ([0x753A], 1215), ([0x7684], 7313), ([0x76F4], - 1835), ([0x7701], 792),
     ([0x770C], 6293), ([0x77E5], - 1528), ([0x79C1], 4231), ([0x7A0E], 401), ([0x7ACB], - 960),
     ([0x7B2C], 1201), ([0x7C73], 7767), ([0x7CFB], 3066), ([0x7D04], 3663), ([0x7D1A], 1384),
     ([0x7D71], - 4229), ([0x7DCF], 1163), ([0x7DDA], 1255), ([0x8005], 6457), ([0x80FD], 725),
     ([0x81EA], - 2869), ([0x82F1], 785), ([0x898B], 1044), ([0x8ABF], - 562), ([0x8CA1], - 733),
     ([0x8CBB], 1777), ([0x8ECA], 1835), ([0x8ECD], 1375), ([0x8FBC], - 1504), ([0x901A], - 1136),
     ([0x9078], - 681), ([0x90CE], 1026), ([0x90E1], 4404), ([0x90E8], 1200), ([0x91D1], 2163),
     ([0x9577], 421), ([0x958B], - 1432), ([0x9593], 1302), ([0x95A2], - 1282), ([0x96E8], 2009),
     ([0x96FB], - 1045), ([0x975E], 2066), ([0x99C5], 1620), ([0xFF11], - 800), ([0xFF63], 2670),
     ([0xFF65], - 3794), ([0xFF6F], - 1350), ([0xFF71], 551), ([0xFF78, 0xFF9E], 1319),
     ([0xFF7D], 874), ([0xFF84], 521), ([0xFF91], 1109), ([0xFF99], 1591), ([0xFF9B], 2201),
     ([0xFF9D], 278)]"

definition UW4 :: weights where
  "UW4 =
    [([0x002C], 3930), ([0x002E], 3508), ([0x2015], - 4841), ([0x3001], 3930), ([0x3002], 3508),
     ([0x3007], 4999), ([0x300C], 1895), ([0x300D], 3798), ([0x3013], - 5156), ([0x3042], 4752),
     ([0x3044], - 3435), ([0x3046], - 640), ([0x3048], - 2514), ([0x304A], 2405), ([0x304B], 530),
     ([0x304C], 6006), ([0x304D], - 4482), ([0x304E], - 3821), ([0x304F], - 3788),
     ([0x3051], - 4376), ([0x3052], - 4734), ([0x3053], 2255), ([0x3054], 1979), ([0x3055], 2864),
     ([0x3057], - 843), ([0x3058], - 2506), ([0x3059], - 731), ([0x305A], 1251), ([0x305B], 181),
     ([0x305D], 4091), ([0x305F], 5034), ([0x3060], 5408), ([0x3061], - 3654), ([0x3063], - 5882),
     ([0x3064], - 1659), ([0x3066], 3994), ([0x3067], 7410), ([0x3068], 4547), ([0x306A], 5433),
     ([0x306B], 6499), ([0x306C], 1853), ([0x306D], 1413), ([0x306E], 7396), ([0x306F], 8578),
     ([0x3070], 1940), ([0x3072], 4249), ([0x3073], - 4134), ([0x3075], 1345), ([0x3078], 6665),
     ([0x3079], - 744), ([0x307B], 1464), ([0x307E], 1051), ([0x307F], - 2082), ([0x3080], - 882),
     ([0x3081], - 5046), ([0x3082], 4169), ([0x3083], - 2666), ([0x3084], 2795),
     ([0x3087], - 1544), ([0x3088], 3351), ([0x3089], - 2922), ([0x308A], - 9726),
     ([0x308B], - 14896), ([0x308C], - 2613), ([0x308D], - 4570), ([0x308F], - 1783),
     ([0x3092], 13150), ([0x3093], - 2352), ([0x30AB], 2145), ([0x30B3], 1789), ([0x30BB], 1287),
     ([0x30C3], - 724), ([0x30C8], - 403), ([0x30E1], - 1635), ([0x30E9], - 881),
     ([0x30EA], - 541), ([0x30EB], - 856), ([0x30F3], - 3637), ([0x30FB], - 4371),
     ([0x30FC], - 11870), ([0x4E00], - 2069), ([0x4E2D], 2210), ([0x4E88], 782), ([0x4E8B], - 190),
     ([0x4E95], - 1768), ([0x4EBA], 1036), ([0x4EE5], 544), ([0x4F1A], 950), ([0x4F53], - 1286),
     ([0x4F5C], 530), ([0x5074], 4292), ([0x5148], 601), ([0x515A], - 2006), ([0x5171], - 1212),
     ([0x5185], 584), ([0x5186], 788), ([0x521D], 1347), ([0x524D], 1623), ([0x526F], 3879),
     ([0x529B], - 302), ([0x52D5], - 740), ([0x52D9], - 2715), ([0x5316], 776), ([0x533A], 4517),
     ([0x5354], 1013), ([0x53C2], 1555), ([0x5408], - 1834), ([0x548C], - 681), ([0x54E1], - 910),
     ([0x5668], - 851), ([0x56DE], 1500), ([0x56FD], - 619), ([0x5712], - 1200), ([0x5730], 866),
     ([0x5834], - 1410), ([0x5841], - 2094), ([0x58EB], - 1413), ([0x591A], 1067), ([0x5927], 571),
     ([0x5B50], - 4802), ([0x5B66], - 1397), ([0x5B9A], - 1057), ([0x5BFA], - 809),
     ([0x5C0F], 1910), ([0x5C4B], - 1328), ([0x5C71], - 1500), ([0x5CF6], - 2056),
     ([0x5DDD], - 2667), ([0x5E02], 2771), ([0x5E74], 374), ([0x5E81], - 4556), ([0x5F8C], 456),
     ([0x6027], 553), ([0x611F], 916), ([0x6240], - 1566), ([0x652F], 856), ([0x6539], 787),
     ([0x653F], 2182), ([0x6559], 704), ([0x6587], 522), ([0x65B9], - 856), ([0x65E5], 1798),
     ([0x6642], 1829), ([0x6700], 845), ([0x6708], - 9066), ([0x6728], - 485), ([0x6765], - 442),
     ([0x6821], - 360), ([0x696D], - 1043), ([0x6C0F], 5388), ([0x6C11], - 2716),
     ([0x6C17], - 910), ([0x6CA2], - 939), ([0x6E08], - 543), ([0x7269], - 735), ([0x7387], 672),
     ([0x7403], - 1267), ([0x751F], - 1286), ([0x7523], - 1101), ([0x7530], - 2900),
     ([0x753A], 1826), ([0x7684], 2586), ([0x76EE], 922), ([0x7701], - 3485), ([0x770C], 2997),
     ([0x7A7A], - 867), ([0x7ACB], - 2112), ([0x7B2C], 788), ([0x7C73], 2937), ([0x7CFB], 786),
     ([0x7D04], 2171), ([0x7D4C], 1146), ([0x7D71], - 1169), ([0x7DCF], 940), ([0x7DDA], - 994),
     ([0x7F72], 749), ([0x8005], 2145), ([0x80FD], - 730), ([0x822C], - 852), ([0x884C], - 792),
     ([0x898F], 792), ([0x8B66], - 1184), ([0x8B70], - 244), ([0x8C37], - 1000), ([0x8CDE], 730),
     ([0x8ECA], - 1481), ([0x8ECD], 1158), ([0x8F2A], - 1433), ([0x8FBC], - 3370), ([0x8FD1], 929),
     ([0x9053], - 1291), ([0x9078], 2596), ([0x90CE], - 4866), ([0x90FD], 1192),
     ([0x91CE], - 1100), ([0x9280], - 2213), ([0x9577], 357), ([0x9593], - 2344),
     ([0x9662], - 2297), ([0x969B], - 2604), ([0x96FB], - 878), ([0x9818], - 1659),
     ([0x984C], - 792), ([0x9928], - 1984), ([0x9996], 1749), ([0x9AD8], 2120), ([0xFF62], 1895),
     ([0xFF63], 3798), ([0xFF65], - 4371), ([0xFF6F], - 724), ([0xFF70], - 11870),
     ([0xFF76], 2145), ([0xFF7A], 1789), ([0xFF7E], 1287), ([0xFF84], - 403), ([0xFF92], - 1635),
     ([0xFF97], - 881), ([0xFF98], - 541), ([0xFF99], - 856), ([0xFF9D], - 3637)]"

definition UW5 :: weights where
  "UW5 =
    [([0x002C], 465), ([0x002E], - 299), ([0x0031], - 514), ([0x0045, 0x0032], - 32768),
     ([0x005D], - 2762), ([0x3001], 465), ([0x3002], - 299), ([0x300C], 363), ([0x3042], 1655),
     ([0x3044], 331), ([0x3046], - 503), ([0x3048], 1199), ([0x304A], 527), ([0x304B], 647),
     ([0x304C], - 421), ([0x304D], 1624), ([0x304E], 1971), ([0x304F], 312), ([0x3052], - 983),
     ([0x3055], - 1537), ([0x3057], - 1371), ([0x3059], - 852), ([0x3060], - 1186),
     ([0x3061], 1093), ([0x3063], 52), ([0x3064], 921), ([0x3066], - 18), ([0x3067], - 850),
     ([0x3068], - 127), ([0x3069], 1682), ([0x306A], - 787), ([0x306B], - 1224), ([0x306E], - 635),
     ([0x306F], - 578), ([0x3079], 1001), ([0x307F], 502), ([0x3081], 865), ([0x3083], 3350),
     ([0x3087], 854), ([0x308A], - 208), ([0x308B], 429), ([0x308C], 504), ([0x308F], 419),
     ([0x3092], - 1264), ([0x3093], 327), ([0x30A4], 241), ([0x30EB], 451), ([0x30F3], - 343),
     ([0x4E2D], - 871), ([0x4EAC], 722), ([0x4F1A], - 1153), ([0x515A], - 654), ([0x52D9], 3519),
     ([0x533A], - 901), ([0x544A], 848), ([0x54E1], 2104), ([0x5927], - 1296), ([0x5B66], - 548),
     ([0x5B9A], 1785), ([0x5D50], - 1304), ([0x5E02], - 2991), ([0x5E2D], 921), ([0x5E74], 1763),
     ([0x601D], 872), ([0x6240], - 814), ([0x6319], 1618), ([0x65B0], - 1682), ([0x65E5], 218),
     ([0x6708], - 4353), ([0x67FB], 932), ([0x683C], 1356), ([0x6A5F], - 1508), ([0x6C0F], - 1347),
     ([0x7530], 240), ([0x753A], - 3912), ([0x7684], - 3149), ([0x76F8], 1319), ([0x7701], - 1052),
     ([0x770C], - 4003), ([0x7814], - 997), ([0x793E], - 278), ([0x7A7A], - 813), ([0x7D71], 1955),
     ([0x8005], - 2233), ([0x8868], 663), ([0x8A9E], - 1073), ([0x8B70], 1219), ([0x9078], - 1018),
     ([0x90CE], - 368), ([0x9577], 786), ([0x9593], 1191), ([0x984C], 2368), ([0x9928], - 689),
     ([0xFF11], - 514), ([0xFF25, 0xFF12], - 32768), ([0xFF62], 363), ([0xFF72], 241),
     ([0xFF99], 451), ([0xFF9D], - 343)]"

definition UW6 :: weights where
  "UW6 =
    [([0x002C], 227), ([0x002E], 808), ([0x0031], - 270), ([0x0045, 0x0031], 306), ([0x3001], 227),
     ([0x3002], 808), ([0x3042], - 307), ([0x3046], 189), ([0x304B], 241), ([0x304C], - 73),
     ([0x304F], - 121), ([0x3053], - 200), ([0x3058], 1782), ([0x3059], 383), ([0x305F], - 428),
     ([0x3063], 573), ([0x3066], - 1014), ([0x3067], 101), ([0x3068], - 105), ([0x306A], - 253),
     ([0x306B], - 149), ([0x306E], - 417), ([0x306F], - 236), ([0x3082], - 206), ([0x308A], 187),
     ([0x308B], - 135), ([0x3092], 195), ([0x30EB], - 673), ([0x30F3], - 496), ([0x4E00], - 277),
     ([0x4E2D], 201), ([0x4EF6], - 800), ([0x4F1A], 624), ([0x524D], 302), ([0x533A], 1792),
     ([0x54E1], - 1212), ([0x59D4], 798), ([0x5B66], - 960), ([0x5E02], 887), ([0x5E83], - 695),
     ([0x5F8C], 535), ([0x696D], - 697), ([0x76F8], 753), ([0x793E], - 507), ([0x798F], 974),
     ([0x7A7A], - 822), ([0x8005], 1811), ([0x9023], 463), ([0x90CE], 1082), ([0xFF11], - 270),
     ([0xFF25, 0xFF11], 306), ([0xFF99], - 673), ([0xFF9D], - 496)]"

end
