(* ===== verification/Tiny_Segmenter.thy ===== *)
theory Tiny_Segmenter
  imports Tiny_Tables Segmentation
begin

text \<open>
  The Japanese segmenter \<open>TinySegmenter\<close>
  (\<open>src/docs/generated_site/assets/javascripts/lunr/tinyseg.js\<close>) and the tokenizer of the
  search index that calls it (\<open>min/lunr.ja.min.js\<close>). A linear score over the code units
  around a position, their character classes and the last three decisions says whether a
  word ends there.
\<close>

section \<open>Operations\<close>

text \<open>The character classes, tried in this order.\<close>

definition in_ranges :: "(jschar \<times> jschar) list \<Rightarrow> jschar \<Rightarrow> bool" where
  "in_ranges rs c \<longleftrightarrow> list_ex (\<lambda>(a, b). a \<le> c \<and> c \<le> b) rs"

definition chartypes :: "((jschar \<times> jschar) list \<times> jsstr) list" where
  "chartypes =
     [(map (\<lambda>c. (c, c))
         [0x4E00, 0x4E8C, 0x4E09, 0x56DB, 0x4E94, 0x516D, 0x4E03, 0x516B, 0x4E5D, 0x5341,
          0x767E, 0x5343, 0x4E07, 0x5104, 0x5146], lit ''M''),
      ([(0x4E00, 0x9FA0), (0x3005, 0x3005), (0x3006, 0x3006), (0x30F5, 0x30F5), (0x30F6, 0x30F6)], lit ''H''),
      ([(0x3041, 0x3093)], lit ''I''),
      ([(0x30A1, 0x30F4), (0x30FC, 0x30FC), (0xFF71, 0xFF9D), (0xFF9E, 0xFF9E), (0xFF70, 0xFF70)], lit ''K''),
      ([(0x0061, 0x007A), (0x0041, 0x005A), (0xFF41, 0xFF5A), (0xFF21, 0xFF3A)], lit ''A''),
      ([(0x0030, 0x0039), (0xFF10, 0xFF19)], lit ''N'')]"

text \<open>\<open>str.match(/[...]/)\<close> finds a code unit of the class anywhere in \<open>str\<close>.\<close>

fun ctype_loop :: "((jschar \<times> jschar) list \<times> jsstr) list \<Rightarrow> jsstr \<Rightarrow> jsstr" where
  "ctype_loop [] str = lit ''O''"
| "ctype_loop ((cls, t) # rest) str = (if list_ex (in_ranges cls) str then t else ctype_loop rest str)"

definition ctype_of :: "jsstr \<Rightarrow> jsstr" where
  "ctype_of str = ctype_loop chartypes str"

text \<open>\<open>ts_(table[key])\<close>: a missing weight is \<open>undefined\<close>, which \<open>ts_\<close> turns into 0.\<close>

definition ts :: "int option \<Rightarrow> int" where
  "ts v = (case v of None \<Rightarrow> 0 | Some x \<Rightarrow> if x \<noteq> 0 then x else 0)"

definition wt :: "weights \<Rightarrow> jsstr \<Rightarrow> int" where
  "wt table key = ts (map_of table key)"

definition BIAS :: int where
  "BIAS = - 332"

definition score ::
  "jsstr list \<Rightarrow> jsstr list \<Rightarrow> nat \<Rightarrow> jsstr \<Rightarrow> jsstr \<Rightarrow> jsstr \<Rightarrow> int" where
  "score seg ctype i p1 p2 p3 =
     (let w1 = seg ! (i - 3); w2 = seg ! (i - 2); w3 = seg ! (i - 1);
          w4 = seg ! i; w5 = seg ! (i + 1); w6 = seg ! (i + 2);
          c1 = ctype ! (i - 3); c2 = ctype ! (i - 2); c3 = ctype ! (i - 1);
          c4 = ctype ! i; c5 = ctype ! (i + 1); c6 = ctype ! (i + 2)
      in BIAS
         + wt UP1 p1 + wt UP2 p2 + wt UP3 p3
         + wt BP1 (p1 @ p2) + wt BP2 (p2 @ p3)
         + wt UW1 w1 + wt UW2 w2 + wt UW3 w3 + wt UW4 w4 + wt UW5 w5 + wt UW6 w6
         + wt BW1 (w2 @ w3) + wt BW2 (w3 @ w4) + wt BW3 (w4 @ w5)
         + wt TW1 (w1 @ w2 @ w3) + wt TW2 (w2 @ w3 @ w4) + wt TW3 (w3 @ w4 @ w5) + wt TW4 (w4 @ w5 @ w6)
         + wt UC1 c1 + wt UC2 c2 + wt UC3 c3 + wt UC4 c4 + wt UC5 c5 + wt UC6 c6
         + wt BC1 (c2 @ c3) + wt BC2 (c3 @ c4) + wt BC3 (c4 @ c5)
         + wt TC1 (c1 @ c2 @ c3) + wt TC2 (c2 @ c3 @ c4) + wt TC3 (c3 @ c4 @ c5) + wt TC4 (c4 @ c5 @ c6)
         + wt UQ1 (p1 @ c1) + wt UQ2 (p2 @ c2) + wt UQ3 (p3 @ c3)
         + wt BQ1 (p2 @ c2 @ c3) + wt BQ2 (p2 @ c3 @ c4) + wt BQ3 (p3 @ c2 @ c3) + wt BQ4 (p3 @ c3 @ c4)
         + wt TQ1 (p2 @ c1 @ c2 @ c3) + wt TQ2 (p2 @ c2 @ c3 @ c4)
         + wt TQ3 (p3 @ c1 @ c2 @ c3) + wt TQ4 (p3 @ c2 @ c3 @ c4))"

record seg_state =
  seg_result :: "jsstr list"
  seg_word :: jsstr
  seg_p1 :: jsstr
  seg_p2 :: jsstr
  seg_p3 :: jsstr

definition segment_step :: "jsstr list \<Rightarrow> jsstr list \<Rightarrow> seg_state \<Rightarrow> nat \<Rightarrow> seg_state" where
  "segment_step seg ctype s i =
     (if score seg ctype i (seg_p1 s) (seg_p2 s) (seg_p3 s) > 0
      then \<lparr>seg_result = seg_result s @ [seg_word s], seg_word = seg ! i,
            seg_p1 = seg_p2 s, seg_p2 = seg_p3 s, seg_p3 = lit ''B''\<rparr>
      else \<lparr>seg_result = seg_result s, seg_word = seg_word s @ seg ! i,
            seg_p1 = seg_p2 s, seg_p2 = seg_p3 s, seg_p3 = lit ''O''\<rparr>)"

definition seg_array :: "jsstr \<Rightarrow> jsstr list" where
  "seg_array input =
     [lit ''B3'', lit ''B2'', lit ''B1''] @ js_split input [] @ [lit ''E1'', lit ''E2'', lit ''E3'']"

definition ctype_array :: "jsstr \<Rightarrow> jsstr list" where
  "ctype_array input =
     [lit ''O'', lit ''O'', lit ''O''] @ map ctype_of (js_split input []) @ [lit ''O'', lit ''O'', lit ''O'']"

definition segment :: "jsstr \<Rightarrow> jsstr list" where
  "segment input =
     (if input = [] then []
      else let seg = seg_array input;
               ctype = ctype_array input;
               s0 = \<lparr>seg_result = [], seg_word = seg ! 3,
                     seg_p1 = lit ''U'', seg_p2 = lit ''U'', seg_p3 = lit ''U''\<rparr>;
               s = foldl (segment_step seg ctype) s0 [4..<length seg - 3]
           in seg_result s @ [seg_word s])"

section \<open>The segmenter loses nothing\<close>

lemma seg_array_nth: "k < length input \<Longrightarrow> seg_array input ! (3 + k) = [input ! k]"
  by (simp add: seg_array_def js_split_def nth_append)

lemma length_seg_array [simp]: "length (seg_array input) = length input + 6"
  by (simp add: seg_array_def js_split_def)

text \<open>After reading the first \<open>n\<close> code units: the words so far and the open word are those code units.\<close>

definition seg_inv :: "jsstr \<Rightarrow> nat \<Rightarrow> seg_state \<Rightarrow> bool" where
  "seg_inv input n s \<longleftrightarrow>
     concat (seg_result s) @ seg_word s = take n input \<and> [] \<notin> set (seg_result s) \<and> seg_word s \<noteq> []"

lemma segment_step_inv:
  assumes "seg_inv input n s" "n < length input"
  shows "seg_inv input (Suc n) (segment_step (seg_array input) ctype s (3 + n))"
  using assms seg_array_nth [OF assms(2)]
  by (auto simp: seg_inv_def segment_step_def take_Suc_conv_app_nth)

lemma segment_loop_inv:
  "seg_inv input n s \<Longrightarrow> n \<le> m \<Longrightarrow> m \<le> length input \<Longrightarrow>
   seg_inv input m (foldl (segment_step (seg_array input) ctype) s [3 + n..<3 + m])"
proof (induction "m - n" arbitrary: n s)
  case 0
  then show ?case by simp
next
  case (Suc k)
  then have n: "n < m" by simp
  have "seg_inv input (Suc n) (segment_step (seg_array input) ctype s (3 + n))"
    using Suc.prems n by (intro segment_step_inv) auto
  with Suc.hyps(1) [of "Suc n"] Suc.hyps(2) Suc.prems n show ?case
    by (simp add: upt_conv_Cons)
qed

lemma segment_ok: "concat (segment input) = input \<and> [] \<notin> set (segment input)"
proof (cases "input = []")
  case True
  then show ?thesis by (simp add: segment_def)
next
  case False
  let ?s0 = "\<lparr>seg_result = [], seg_word = seg_array input ! 3,
    seg_p1 = lit ''U'', seg_p2 = lit ''U'', seg_p3 = lit ''U''\<rparr>"
  have "seg_array input ! 3 = [input ! 0]" using seg_array_nth [of 0 input] False by simp
  then have "seg_inv input 1 ?s0"
    using False by (cases input) (auto simp: seg_inv_def)
  then have "seg_inv input (length input)
      (foldl (segment_step (seg_array input) (ctype_array input)) ?s0 [3 + 1..<3 + length input])"
    using False by (intro segment_loop_inv) (auto simp: Suc_leI)
  then show ?thesis using False
    by (auto simp: segment_def seg_inv_def Let_def add.commute)
qed

interpretation ja: segmenter segment
  by unfold_locales (simp_all add: segment_ok)

section \<open>Scores stay small\<close>

definition tables :: "weights list" where
  "tables =
     [UP1, UP2, UP3, BP1, BP2, UW1, UW2, UW3, UW4, UW5, UW6, BW1, BW2, BW3, TW1, TW2, TW3, TW4,
      UC1, UC2, UC3, UC4, UC5, UC6, BC1, BC2, BC3, TC1, TC2, TC3, TC4,
      UQ1, UQ2, UQ3, BQ1, BQ2, BQ3, BQ4, TQ1, TQ2, TQ3, TQ4]"

lemmas table_defs =
  UP1_def UP2_def UP3_def BP1_def BP2_def UW1_def UW2_def UW3_def UW4_def UW5_def UW6_def
  BW1_def BW2_def BW3_def TW1_def TW2_def TW3_def TW4_def UC1_def UC2_def UC3_def UC4_def
  UC5_def UC6_def BC1_def BC2_def BC3_def TC1_def TC2_def TC3_def TC4_def UQ1_def UQ2_def
  UQ3_def BQ1_def BQ2_def BQ3_def BQ4_def TQ1_def TQ2_def TQ3_def TQ4_def

lemma tables_bounded: "list_all (list_all (\<lambda>(k, v). \<bar>v\<bar> \<le> 32768)) tables"
  by (simp only: tables_def table_defs list.pred_inject prod.case) simp

lemma wt_bounded: "t \<in> set tables \<Longrightarrow> \<bar>wt t k\<bar> \<le> 32768"
  using tables_bounded
  by (fastforce simp: wt_def ts_def list_all_iff dest!: map_of_SomeD split: option.split)

lemma abs_sum_list_le:
  fixes f :: "'a \<Rightarrow> int"
  assumes "\<forall>x \<in> set xs. \<bar>f x\<bar> \<le> B"
  shows "\<bar>sum_list (map f xs)\<bar> \<le> B * int (length xs)"
  using assms by (induction xs) (auto simp: algebra_simps)

lemma abs_weights_le:
  assumes "map fst keys = tables"
  shows "\<bar>sum_list (map (\<lambda>(t, k). wt t k) keys)\<bar> \<le> 32768 * 42"
proof -
  have "length keys = 42"
    using arg_cong [OF assms, of length] by (simp add: tables_def)
  moreover have "\<forall>x \<in> set keys. \<bar>(case x of (t, k) \<Rightarrow> wt t k)\<bar> \<le> 32768"
    using assms by (auto intro!: wt_bounded) (metis fst_conv image_eqI list.set_map)
  ultimately show ?thesis
    using abs_sum_list_le [of keys "\<lambda>(t, k). wt t k" 32768] by simp
qed

section \<open>Decisions and cuts\<close>

text \<open>
  The segmenter seen as two parts: a sequence of decisions, each from the score and the
  last three decisions, and the cutting of the text at the positive ones.
\<close>

fun decisions :: "jsstr list \<Rightarrow> jsstr list \<Rightarrow> jsstr \<Rightarrow> jsstr \<Rightarrow> jsstr \<Rightarrow> nat list \<Rightarrow> bool list" where
  "decisions seg ctype p1 p2 p3 [] = []"
| "decisions seg ctype p1 p2 p3 (i # is) =
     (let d = score seg ctype i p1 p2 p3 > 0
      in d # decisions seg ctype p2 p3 (if d then lit ''B'' else lit ''O'') is)"

fun cut_at :: "'c list \<Rightarrow> (bool \<times> 'c) list \<Rightarrow> 'c list list" where
  "cut_at word [] = [word]"
| "cut_at word ((d, c) # rest) =
     (if d then word # cut_at [c] rest else cut_at (word @ [c]) rest)"

lemma segment_loop_cut:
  "(\<forall>i \<in> set is. \<exists>c. seg ! i = [c]) \<Longrightarrow>
   (let t = foldl (segment_step seg ctype) s is in seg_result t @ [seg_word t]) =
     seg_result s @ cut_at (seg_word s)
       (zip (decisions seg ctype (seg_p1 s) (seg_p2 s) (seg_p3 s) is) (map (\<lambda>i. hd (seg ! i)) is))"
proof (induction "is" arbitrary: s)
  case Nil
  then show ?case by simp
next
  case (Cons i "is")
  then obtain c where "seg ! i = [c]" by auto
  then show ?case
    using Cons by (simp add: segment_step_def Let_def)
qed

lemma segment_cut:
  "segment (c # cs) =
     cut_at [c] (zip (decisions (seg_array (c # cs)) (ctype_array (c # cs))
       (lit ''U'') (lit ''U'') (lit ''U'') [4..<4 + length cs]) cs)"
proof -
  let ?seg = "seg_array (c # cs)"
  have nth: "?seg ! (4 + k) = [cs ! k]" if "k < length cs" for k
    using seg_array_nth [of "Suc k" "c # cs"] that by (simp add: numeral_eq_Suc)
  have all: "\<forall>i \<in> set [4..<4 + length cs]. \<exists>x. ?seg ! i = [x]"
    using nth by (metis add_diff_inverse_nat atLeastLessThan_iff nat_add_left_cancel_less
        not_less set_upt)
  have "map (\<lambda>i. hd (?seg ! i)) [4..<4 + length cs] = cs"
    by (rule nth_equalityI) (auto simp: nth)
  moreover have "?seg ! 3 = [c]" using seg_array_nth [of 0 "c # cs"] by simp
  ultimately show ?thesis
    using segment_loop_cut [OF all, of "ctype_array (c # cs)"
      "\<lparr>seg_result = [], seg_word = ?seg ! 3, seg_p1 = lit ''U'', seg_p2 = lit ''U'', seg_p3 = lit ''U''\<rparr>"]
    by (simp add: segment_def Let_def add.commute)
qed

section \<open>The Japanese tokenizer of the search index\<close>

text \<open>
  \<open>lunr.ja.tokenizer\<close> on a string. Lower-casing needs the Unicode character database, so it
  is the parameter \<open>lower\<close>. A token carries the \<open>position\<close> (start and length) and the
  \<open>index\<close> that the tokenizer hands to \<open>lunr.Token\<close>.
\<close>

record ja_token =
  tok_text :: jsstr
  tok_start :: nat
  tok_length :: nat
  tok_index :: nat

definition ja_strip :: "jsstr \<Rightarrow> jsstr" where
  "ja_strip s =
     (let o1 = dropWhile js_space s
      in if list_ex (\<lambda>c. \<not> js_space c) o1 then rev (dropWhile js_space (rev o1)) else o1)"

fun ja_push :: "ja_token list \<Rightarrow> nat \<Rightarrow> jsstr list \<Rightarrow> ja_token list" where
  "ja_push a f [] = a"
| "ja_push a f (p # ps) =
     ja_push (a @ [\<lparr>tok_text = p, tok_start = f, tok_length = length p, tok_index = length a\<rparr>])
       (f + length p) ps"

definition ja_step :: "jsstr \<Rightarrow> ja_token list \<times> nat \<Rightarrow> nat \<Rightarrow> ja_token list \<times> nat" where
  "ja_step t st c =
     (let (a, l) = st; u = js_charAt t (int c); m = int c - int l
      in if list_ex js_space u \<or> c = length t
         then (if m > 0
               then ja_push a l (filter (\<lambda>w. w \<noteq> []) (segment (js_slice t (int l) (int c))))
               else a, c + 1)
         else (a, l))"

definition ja_tokenizer :: "(jsstr \<Rightarrow> jsstr) \<Rightarrow> jsstr \<Rightarrow> ja_token list" where
  "ja_tokenizer lower i =
     (let t = ja_strip (lower i) in fst (foldl (ja_step t) ([], 0) [0..<Suc (length t)]))"

text \<open>A token that is where it says it is.\<close>

definition token_ok :: "jsstr \<Rightarrow> ja_token \<Rightarrow> bool" where
  "token_ok t k \<longleftrightarrow>
     tok_text k \<noteq> [] \<and> tok_length k = length (tok_text k) \<and>
     take (tok_length k) (drop (tok_start k) t) = tok_text k"

lemma ja_push_texts: "map tok_text (ja_push a f ps) = map tok_text a @ ps"
  by (induction ps arbitrary: a f) auto

lemma ja_push_indices:
  "map tok_index a = [0..<length a] \<Longrightarrow> map tok_index (ja_push a f ps) = [0..<length (ja_push a f ps)]"
  by (induction ps arbitrary: a f) auto

lemma ja_push_ok:
  "\<forall>k \<in> set a. token_ok t k \<Longrightarrow> [] \<notin> set ps \<Longrightarrow> take (length (concat ps)) (drop f t) = concat ps \<Longrightarrow>
   \<forall>k \<in> set (ja_push a f ps). token_ok t k"
proof (induction ps arbitrary: a f)
  case Nil
  then show ?case by simp
next
  case (Cons p ps)
  let ?d = "drop f t"
  have all: "take (length p + length (concat ps)) ?d = p @ concat ps"
    using Cons.prems(3) by simp
  have p: "take (length p) ?d = p"
    using arg_cong [OF all, of "take (length p)"] by (simp add: min_def)
  have rest: "take (length (concat ps)) (drop (f + length p) t) = concat ps"
    using arg_cong [OF all, of "drop (length p)"]
    by (simp add: drop_take add.commute)
  let ?k = "\<lparr>tok_text = p, tok_start = f, tok_length = length p, tok_index = length a\<rparr>"
  have "token_ok t ?k" using p Cons.prems(2) by (auto simp: token_ok_def)
  then have "\<forall>k \<in> set (a @ [?k]). token_ok t k" using Cons.prems(1) by simp
  moreover have "[] \<notin> set ps" using Cons.prems(2) by simp
  ultimately have "\<forall>k \<in> set (ja_push (a @ [?k]) (f + length p) ps). token_ok t k"
    using rest by (rule Cons.IH)
  then show ?case by simp
qed

definition ja_inv :: "jsstr \<Rightarrow> nat \<Rightarrow> ja_token list \<times> nat \<Rightarrow> bool" where
  "ja_inv t c st \<longleftrightarrow>
     (let (a, l) = st
      in l \<le> c \<and> (\<forall>x \<in> set (take (c - l) (drop l t)). \<not> js_space x) \<and>
         concat (map tok_text a) = filter (\<lambda>x. \<not> js_space x) (take l t) \<and>
         map tok_index a = [0..<length a] \<and> (\<forall>k \<in> set a. token_ok t k))"

lemma js_slice_nat: "l \<le> c \<Longrightarrow> c \<le> length t \<Longrightarrow> js_slice t (int l) (int c) = take (c - l) (drop l t)"
  by (simp add: js_slice_def js_rel_index_def Let_def)

text \<open>Closing the run of code units from \<open>l\<close> to \<open>c\<close>.\<close>

lemma ja_close:
  assumes inv: "ja_inv t c (a, l)" and c: "c \<le> length t"
  defines "a' \<equiv> (if int c - int l > 0
    then ja_push a l (filter (\<lambda>w. w \<noteq> []) (segment (js_slice t (int l) (int c)))) else a)"
  shows "concat (map tok_text a') = filter (\<lambda>x. \<not> js_space x) (take c t)"
    and "map tok_index a' = [0..<length a']" and "\<forall>k \<in> set a'. token_ok t k"
proof -
  have l: "l \<le> c" using inv by (simp add: ja_inv_def)
  let ?run = "take (c - l) (drop l t)"
  have seg: "filter (\<lambda>w. w \<noteq> []) (segment ?run) = segment ?run"
    using ja.no_empty_piece [of ?run] by (intro filter_True) auto
  have run: "filter (\<lambda>x. \<not> js_space x) ?run = ?run"
    using inv by (simp add: ja_inv_def)
  have take: "take c t = take l t @ ?run" using l by (metis le_add_diff_inverse take_add)
  have a': "a' = (if l < c then ja_push a l (segment ?run) else a)"
    by (simp add: a'_def js_slice_nat [OF l c] seg)
  have "concat (map tok_text a') = concat (map tok_text a) @ ?run"
    using l by (cases "l < c") (simp_all add: a' ja_push_texts ja.lossless)
  also have "\<dots> = filter (\<lambda>x. \<not> js_space x) (take l t) @ filter (\<lambda>x. \<not> js_space x) ?run"
    using inv unfolding run by (simp add: ja_inv_def)
  also have "\<dots> = filter (\<lambda>x. \<not> js_space x) (take c t)"
    by (simp only: take filter_append)
  finally show "concat (map tok_text a') = filter (\<lambda>x. \<not> js_space x) (take c t)" .
  show "map tok_index a' = [0..<length a']"
    using inv by (auto simp: a' ja_inv_def intro: ja_push_indices)
  have "\<forall>k \<in> set (ja_push a l (segment ?run)). token_ok t k"
    using inv ja.no_empty_piece [of ?run] c
    by (intro ja_push_ok) (simp_all add: ja_inv_def ja.lossless min_def)
  then show "\<forall>k \<in> set a'. token_ok t k"
    using inv unfolding a' by (simp add: ja_inv_def)
qed

lemma ja_step_inv:
  assumes inv: "ja_inv t c st" and c: "c < length t"
  shows "ja_inv t (Suc c) (ja_step t st c)"
proof -
  obtain a l where st: "st = (a, l)" by (cases st)
  have u: "js_charAt t (int c) = [t ! c]" using c by (simp add: js_charAt_def)
  have l: "l \<le> c" using inv by (simp add: ja_inv_def st)
  show ?thesis
  proof (cases "js_space (t ! c)")
    case True
    have "filter (\<lambda>x. \<not> js_space x) (take (Suc c) t) = filter (\<lambda>x. \<not> js_space x) (take c t)"
      using True c by (simp add: take_Suc_conv_app_nth)
    then show ?thesis
      using ja_close [OF inv [unfolded st] less_imp_le [OF c]] True
      unfolding ja_step_def st u ja_inv_def Let_def prod.case by simp
  next
    case False
    have "take (Suc c - l) (drop l t) = take (c - l) (drop l t) @ [t ! c]"
      using l c by (simp add: Suc_diff_le take_Suc_conv_app_nth)
    then show ?thesis
      using inv False c by (auto simp: ja_step_def st u ja_inv_def Let_def)
  qed
qed

lemma ja_loop_inv: "n \<le> length t \<Longrightarrow> ja_inv t n (foldl (ja_step t) ([], 0) [0..<n])"
proof (induction n)
  case 0
  show ?case by (simp add: ja_inv_def)
next
  case (Suc n)
  then show ?case using ja_step_inv [of t n] by simp
qed

lemma ja_tokens_ok:
  fixes lower i
  defines "t \<equiv> ja_strip (lower i)" and "a \<equiv> ja_tokenizer lower i"
  shows "concat (map tok_text a) = filter (\<lambda>x. \<not> js_space x) t"
    and "map tok_index a = [0..<length a]" and "\<forall>k \<in> set a. token_ok t k"
proof -
  obtain b l where st: "foldl (ja_step t) ([], 0) [0..<length t] = (b, l)" by fastforce
  have inv: "ja_inv t (length t) (b, l)" using ja_loop_inv [of "length t" t] st by simp
  have "a = fst (ja_step t (b, l) (length t))"
    using st by (simp add: a_def ja_tokenizer_def t_def [symmetric] Let_def)
  then have a: "a = (if int (length t) - int l > 0
      then ja_push b l (filter (\<lambda>w. w \<noteq> []) (segment (js_slice t (int l) (int (length t))))) else b)"
    by (simp add: ja_step_def Let_def)
  show "concat (map tok_text a) = filter (\<lambda>x. \<not> js_space x) t"
    and "map tok_index a = [0..<length a]" and "\<forall>k \<in> set a. token_ok t k"
    using ja_close [OF inv order.refl] unfolding a by simp_all
qed

text \<open>The score is the bias and one weight of each of the tables.\<close>

lemma score_weights:
  obtains keys where "map fst keys = tables"
    and "score seg ctype i p1 p2 p3 = BIAS + sum_list (map (\<lambda>(t, k). wt t k) keys)"
proof -
  let ?keys = "[(UP1, p1), (UP2, p2), (UP3, p3), (BP1, p1 @ p2), (BP2, p2 @ p3),
    (UW1, seg ! (i - 3)), (UW2, seg ! (i - 2)), (UW3, seg ! (i - 1)), (UW4, seg ! i),
    (UW5, seg ! (i + 1)), (UW6, seg ! (i + 2)),
    (BW1, seg ! (i - 2) @ seg ! (i - 1)), (BW2, seg ! (i - 1) @ seg ! i),
    (BW3, seg ! i @ seg ! (i + 1)),
    (TW1, seg ! (i - 3) @ seg ! (i - 2) @ seg ! (i - 1)),
    (TW2, seg ! (i - 2) @ seg ! (i - 1) @ seg ! i),
    (TW3, seg ! (i - 1) @ seg ! i @ seg ! (i + 1)),
    (TW4, seg ! i @ seg ! (i + 1) @ seg ! (i + 2)),
    (UC1, ctype ! (i - 3)), (UC2, ctype ! (i - 2)), (UC3, ctype ! (i - 1)), (UC4, ctype ! i),
    (UC5, ctype ! (i + 1)), (UC6, ctype ! (i + 2)),
    (BC1, ctype ! (i - 2) @ ctype ! (i - 1)), (BC2, ctype ! (i - 1) @ ctype ! i),
    (BC3, ctype ! i @ ctype ! (i + 1)),
    (TC1, ctype ! (i - 3) @ ctype ! (i - 2) @ ctype ! (i - 1)),
    (TC2, ctype ! (i - 2) @ ctype ! (i - 1) @ ctype ! i),
    (TC3, ctype ! (i - 1) @ ctype ! i @ ctype ! (i + 1)),
    (TC4, ctype ! i @ ctype ! (i + 1) @ ctype ! (i + 2)),
    (UQ1, p1 @ ctype ! (i - 3)), (UQ2, p2 @ ctype ! (i - 2)), (UQ3, p3 @ ctype ! (i - 1)),
    (BQ1, p2 @ ctype ! (i - 2) @ ctype ! (i - 1)), (BQ2, p2 @ ctype ! (i - 1) @ ctype ! i),
    (BQ3, p3 @ ctype ! (i - 2) @ ctype ! (i - 1)), (BQ4, p3 @ ctype ! (i - 1) @ ctype ! i),
    (TQ1, p2 @ ctype ! (i - 3) @ ctype ! (i - 2) @ ctype ! (i - 1)),
    (TQ2, p2 @ ctype ! (i - 2) @ ctype ! (i - 1) @ ctype ! i),
    (TQ3, p3 @ ctype ! (i - 3) @ ctype ! (i - 2) @ ctype ! (i - 1)),
    (TQ4, p3 @ ctype ! (i - 2) @ ctype ! (i - 1) @ ctype ! i)]"
  show ?thesis
    by (rule that [of ?keys]) (simp_all add: tables_def score_def Let_def)
qed

section \<open>Theorems\<close>

text \<open>
  C4. The Japanese segmenter produces no empty word, and its words put together are the
  text.
\<close>

theorem tinyseg_lossless: "concat (segment input) = input \<and> [] \<notin> set (segment input)"
  by (simp add: segment_ok)

text \<open>
  C29. On a non-empty text the segmenter cuts exactly at the positive decisions: the
  decision at a position is positive when the score there, computed with the decisions at
  the three positions before it, is positive.
\<close>

theorem tinyseg_cuts_at_decisions:
  "segment (c # cs) =
     cut_at [c] (zip (decisions (seg_array (c # cs)) (ctype_array (c # cs))
       (lit ''U'') (lit ''U'') (lit ''U'') [4..<4 + length cs]) cs)"
  by (rule segment_cut)


text \<open>
  The tokens of the Japanese tokenizer, whatever the lower-casing: each is non-empty and
  stands in the stripped text at the position and with the length it is given, they are
  numbered in order, and together they are the text without its white space.
\<close>

theorem ja_tokenizer_positions:
  "concat (map tok_text (ja_tokenizer lower i)) = filter (\<lambda>x. \<not> js_space x) (ja_strip (lower i)) \<and>
   map tok_index (ja_tokenizer lower i) = [0..<length (ja_tokenizer lower i)] \<and>
   list_all (\<lambda>k. tok_text k \<noteq> [] \<and> tok_length k = length (tok_text k) \<and>
     take (tok_length k) (drop (tok_start k) (ja_strip (lower i))) = tok_text k) (ja_tokenizer lower i)"
  using ja_tokens_ok [of lower i] by (simp only: list_all_iff token_ok_def)

end
