(* ===== verification/JS_RegExp.thy ===== *)
theory JS_RegExp
  imports JS_Prelude
begin

text \<open>
  Regular expressions of JavaScript, as the modelled sources use them: the pattern tree
  \<open>regexp\<close>, the backtracking matcher \<open>rx_match\<close> of the language definition, and the
  operations \<open>exec\<close>, \<open>test\<close>, \<open>match\<close>, \<open>split\<close> and \<open>replace\<close> on top of it. A literal
  \<open>/.../\<close> of a source is a \<open>regexp\<close> term; \<open>new RegExp(text)\<close> is \<open>rx_parse\<close> of the theory
  \<open>JS_RegExp_Parser\<close>.

  The matcher returns the matches from a position as the list of (end position, captures)
  in the order in which backtracking meets them, so the head of the list is the match the
  language definition selects. \<open>rx_test\<close> and the end positions \<open>rx_ends\<close> do not depend on
  the captures; the lemmas on \<open>rx_ends\<close> give the language of a pattern.
\<close>

section \<open>Patterns\<close>

datatype class_item =
    CRange jschar jschar
  | CDigit bool
  | CSpace bool
  | CWord bool

datatype regexp =
    REmpty
  | RChar jschar
  | RAny
  | RClass bool "class_item list"
  | RSeq regexp regexp
  | RAlt regexp regexp
  | RGroup nat regexp
  | RRepeat nat "nat option" bool regexp
  | RLook bool regexp
  | RBegin
  | REnd

definition js_digit :: "jschar \<Rightarrow> bool" where
  "js_digit c \<longleftrightarrow> 48 \<le> c \<and> c \<le> 57"

definition js_word :: "jschar \<Rightarrow> bool" where
  "js_word c \<longleftrightarrow> js_digit c \<or> 65 \<le> c \<and> c \<le> 90 \<or> c = 95 \<or> 97 \<le> c \<and> c \<le> 122"

definition js_line_terminator :: "jschar \<Rightarrow> bool" where
  "js_line_terminator c \<longleftrightarrow> c = 0x0A \<or> c = 0x0D \<or> c = 0x2028 \<or> c = 0x2029"

fun class_item_has :: "class_item \<Rightarrow> jschar \<Rightarrow> bool" where
  "class_item_has (CRange lo hi) c \<longleftrightarrow> lo \<le> c \<and> c \<le> hi"
| "class_item_has (CDigit b) c \<longleftrightarrow> js_digit c = b"
| "class_item_has (CSpace b) c \<longleftrightarrow> js_space c = b"
| "class_item_has (CWord b) c \<longleftrightarrow> js_word c = b"

text \<open>
  The flag \<open>i\<close>: \<open>None\<close> when it is not set, and otherwise the function that canonicalises a
  code unit (the language definition takes the upper case of the Unicode tables).
\<close>

type_synonym canon = "(jschar \<Rightarrow> jschar) option"

definition all_units :: "jschar list" where
  "all_units = map word_of_nat [0..<65536]"

definition class_has :: "canon \<Rightarrow> class_item list \<Rightarrow> jschar \<Rightarrow> bool" where
  "class_has f items c \<longleftrightarrow>
     (case f of
        None \<Rightarrow> list_ex (\<lambda>it. class_item_has it c) items
      | Some g \<Rightarrow> list_ex (\<lambda>a. g a = g c \<and> list_ex (\<lambda>it. class_item_has it a) items) all_units)"

definition char_eq :: "canon \<Rightarrow> jschar \<Rightarrow> jschar \<Rightarrow> bool" where
  "char_eq f a b \<longleftrightarrow> (case f of None \<Rightarrow> a = b | Some g \<Rightarrow> g a = g b)"

fun rx_groups :: "regexp \<Rightarrow> nat list" where
  "rx_groups (RGroup n r) = n # rx_groups r"
| "rx_groups (RSeq a b) = rx_groups a @ rx_groups b"
| "rx_groups (RAlt a b) = rx_groups a @ rx_groups b"
| "rx_groups (RRepeat mi ma g r) = rx_groups r"
| "rx_groups (RLook p r) = rx_groups r"
| "rx_groups _ = []"

section \<open>The matcher\<close>

type_synonym captures = "nat \<Rightarrow> jsstr option"
type_synonym rx_state = "nat \<times> captures"

definition rx_unset :: "nat list \<Rightarrow> captures \<Rightarrow> captures" where
  "rx_unset ns cap = (\<lambda>i. if i \<in> set ns then None else cap i)"

definition rx_one :: "jsstr \<Rightarrow> (jschar \<Rightarrow> bool) \<Rightarrow> rx_state \<Rightarrow> rx_state list" where
  "rx_one s P x = (case x of (i, cap) \<Rightarrow> if i < length s \<and> P (s ! i) then [(Suc i, cap)] else [])"

text \<open>
  One more round of a repetition. A round beyond the required ones that consumes nothing is
  refused, which is the reason why a repetition ends; the test is written as \<open>i < j\<close>,
  since matching never moves backwards (lemma \<open>rx_match_forward\<close> below).
\<close>

function rx_repeat ::
  "nat \<Rightarrow> (rx_state \<Rightarrow> rx_state list) \<Rightarrow> nat list \<Rightarrow> nat \<Rightarrow> nat option \<Rightarrow> bool \<Rightarrow> rx_state \<Rightarrow> rx_state list"
where
  "rx_repeat n m ns mi ma greedy x =
     (if ma = Some 0 then [x]
      else
        let more = concat (map (\<lambda>y.
              if mi = 0 \<and> \<not> (fst x < fst y \<and> fst y \<le> n) then []
              else rx_repeat n m ns (mi - 1) (map_option (\<lambda>k. k - 1) ma) greedy y)
              (m (fst x, rx_unset ns (snd x))))
        in if mi \<noteq> 0 then more else if greedy then more @ [x] else x # more)"
  by pat_completeness auto
termination
  by (relation "measures [\<lambda>(n, m, ns, mi, ma, greedy, x). mi,
        \<lambda>(n, m, ns, mi, ma, greedy, x). n - fst x]") auto

declare rx_repeat.simps [simp del]

primrec rx_match :: "canon \<Rightarrow> jsstr \<Rightarrow> regexp \<Rightarrow> rx_state \<Rightarrow> rx_state list" where
  "rx_match f s REmpty x = [x]"
| "rx_match f s (RChar c) x = rx_one s (char_eq f c) x"
| "rx_match f s RAny x = rx_one s (\<lambda>c. \<not> js_line_terminator c) x"
| "rx_match f s (RClass neg items) x = rx_one s (\<lambda>c. class_has f items c \<noteq> neg) x"
| "rx_match f s (RSeq a b) x = concat (map (rx_match f s b) (rx_match f s a x))"
| "rx_match f s (RAlt a b) x = rx_match f s a x @ rx_match f s b x"
| "rx_match f s (RGroup n r) x =
     map (\<lambda>(j, cap). (j, cap(n := Some (take (j - fst x) (drop (fst x) s))))) (rx_match f s r x)"
| "rx_match f s (RRepeat mi ma greedy r) x =
     rx_repeat (length s) (rx_match f s r) (rx_groups r) mi ma greedy x"
| "rx_match f s (RLook positive r) x =
     (case rx_match f s r x of
        [] \<Rightarrow> if positive then [] else [x]
      | y # _ \<Rightarrow> if positive then [(fst x, snd y)] else [])"
| "rx_match f s RBegin x = (if fst x = 0 then [x] else [])"
| "rx_match f s REnd x = (if fst x = length s then [x] else [])"

section \<open>Operations\<close>

record rx_result =
  rx_index :: nat
  rx_end :: nat
  rx_caps :: captures

fun rx_first :: "canon \<Rightarrow> regexp \<Rightarrow> jsstr \<Rightarrow> nat list \<Rightarrow> rx_result option" where
  "rx_first f r s [] = None"
| "rx_first f r s (i # is) =
     (case rx_match f s r (i, \<lambda>_. None) of
        [] \<Rightarrow> rx_first f r s is
      | (j, cap) # _ \<Rightarrow> Some \<lparr>rx_index = i, rx_end = j, rx_caps = cap\<rparr>)"

definition rx_exec_from :: "canon \<Rightarrow> regexp \<Rightarrow> jsstr \<Rightarrow> nat \<Rightarrow> rx_result option" where
  "rx_exec_from f r s i = rx_first f r s [i..<Suc (length s)]"

definition rx_exec :: "canon \<Rightarrow> regexp \<Rightarrow> jsstr \<Rightarrow> rx_result option" where
  "rx_exec f r s = rx_exec_from f r s 0"

definition rx_test :: "canon \<Rightarrow> regexp \<Rightarrow> jsstr \<Rightarrow> bool" where
  "rx_test f r s \<longleftrightarrow> rx_exec f r s \<noteq> None"

text \<open>\<open>m[0]\<close> of a match.\<close>

definition rx_text :: "jsstr \<Rightarrow> rx_result \<Rightarrow> jsstr" where
  "rx_text s m = take (rx_end m - rx_index m) (drop (rx_index m) s)"

text \<open>\<open>m[n]\<close> of a match in a string context, where a group that took no part is empty.\<close>

definition cap_text :: "nat \<Rightarrow> rx_result \<Rightarrow> jsstr" where
  "cap_text n m = (case rx_caps m n of None \<Rightarrow> [] | Some t \<Rightarrow> t)"

text \<open>
  \<open>replace\<close> with the flag \<open>g\<close> and a function of the match: the search goes on at the end of
  the match, or one code unit further when the match is empty.
\<close>

function rx_replace_all :: "canon \<Rightarrow> regexp \<Rightarrow> (rx_result \<Rightarrow> jsstr) \<Rightarrow> jsstr \<Rightarrow> nat \<Rightarrow> nat \<Rightarrow> jsstr" where
  "rx_replace_all f r g s done i =
     (if length s < i then drop done s
      else case rx_exec_from f r s i of
             None \<Rightarrow> drop done s
           | Some m \<Rightarrow>
               take (rx_index m - done) (drop done s) @ g m @
               rx_replace_all f r g s (rx_end m)
                 (if i < rx_end m \<and> rx_index m < rx_end m then rx_end m else Suc (max i (rx_end m))))"
  by pat_completeness auto
termination
  by (relation "measure (\<lambda>(f, r, g, s, d, i). Suc (length s) - i)") auto

declare rx_replace_all.simps [simp del]

text \<open>
  \<open>split\<close> with a regular expression without groups. A match that ends where the current
  piece begins does not separate; as matching moves forward inside the string, the
  condition is the comparison of \<open>e\<close> with \<open>p\<close> alone.
\<close>

function rx_split_loop :: "canon \<Rightarrow> regexp \<Rightarrow> jsstr \<Rightarrow> nat \<Rightarrow> nat \<Rightarrow> jsstr list" where
  "rx_split_loop f r s p q =
     (if length s \<le> q then [drop p s]
      else case rx_match f s r (q, \<lambda>_. None) of
             [] \<Rightarrow> rx_split_loop f r s p (Suc q)
           | (e, _) # _ \<Rightarrow>
               if e \<le> p \<or> length s < e then rx_split_loop f r s p (Suc q)
               else take (q - p) (drop p s) # rx_split_loop f r s e e)"
  by pat_completeness auto
termination
  by (relation "measures [\<lambda>(f, r, s, p, q). length s - p, \<lambda>(f, r, s, p, q). length s - q]") auto

declare rx_split_loop.simps [simp del]

definition rx_split :: "canon \<Rightarrow> regexp \<Rightarrow> jsstr \<Rightarrow> jsstr list" where
  "rx_split f r s =
     (if s = [] then (if rx_match f s r (0, \<lambda>_. None) = [] then [s] else [])
      else rx_split_loop f r s 0 0)"

section \<open>End positions\<close>

text \<open>The matcher without captures.\<close>

function rep_spans :: "nat \<Rightarrow> (nat \<Rightarrow> nat list) \<Rightarrow> nat \<Rightarrow> nat option \<Rightarrow> bool \<Rightarrow> nat \<Rightarrow> nat list" where
  "rep_spans n m mi ma greedy i =
     (if ma = Some 0 then [i]
      else
        let more = concat (map (\<lambda>j.
              if mi = 0 \<and> \<not> (i < j \<and> j \<le> n) then []
              else rep_spans n m (mi - 1) (map_option (\<lambda>k. k - 1) ma) greedy j) (m i))
        in if mi \<noteq> 0 then more else if greedy then more @ [i] else i # more)"
  by pat_completeness auto
termination
  by (relation "measures [\<lambda>(n, m, mi, ma, greedy, i). mi, \<lambda>(n, m, mi, ma, greedy, i). n - i]") auto

declare rep_spans.simps [simp del]

definition one_span :: "jsstr \<Rightarrow> (jschar \<Rightarrow> bool) \<Rightarrow> nat \<Rightarrow> nat list" where
  "one_span s P i = (if i < length s \<and> P (s ! i) then [Suc i] else [])"

primrec rx_spans :: "canon \<Rightarrow> jsstr \<Rightarrow> regexp \<Rightarrow> nat \<Rightarrow> nat list" where
  "rx_spans f s REmpty i = [i]"
| "rx_spans f s (RChar c) i = one_span s (char_eq f c) i"
| "rx_spans f s RAny i = one_span s (\<lambda>c. \<not> js_line_terminator c) i"
| "rx_spans f s (RClass neg items) i = one_span s (\<lambda>c. class_has f items c \<noteq> neg) i"
| "rx_spans f s (RSeq a b) i = concat (map (rx_spans f s b) (rx_spans f s a i))"
| "rx_spans f s (RAlt a b) i = rx_spans f s a i @ rx_spans f s b i"
| "rx_spans f s (RGroup n r) i = rx_spans f s r i"
| "rx_spans f s (RRepeat mi ma greedy r) i = rep_spans (length s) (rx_spans f s r) mi ma greedy i"
| "rx_spans f s (RLook positive r) i = (if (rx_spans f s r i \<noteq> []) = positive then [i] else [])"
| "rx_spans f s RBegin i = (if i = 0 then [i] else [])"
| "rx_spans f s REnd i = (if i = length s then [i] else [])"

lemma map_fst_concat_map:
  assumes "\<And>y. y \<in> set ys \<Longrightarrow> map fst (g y) = h (fst y)"
  shows "map fst (concat (map g ys)) = concat (map h (map fst ys))"
  using assms by (induction ys) auto

lemma rx_repeat_spans:
  assumes "\<And>x. map fst (m x) = m' (fst x)"
  shows "map fst (rx_repeat n m ns mi ma greedy x) = rep_spans n m' mi ma greedy (fst x)"
  using assms
proof (induction n m ns mi ma greedy x rule: rx_repeat.induct)
  case (1 n m ns mi ma greedy x)
  let ?ma = "map_option (\<lambda>k. k - 1) ma"
  let ?ys = "m (fst x, rx_unset ns (snd x))"
  let ?more = "concat (map (\<lambda>y. if mi = 0 \<and> \<not> (fst x < fst y \<and> fst y \<le> n) then []
    else rx_repeat n m ns (mi - 1) ?ma greedy y) ?ys)"
  let ?spans = "concat (map (\<lambda>j. if mi = 0 \<and> \<not> (fst x < j \<and> j \<le> n) then []
    else rep_spans n m' (mi - 1) ?ma greedy j) (m' (fst x)))"
  show ?case
  proof (cases "ma = Some 0")
    case True
    then show ?thesis by (simp add: rx_repeat.simps rep_spans.simps)
  next
    case False
    have "map fst ?more = concat (map (\<lambda>j. if mi = 0 \<and> \<not> (fst x < j \<and> j \<le> n) then []
        else rep_spans n m' (mi - 1) ?ma greedy j) (map fst ?ys))"
      by (rule map_fst_concat_map) (use 1 False in auto)
    then have more: "map fst ?more = ?spans" using "1.prems" by simp
    have "rx_repeat n m ns mi ma greedy x =
        (if mi \<noteq> 0 then ?more else if greedy then ?more @ [x] else x # ?more)"
      by (subst rx_repeat.simps) (simp only: False if_False Let_def)
    moreover have "rep_spans n m' mi ma greedy (fst x) =
        (if mi \<noteq> 0 then ?spans else if greedy then ?spans @ [fst x] else fst x # ?spans)"
      by (subst rep_spans.simps) (simp only: False if_False Let_def)
    ultimately show ?thesis
      by (simp only: if_distrib [of "map fst"] map_append list.map more)
  qed
qed

lemma map_fst_rx_one: "map fst (rx_one s P x) = one_span s P (fst x)"
  by (simp add: rx_one_def one_span_def split: prod.split)

theorem rx_match_spans: "map fst (rx_match f s r x) = rx_spans f s r (fst x)"
proof (induction r arbitrary: x)
  case (RSeq a b)
  then have "map fst (concat (map (rx_match f s b) (rx_match f s a x))) =
      concat (map (rx_spans f s b) (map fst (rx_match f s a x)))"
    by (intro map_fst_concat_map) simp
  then show ?case by (simp only: rx_match.simps rx_spans.simps RSeq.IH(1))
next
  case (RRepeat mi ma greedy r)
  then show ?case by (simp add: rx_repeat_spans)
next
  case (RLook positive r)
  have "rx_match f s r x = [] \<longleftrightarrow> rx_spans f s r (fst x) = []"
    using RLook by (metis list.map_disc_iff)
  then show ?case by (auto split: list.split)
next
  case (RGroup n r)
  have "map fst (rx_match f s (RGroup n r) x) = map fst (rx_match f s r x)" by auto
  then show ?case using RGroup by simp
qed (simp_all add: map_fst_rx_one)

definition rx_ends :: "canon \<Rightarrow> jsstr \<Rightarrow> regexp \<Rightarrow> nat \<Rightarrow> nat set" where
  "rx_ends f s r i = set (rx_spans f s r i)"

lemma rx_match_Nil_iff: "rx_match f s r x = [] \<longleftrightarrow> rx_ends f s r (fst x) = {}"
  using rx_match_spans [of f s r x] by (cases "rx_match f s r x") (auto simp: rx_ends_def)

named_theorems rx_ends_simps \<open>the end positions of each form of pattern\<close>

lemma rx_ends_basic [rx_ends_simps]:
  "rx_ends f s REmpty i = {i}"
  "rx_ends f s (RChar c) i = (if i < length s \<and> char_eq f c (s ! i) then {Suc i} else {})"
  "rx_ends f s RAny i = (if i < length s \<and> \<not> js_line_terminator (s ! i) then {Suc i} else {})"
  "rx_ends f s (RClass neg items) i =
     (if i < length s \<and> class_has f items (s ! i) \<noteq> neg then {Suc i} else {})"
  "rx_ends f s RBegin i = (if i = 0 then {i} else {})"
  "rx_ends f s REnd i = (if i = length s then {i} else {})"
  by (simp_all add: rx_ends_def one_span_def)

lemma rx_ends_compound [rx_ends_simps]:
  "rx_ends f s (RSeq a b) i = (\<Union>j \<in> rx_ends f s a i. rx_ends f s b j)"
  "rx_ends f s (RAlt a b) i = rx_ends f s a i \<union> rx_ends f s b i"
  "rx_ends f s (RGroup n r) i = rx_ends f s r i"
  "rx_ends f s (RLook positive r) i = (if (rx_ends f s r i \<noteq> {}) = positive then {i} else {})"
  by (auto simp: rx_ends_def)

text \<open>Matching never moves backwards, and stays inside the string.\<close>

lemma set_rep_spans:
  "j \<in> set (rep_spans n m mi ma greedy i) \<longleftrightarrow>
     (mi = 0 \<or> ma = Some 0) \<and> j = i \<or>
     ma \<noteq> Some 0 \<and> (\<exists>k \<in> set (m i). (mi = 0 \<longrightarrow> i < k \<and> k \<le> n) \<and>
       j \<in> set (rep_spans n m (mi - 1) (map_option (\<lambda>k. k - 1) ma) greedy k))"
  by (subst rep_spans.simps) (auto simp: Let_def)

lemma rep_spans_forward:
  assumes "\<And>i j. j \<in> set (m i) \<Longrightarrow> i \<le> j \<and> (i \<le> n \<longrightarrow> j \<le> n)"
    and "j \<in> set (rep_spans n m mi ma greedy i)"
  shows "i \<le> j \<and> (i \<le> n \<longrightarrow> j \<le> n)"
  using assms
proof (induction n m mi ma greedy i rule: rep_spans.induct)
  case (1 n m mi ma greedy i)
  consider "j = i" | k where "ma \<noteq> Some 0" "k \<in> set (m i)" "mi = 0 \<longrightarrow> i < k \<and> k \<le> n"
      "j \<in> set (rep_spans n m (mi - 1) (map_option (\<lambda>k. k - 1) ma) greedy k)"
    using iffD1 [OF set_rep_spans "1.prems"(2)] by blast
  then show ?case
  proof cases
    case 2
    have "k \<le> j \<and> (k \<le> n \<longrightarrow> j \<le> n)"
      by (rule "1.IH") (insert 2, (erule "1.prems"(1) | assumption | blast)+)
    then show ?thesis using "1.prems"(1) [OF 2(2)] by linarith
  qed simp
qed

lemma rx_match_forward: "j \<in> rx_ends f s r i \<Longrightarrow> i \<le> j \<and> (i \<le> length s \<longrightarrow> j \<le> length s)"
proof (induction r arbitrary: i j)
  case (RSeq a b)
  then obtain k where "k \<in> rx_ends f s a i" "j \<in> rx_ends f s b k" by (auto simp: rx_ends_simps)
  then show ?case using RSeq.IH by (meson order.trans)
next
  case (RRepeat mi ma greedy r)
  have "\<And>i j. j \<in> set (rx_spans f s r i) \<Longrightarrow> i \<le> j \<and> (i \<le> length s \<longrightarrow> j \<le> length s)"
    using RRepeat.IH by (simp add: rx_ends_def)
  moreover have "j \<in> set (rep_spans (length s) (rx_spans f s r) mi ma greedy i)"
    using RRepeat.prems by (simp add: rx_ends_def)
  ultimately show ?case by (rule rep_spans_forward)
next
  case (RAlt a b)
  then show ?case by (auto simp: rx_ends_simps)
next
  case (RGroup n r)
  then show ?case by (simp add: rx_ends_simps)
qed (auto simp: rx_ends_simps split: if_split_asm)

lemma rx_ends_forward: "j \<in> rx_ends f s r i \<Longrightarrow> i \<le> j"
  and rx_ends_inside: "j \<in> rx_ends f s r i \<Longrightarrow> i \<le> length s \<Longrightarrow> j \<le> length s"
  using rx_match_forward by blast+

section \<open>Repetitions\<close>

lemma rx_ends_repeat_0 [rx_ends_simps]: "rx_ends f s (RRepeat 0 (Some 0) g r) i = {i}"
  by (auto simp: rx_ends_def rep_spans.simps)

lemma rx_ends_repeat_iff:
  "j \<in> rx_ends f s (RRepeat mi ma g r) i \<longleftrightarrow>
     (mi = 0 \<or> ma = Some 0) \<and> j = i \<or>
     ma \<noteq> Some 0 \<and> (\<exists>k \<in> rx_ends f s r i. (mi = 0 \<longrightarrow> i < k \<and> k \<le> length s) \<and>
       j \<in> rx_ends f s (RRepeat (mi - 1) (map_option (\<lambda>k. k - 1) ma) g r) k)"
  unfolding rx_ends_def rx_spans.simps by (rule set_rep_spans)

lemma rx_ends_repeat_Suc [rx_ends_simps]:
  "rx_ends f s (RRepeat (Suc mi) None g r) i =
     (\<Union>j \<in> rx_ends f s r i. rx_ends f s (RRepeat mi None g r) j)"
  by (rule set_eqI, subst rx_ends_repeat_iff) auto

lemma rx_ends_optional [rx_ends_simps]:
  "rx_ends f s (RRepeat 0 (Some (Suc k)) g r) i =
     insert i (\<Union>j \<in> {j \<in> rx_ends f s r i. i < j \<and> j \<le> length s}. rx_ends f s (RRepeat 0 (Some k) g r) j)"
  by (rule set_eqI, subst rx_ends_repeat_iff) auto

text \<open>An unbounded repetition is the reflexive transitive closure of its proper rounds.\<close>

definition rounds :: "canon \<Rightarrow> jsstr \<Rightarrow> regexp \<Rightarrow> (nat \<times> nat) set" where
  "rounds f s r = {(i, j). j \<in> rx_ends f s r i \<and> i < j \<and> j \<le> length s}"

lemma rx_ends_star: "rx_ends f s (RRepeat 0 None g r) i = {j. (i, j) \<in> (rounds f s r)\<^sup>*}"
proof (intro set_eqI iffI)
  fix j
  assume "j \<in> rx_ends f s (RRepeat 0 None g r) i"
  then show "j \<in> {j. (i, j) \<in> (rounds f s r)\<^sup>*}"
  proof (induction "length s - i" arbitrary: i rule: less_induct)
    case less
    from less.prems consider "j = i"
      | k where "(i, k) \<in> rounds f s r" "j \<in> rx_ends f s (RRepeat 0 None g r) k"
      by (subst (asm) rx_ends_repeat_iff) (auto simp: rounds_def)
    then show ?case
    proof cases
      case 2
      then have "(k, j) \<in> (rounds f s r)\<^sup>*"
        using less.hyps [of k] by (auto simp: rounds_def)
      with 2 show ?thesis by (auto intro: converse_rtrancl_into_rtrancl)
    qed simp
  qed
next
  fix j
  assume "j \<in> {j. (i, j) \<in> (rounds f s r)\<^sup>*}"
  then have "(i, j) \<in> (rounds f s r)\<^sup>*" by simp
  then show "j \<in> rx_ends f s (RRepeat 0 None g r) i"
  proof (induction rule: converse_rtrancl_induct)
    case base
    show ?case by (subst rx_ends_repeat_iff) simp
  next
    case (step i k)
    then show ?case by (subst rx_ends_repeat_iff) (auto simp: rounds_def)
  qed
qed

text \<open>A repetition of one code unit of a class.\<close>

definition one_unit :: "canon \<Rightarrow> regexp \<Rightarrow> (jschar \<Rightarrow> bool) \<Rightarrow> bool" where
  "one_unit f r P \<longleftrightarrow> (\<forall>s i. rx_ends f s r i = (if i < length s \<and> P (s ! i) then {Suc i} else {}))"

lemma one_unit_intros:
  "one_unit f (RChar c) (char_eq f c)"
  "one_unit f RAny (\<lambda>c. \<not> js_line_terminator c)"
  "one_unit f (RClass neg items) (\<lambda>c. class_has f items c \<noteq> neg)"
  by (simp_all add: one_unit_def rx_ends_simps)

lemma rx_ends_star_unit:
  assumes "one_unit f r P" and "i \<le> length s"
  shows "rx_ends f s (RRepeat 0 None g r) i = {j. i \<le> j \<and> j \<le> length s \<and> (\<forall>k. i \<le> k \<and> k < j \<longrightarrow> P (s ! k))}"
proof -
  have unit: "(i, j) \<in> rounds f s r \<longleftrightarrow> j = Suc i \<and> i < length s \<and> P (s ! i)" for i j
    using assms(1) by (auto simp: rounds_def one_unit_def)
  have "(i, j) \<in> (rounds f s r)\<^sup>* \<longleftrightarrow> i \<le> j \<and> j \<le> length s \<and> (\<forall>k. i \<le> k \<and> k < j \<longrightarrow> P (s ! k))" for j
  proof
    assume "(i, j) \<in> (rounds f s r)\<^sup>*"
    then show "i \<le> j \<and> j \<le> length s \<and> (\<forall>k. i \<le> k \<and> k < j \<longrightarrow> P (s ! k))"
      by (induction rule: rtrancl_induct) (use assms(2) in \<open>auto simp: unit less_Suc_eq\<close>)
  next
    assume *: "i \<le> j \<and> j \<le> length s \<and> (\<forall>k. i \<le> k \<and> k < j \<longrightarrow> P (s ! k))"
    then have "i \<le> j" by simp
    from this * show "(i, j) \<in> (rounds f s r)\<^sup>*"
    proof (induction rule: dec_induct)
      case (step n)
      then have "(n, Suc n) \<in> rounds f s r" by (simp add: unit)
      with step show ?case by (auto intro: rtrancl_into_rtrancl)
    qed simp
  qed
  then show ?thesis by (simp add: rx_ends_star)
qed

lemma rx_ends_plus_unit:
  assumes "one_unit f r P" and "i \<le> length s"
  shows "rx_ends f s (RRepeat 1 None g r) i = {j. i < j \<and> j \<le> length s \<and> (\<forall>k. i \<le> k \<and> k < j \<longrightarrow> P (s ! k))}"
proof -
  have "rx_ends f s (RRepeat 1 None g r) i =
      (if i < length s \<and> P (s ! i) then rx_ends f s (RRepeat 0 None g r) (Suc i) else {})"
    using assms(1) by (simp add: rx_ends_repeat_Suc [of _ _ 0, simplified] one_unit_def)
  also have "\<dots> = {j. i < j \<and> j \<le> length s \<and> (\<forall>k. i \<le> k \<and> k < j \<longrightarrow> P (s ! k))}"
  proof (cases "i < length s \<and> P (s ! i)")
    case True
    then have "(\<forall>k. i \<le> k \<and> k < j \<longrightarrow> P (s ! k)) = (\<forall>k. Suc i \<le> k \<and> k < j \<longrightarrow> P (s ! k))" for j
      by (metis Suc_le_eq le_less)
    then show ?thesis
      using True by (simp add: rx_ends_star_unit [OF assms(1)] Suc_le_eq)
  qed (use assms(2) in auto)
  finally show ?thesis .
qed

text \<open>Patterns whose matches never contain a given unit.\<close>

fun avoids :: "jschar \<Rightarrow> regexp \<Rightarrow> bool" where
  "avoids c (RChar d) \<longleftrightarrow> d \<noteq> c"
| "avoids c RAny \<longleftrightarrow> js_line_terminator c"
| "avoids c (RClass neg items) \<longleftrightarrow> class_has None items c = neg"
| "avoids c (RSeq a b) \<longleftrightarrow> avoids c a \<and> avoids c b"
| "avoids c (RAlt a b) \<longleftrightarrow> avoids c a \<and> avoids c b"
| "avoids c (RGroup n r) \<longleftrightarrow> avoids c r"
| "avoids c (RRepeat mi ma g r) \<longleftrightarrow> avoids c r"
| "avoids c _ \<longleftrightarrow> True"

definition free_of :: "jschar \<Rightarrow> jsstr \<Rightarrow> nat \<Rightarrow> nat \<Rightarrow> bool" where
  "free_of c s i j \<longleftrightarrow> (\<forall>k. i \<le> k \<and> k < j \<longrightarrow> s ! k \<noteq> c)"

lemma free_of_same [simp]: "free_of c s i i"
  by (auto simp: free_of_def)

lemma free_of_trans: "free_of c s i k \<Longrightarrow> free_of c s k j \<Longrightarrow> free_of c s i j"
  by (metis free_of_def not_le)

lemma free_of_unit: "s ! i \<noteq> c \<Longrightarrow> free_of c s i (Suc i)"
  by (auto simp: free_of_def less_Suc_eq)

lemma rep_spans_free:
  assumes "\<And>i j. j \<in> set (m i) \<Longrightarrow> free_of c s i j" and "j \<in> set (rep_spans n m mi ma greedy i)"
  shows "free_of c s i j"
  using assms
proof (induction n m mi ma greedy i rule: rep_spans.induct)
  case (1 n m mi ma greedy i)
  consider "j = i" | k where "ma \<noteq> Some 0" "k \<in> set (m i)" "mi = 0 \<longrightarrow> i < k \<and> k \<le> n"
      "j \<in> set (rep_spans n m (mi - 1) (map_option (\<lambda>k. k - 1) ma) greedy k)"
    using iffD1 [OF set_rep_spans "1.prems"(2)] by blast
  then show ?case
  proof cases
    case 2
    have "free_of c s k j"
      by (rule "1.IH") (insert 2, (erule "1.prems"(1) | assumption | blast)+)
    then show ?thesis using "1.prems"(1) [OF 2(2)] by (rule free_of_trans [rotated])
  qed simp
qed

lemma rx_ends_avoids: "avoids c r \<Longrightarrow> j \<in> rx_ends None s r i \<Longrightarrow> free_of c s i j"
proof (induction r arbitrary: i j)
  case (RSeq a b)
  then obtain k where "k \<in> rx_ends None s a i" "j \<in> rx_ends None s b k" by (auto simp: rx_ends_simps)
  then have "free_of c s i k" "free_of c s k j" using RSeq by simp_all
  then show ?case by (rule free_of_trans)
next
  case (RRepeat mi ma greedy r)
  have "\<And>i j. j \<in> set (rx_spans None s r i) \<Longrightarrow> free_of c s i j"
    using RRepeat.IH RRepeat.prems(1) by (simp add: rx_ends_def)
  then show ?case using RRepeat.prems(2) rep_spans_free [of "rx_spans None s r" c s j]
    by (simp add: rx_ends_def)
next
  case (RAlt a b)
  then show ?case by (auto simp: rx_ends_simps)
next
  case (RGroup n r)
  then show ?case by (simp add: rx_ends_simps)
qed (auto simp: rx_ends_simps char_eq_def intro: free_of_unit split: if_split_asm)

section \<open>Tests\<close>

lemma rx_first_None: "rx_first f r s is = None \<longleftrightarrow> (\<forall>i \<in> set is. rx_ends f s r i = {})"
  by (induction "is") (auto simp: rx_match_Nil_iff split: list.split dest: arg_cong [of _ _ "\<lambda>x. x = []"])

lemma rx_test_iff: "rx_test f r s \<longleftrightarrow> (\<exists>i \<le> length s. rx_ends f s r i \<noteq> {})"
  unfolding rx_test_def rx_exec_def rx_exec_from_def rx_first_None
  by (auto simp del: upt_Suc simp: less_Suc_eq_le)

lemma rx_test_anchored:
  "rx_test f (RSeq RBegin (RSeq r REnd)) s \<longleftrightarrow> length s \<in> rx_ends f s r 0"
  by (auto simp: rx_test_iff rx_ends_simps split: if_split_asm)

section \<open>Splitting at runs of a unit\<close>

lemma rep_spans_run:
  assumes "i \<le> length s"
  shows "\<exists>xs. rep_spans (length s) (one_span s P) 0 None True i = (i + length (takeWhile P (drop i s))) # xs"
  using assms
proof (induction "length s - i" arbitrary: i rule: less_induct)
  case less
  show ?case
  proof (cases "i < length s \<and> P (s ! i)")
    case True
    then have "length s - Suc i < length s - i" "Suc i \<le> length s" by linarith+
    then obtain xs where "rep_spans (length s) (one_span s P) 0 None True (Suc i) =
        (Suc i + length (takeWhile P (drop (Suc i) s))) # xs"
      using less.hyps [of "Suc i"] by blast
    moreover have "drop i s = s ! i # drop (Suc i) s" using True by (simp add: Cons_nth_drop_Suc)
    ultimately show ?thesis
      using True by (subst rep_spans.simps) (simp add: one_span_def)
  next
    case False
    then have "takeWhile P (drop i s) = []"
      by (cases "drop i s") (auto simp: hd_drop_conv_nth [symmetric] dest: arg_cong [of _ _ hd])
    with False show ?thesis by (subst rep_spans.simps) (auto simp: one_span_def)
  qed
qed

lemma rx_match_run:
  assumes "i < length s"
  shows "if s ! i = c
    then \<exists>cap xs. rx_match None s (RRepeat 1 None True (RChar c)) (i, cap0) = (i + length (takeWhile (\<lambda>x. x = c) (drop i s)), cap) # xs
    else rx_match None s (RRepeat 1 None True (RChar c)) (i, cap0) = []"
proof -
  let ?r = "RRepeat 1 None True (RChar c)"
  have eq: "rx_spans None s (RChar c) = one_span s (\<lambda>x. x = c)"
    by (auto simp: char_eq_def one_span_def)
  have drop: "drop i s = s ! i # drop (Suc i) s" using assms by (simp add: Cons_nth_drop_Suc)
  have spans: "map fst (rx_match None s ?r (i, cap0)) = rep_spans (length s) (one_span s (\<lambda>x. x = c)) 1 None True i"
    using rx_match_spans [of None s ?r "(i, cap0)"] by (simp add: eq)
  obtain xs where "rep_spans (length s) (one_span s (\<lambda>x. x = c)) 0 None True (Suc i) =
      (Suc i + length (takeWhile (\<lambda>x. x = c) (drop (Suc i) s))) # xs"
    using rep_spans_run [of "Suc i" s] assms by auto
  then have "rep_spans (length s) (one_span s (\<lambda>x. x = c)) 1 None True i =
      (if s ! i = c then (i + length (takeWhile (\<lambda>x. x = c) (drop i s))) # xs else [])"
    using assms drop by (subst rep_spans.simps) (simp add: one_span_def)
  then show ?thesis using spans by (auto simp: map_eq_Cons_conv)
qed

lemma js_split_runs_Cons:
  "js_split_runs P (a # s) =
     (if P a then [] # js_split_runs P (dropWhile P s)
      else (a # hd (js_split_runs P s)) # tl (js_split_runs P s))"
  by (subst (1 3 4) js_split_runs.simps) (simp add: Let_def)

lemma js_split_runs_nonempty [simp]: "js_split_runs P s \<noteq> []"
  by (subst js_split_runs.simps) (simp add: Let_def)

lemma js_split_runs_Nil [simp]: "js_split_runs P [] = [[]]"
  by (subst js_split_runs.simps) simp

lemma rx_split_loop_runs:
  assumes "p \<le> q" and "q \<le> length s"
  shows "rx_split_loop None (RRepeat 1 None True (RChar c)) s p q =
    (take (q - p) (drop p s) @ hd (js_split_runs (\<lambda>x. x = c) (drop q s))) # tl (js_split_runs (\<lambda>x. x = c) (drop q s))"
  using assms
proof (induction "length s - q" arbitrary: p q rule: less_induct)
  case less
  let ?runs = "js_split_runs (\<lambda>x. x = c)" and ?r = "RRepeat 1 None True (RChar c)"
  show ?case
  proof (cases "q < length s")
    case False
    then show ?thesis using less.prems by (subst rx_split_loop.simps) simp
  next
    case True
    have drop: "drop q s = s ! q # drop (Suc q) s" using True by (simp add: Cons_nth_drop_Suc)
    show ?thesis
    proof (cases "s ! q = c")
      case True': True
      let ?e = "q + length (takeWhile (\<lambda>x. x = c) (drop q s))"
      obtain cap xs where m: "rx_match None s ?r (q, \<lambda>_. None) = (?e, cap) # xs"
        using rx_match_run [OF True, of c "\<lambda>_. None"] True' by auto
      have e: "q < ?e" "?e \<le> length s"
        using True True' length_takeWhile_le [of "\<lambda>x. x = c" "drop q s"] by (simp_all add: drop)
      have "drop ?e s = dropWhile (\<lambda>x. x = c) (drop (Suc q) s)"
        using True' by (simp add: drop dropWhile_eq_drop add.commute [of q])
      moreover have "rx_split_loop None ?r s ?e ?e = ?runs (drop ?e s)"
        using less.hyps [of ?e ?e, OF diff_less_mono2 [OF e(1) True] order_refl e(2)] by simp
      moreover have "\<not> length s \<le> q" "\<not> (?e \<le> p \<or> length s < ?e)" using True e less.prems by linarith+
      then have "rx_split_loop None ?r s p q = take (q - p) (drop p s) # rx_split_loop None ?r s ?e ?e"
        by (subst rx_split_loop.simps) (simp only: if_False m list.case prod.case)
      ultimately show ?thesis using True' by (simp add: drop js_split_runs_Cons)
    next
      case False
      have "rx_split_loop None ?r s p q = rx_split_loop None ?r s p (Suc q)"
        using rx_match_run [OF True, of c "\<lambda>_. None"] True False
        by (subst rx_split_loop.simps) (simp del: rx_match.simps One_nat_def)
      also have "\<dots> = (take (Suc q - p) (drop p s) @ hd (?runs (drop (Suc q) s))) # tl (?runs (drop (Suc q) s))"
        using less.hyps [of "Suc q" p] less.prems True by linarith
      also have "take (Suc q - p) (drop p s) = take (q - p) (drop p s) @ [s ! q]"
        using less.prems True by (simp add: Suc_diff_le take_Suc_conv_app_nth)
      finally show ?thesis using False by (simp add: drop js_split_runs_Cons)
    qed
  qed
qed

theorem rx_split_runs:
  "rx_split None (RRepeat 1 None True (RChar c)) s = js_split_runs (\<lambda>x. x = c) s"
proof (cases "s = []")
  case True
  have "rx_ends None [] (RRepeat 1 None True (RChar c)) 0 = {}" by (simp add: rx_ends_simps)
  then show ?thesis using True by (simp add: rx_split_def rx_match_Nil_iff del: rx_match.simps)
next
  case False
  then show ?thesis using rx_split_loop_runs [of 0 0 s c] by (simp add: rx_split_def)
qed

lemma js_split_runs_pieces: "x \<in> set (js_split_runs P s) \<Longrightarrow> a \<in> set x \<Longrightarrow> \<not> P a"
proof (induction P s rule: js_split_runs.induct)
  case (1 P s)
  have "x = takeWhile (\<lambda>c. \<not> P c) s \<or>
      dropWhile (\<lambda>c. \<not> P c) s \<noteq> [] \<and> x \<in> set (js_split_runs P (dropWhile P (dropWhile (\<lambda>c. \<not> P c) s)))"
    using "1.prems"(1) by (subst (asm) js_split_runs.simps) (auto simp: Let_def split: if_split_asm)
  then show ?case using 1 by (auto dest: set_takeWhileD)
qed

lemma js_split_runs_join:
  assumes "xs \<noteq> []" and "\<forall>x \<in> set xs. x \<noteq> [] \<and> c \<notin> set x"
  shows "js_split_runs (\<lambda>x. x = c) (js_join [c] xs) = xs"
  using assms
proof (induction xs)
  case (Cons x xs)
  have x: "x \<noteq> []" "\<forall>a \<in> set x. a \<noteq> c" using Cons.prems by auto
  show ?case
  proof (cases xs)
    case Nil
    then show ?thesis using x by (subst js_split_runs.simps) (simp add: Let_def takeWhile_eq_all_conv [THEN iffD2] dropWhile_eq_Nil_conv [THEN iffD2])
  next
    case (Cons y ys)
    then have "y \<noteq> []" "c \<notin> set y" using Cons.prems by auto
    then have "dropWhile (\<lambda>x. x = c) (js_join [c] xs) = js_join [c] xs"
      by (cases y; cases ys) (auto simp: Cons)
    then show ?thesis
      using x Cons Cons.IH Cons.prems
      by (subst js_split_runs.simps) (simp add: Let_def js_join_Cons)
  qed
qed simp

section \<open>Captures\<close>

text \<open>A match changes the captures of the groups of the pattern only.\<close>

lemma rx_repeat_caps:
  assumes "\<And>x y. y \<in> set (m x) \<Longrightarrow> snd y n = snd x n" and "n \<notin> set ns"
    and "y \<in> set (rx_repeat len m ns mi ma greedy x)"
  shows "snd y n = snd x n"
  using assms
proof (induction len m ns mi ma greedy x rule: rx_repeat.induct)
  case (1 len m ns mi ma greedy x)
  consider "y = x" | z where "ma \<noteq> Some 0" "z \<in> set (m (fst x, rx_unset ns (snd x)))"
      "\<not> (mi = 0 \<and> \<not> (fst x < fst z \<and> fst z \<le> len))"
      "y \<in> set (rx_repeat len m ns (mi - 1) (map_option (\<lambda>k. k - 1) ma) greedy z)"
    using "1.prems"(3)
    by (subst (asm) rx_repeat.simps) (auto simp: Let_def split: if_split_asm)
  then show ?case
  proof cases
    case 2
    have "snd y n = snd z n"
      by (rule "1.IH") (insert 2 "1.prems"(2), (erule "1.prems"(1) | assumption | blast)+)
    then show ?thesis
      using "1.prems"(1) [OF 2(2)] "1.prems"(2) by (simp add: rx_unset_def)
  qed simp
qed

lemma rx_match_caps: "n \<notin> set (rx_groups r) \<Longrightarrow> y \<in> set (rx_match f s r x) \<Longrightarrow> snd y n = snd x n"
proof (induction r arbitrary: x y)
  case (RRepeat mi ma greedy r)
  then show ?case by (auto elim!: rx_repeat_caps [rotated 2])
next
  case (RLook positive r)
  have "rx_match f s r x = z # zs \<Longrightarrow> snd z n = snd x n" for z zs
    using RLook.IH [of z x] RLook.prems(1) by simp
  then show ?case using RLook.prems(2) by (auto split: list.splits if_split_asm)
next
  case (RSeq a b)
  then obtain z where "z \<in> set (rx_match f s a x)" "y \<in> set (rx_match f s b z)" by auto
  then show ?case using RSeq.IH(1) [of z x] RSeq.IH(2) [of y z] RSeq.prems(1) by simp
next
  case (RGroup k r)
  then obtain j cap where "(j, cap) \<in> set (rx_match f s r x)" "snd y n = cap n" by auto
  then show ?case using RGroup.IH [of "(j, cap)" x] RGroup.prems(1) by simp
qed (auto simp: rx_one_def split: if_split_asm prod.splits)

lemma rx_match_ends: "y \<in> set (rx_match f s r x) \<Longrightarrow> fst y \<in> rx_ends f s r (fst x)"
  using rx_match_spans [of f s r x] by (metis image_eqI list.set_map rx_ends_def)

text \<open>A lazy repetition of any unit tries the ends from the nearest to the last.\<close>

lemma rx_match_lazy:
  assumes "\<And>x. rx_match f s r x = rx_one s (\<lambda>_. True) x" and "rx_groups r = []" and "i \<le> length s"
  shows "rx_match f s (RRepeat 0 None False r) (i, cap) = map (\<lambda>j. (j, cap)) [i..<Suc (length s)]"
  using assms(3)
proof (induction "length s - i" arbitrary: i rule: less_induct)
  case less
  have unset: "rx_unset [] cap = cap" by (simp add: rx_unset_def)
  show ?case
  proof (cases "i < length s")
    case True
    then have "rx_match f s (RRepeat 0 None False r) (Suc i, cap) = map (\<lambda>j. (j, cap)) [Suc i..<Suc (length s)]"
      using less.hyps [of "Suc i"] by linarith
    then have "rx_match f s (RRepeat 0 None False r) (i, cap) = (i, cap) # map (\<lambda>j. (j, cap)) [Suc i..<Suc (length s)]"
      using True assms(1,2) by (simp add: rx_repeat.simps [of _ _ _ _ _ _ "(i, cap)"] rx_one_def unset del: upt_Suc)
    then show ?thesis using True by (simp add: upt_conv_Cons del: upt_Suc)
  next
    case False
    then show ?thesis
      using less.prems assms(1,2)
      by (simp add: rx_repeat.simps [of _ _ _ _ _ _ "(length s, cap)"] rx_one_def unset)
  qed
qed

lemma hd_concat_map:
  assumes "\<And>x. x \<in> set xs \<Longrightarrow> g x = []" and "g y \<noteq> []"
  shows "concat (map g (xs @ y # ys)) \<noteq> [] \<and> hd (concat (map g (xs @ y # ys))) = hd (g y)"
  using assms by (induction xs) auto

end
