(* ===== verification/JS_RegExp_Parser.thy ===== *)
theory JS_RegExp_Parser
  imports JS_RegExp
begin

text \<open>
  The constructor \<open>new RegExp(text)\<close>: a lexer, and a parser that keeps the open groups on a
  stack, for the syntax of regular expressions of ECMAScript 2015 to 2017 without the flag
  \<open>u\<close>, with the additions of its Annex B (lone braces and brackets, identity and octal
  escapes, quantified lookaheads). The lookbehinds and named groups of later editions are not
  part of it.

  Back references and word boundaries are recognised as valid syntax, but the patterns of
  \<open>JS_RegExp\<close> have no form for them; \<open>rx_parse\<close> then returns \<open>None\<close> for the pattern. The
  modelled sources never build such a pattern, they only ask whether a text is valid.
\<close>

section \<open>Tokens\<close>

datatype group_kind = GCapture | GPlain | GLook bool

datatype rx_token =
    TChar jschar
  | TAny
  | TBegin
  | TEnd
  | TOther bool
  | TOpen group_kind
  | TClose
  | TBar
  | TClass bool "class_item list"
  | TQuantifier nat "nat option" bool

datatype class_atom =
    AUnit jschar
  | ADash
  | ASet class_item

definition hex_value :: "jschar \<Rightarrow> nat option" where
  "hex_value c =
     (if 48 \<le> c \<and> c \<le> 57 then Some (unat c - 48)
      else if 65 \<le> c \<and> c \<le> 70 then Some (unat c - 55)
      else if 97 \<le> c \<and> c \<le> 102 then Some (unat c - 87)
      else None)"

fun hex_digits :: "nat \<Rightarrow> nat \<Rightarrow> jsstr \<Rightarrow> (nat \<times> jsstr) option" where
  "hex_digits 0 v s = Some (v, s)"
| "hex_digits (Suc n) v [] = None"
| "hex_digits (Suc n) v (c # s) =
     (case hex_value c of None \<Rightarrow> None | Some d \<Rightarrow> hex_digits n (16 * v + d) s)"

definition octal_digit :: "jschar \<Rightarrow> bool" where
  "octal_digit c \<longleftrightarrow> 48 \<le> c \<and> c \<le> 55"

text \<open>A legacy octal escape takes as many digits as stay below 256.\<close>

fun octal_digits :: "nat \<Rightarrow> nat \<Rightarrow> jsstr \<Rightarrow> nat \<times> jsstr" where
  "octal_digits 0 v s = (v, s)"
| "octal_digits (Suc n) v [] = (v, [])"
| "octal_digits (Suc n) v (c # s) =
     (if octal_digit c \<and> 8 * v + (unat c - 48) < 256 then octal_digits n (8 * v + (unat c - 48)) s
      else (v, c # s))"

definition ascii_letter :: "jschar \<Rightarrow> bool" where
  "ascii_letter c \<longleftrightarrow> 65 \<le> c \<and> c \<le> 90 \<or> 97 \<le> c \<and> c \<le> 122"

text \<open>The escapes for one code unit: \<open>c\<close> is the unit behind the backslash, \<open>s\<close> what follows.\<close>

definition char_escape :: "jschar \<Rightarrow> jsstr \<Rightarrow> jschar \<times> jsstr" where
  "char_escape c s =
     (if c = 116 then (9, s) else if c = 110 then (10, s) else if c = 118 then (11, s)
      else if c = 102 then (12, s) else if c = 114 then (13, s)
      else if c = 99 then
        (case s of d # s' \<Rightarrow> if ascii_letter d then (word_of_nat (unat d mod 32), s') else (92, c # s)
         | [] \<Rightarrow> (92, c # s))
      else if c = 120 then
        (case hex_digits 2 0 s of Some (v, s') \<Rightarrow> (word_of_nat v, s') | None \<Rightarrow> (c, s))
      else if c = 117 then
        (case hex_digits 4 0 s of Some (v, s') \<Rightarrow> (word_of_nat v, s') | None \<Rightarrow> (c, s))
      else if octal_digit c then
        (let (v, s') = octal_digits 2 (unat c - 48) s in (word_of_nat v, s'))
      else (c, s))"

text \<open>The classes \<open>\d\<close>, \<open>\s\<close>, \<open>\w\<close> and their complements.\<close>

definition set_escape :: "jschar \<Rightarrow> class_item option" where
  "set_escape c =
     (if c = 100 then Some (CDigit True) else if c = 68 then Some (CDigit False)
      else if c = 115 then Some (CSpace True) else if c = 83 then Some (CSpace False)
      else if c = 119 then Some (CWord True) else if c = 87 then Some (CWord False)
      else None)"

lemma hex_digits_length: "hex_digits n v s = Some (w, r) \<Longrightarrow> length r \<le> length s"
  by (induction n v s rule: hex_digits.induct) (auto split: option.splits)

lemma octal_digits_length: "octal_digits n v s = (w, r) \<Longrightarrow> length r \<le> length s"
  by (induction n v s rule: octal_digits.induct) (auto split: if_split_asm)

lemma char_escape_length: "length (snd (char_escape c s)) \<le> Suc (length s)"
  by (auto simp: char_escape_def Let_def split: option.splits list.splits prod.splits
      dest: hex_digits_length octal_digits_length)

section \<open>Character classes\<close>

text \<open>One atom of a class, where \<open>\c\<close> also takes a digit or an underscore, and the atoms up to the closing bracket with what follows it.\<close>

definition class_control :: "jschar \<Rightarrow> bool" where
  "class_control c \<longleftrightarrow> 48 \<le> c \<and> c \<le> 57 \<or> c = 95"

fun next_atom :: "jsstr \<Rightarrow> (class_atom \<times> jsstr) option" where
  "next_atom [] = None"
| "next_atom (c # s) =
     (if c = 92 then
        (case s of
           [] \<Rightarrow> None
         | d # s' \<Rightarrow>
             (case set_escape d of
                Some it \<Rightarrow> Some (ASet it, s')
              | None \<Rightarrow>
                  if d = 98 then Some (AUnit 8, s')
                  else if d = 99 \<and> s' \<noteq> [] \<and> class_control (hd s')
                  then Some (AUnit (word_of_nat (unat (hd s') mod 32)), tl s')
                  else Some (apfst AUnit (char_escape d s'))))
      else Some (if c = 45 then ADash else AUnit c, s))"

declare next_atom.simps [simp del]

lemma next_atom_length: "next_atom s = Some (a, r) \<Longrightarrow> length r < length s"
proof (induction s rule: next_atom.induct)
  case (2 c s)
  then show ?case
    using char_escape_length [of "hd s" "tl s"]
    by (cases s) (auto simp: next_atom.simps apfst_def map_prod_def split: if_split_asm option.splits prod.splits)
qed (simp add: next_atom.simps)

function class_atoms :: "jsstr \<Rightarrow> (class_atom list \<times> jsstr) option" where
  "class_atoms s =
     (case s of
        [] \<Rightarrow> None
      | c # t \<Rightarrow>
          if c = 93 then Some ([], t)
          else case next_atom s of
                 None \<Rightarrow> None
               | Some (a, r) \<Rightarrow> map_option (apfst ((#) a)) (class_atoms r))"
  by pat_completeness auto
termination
  by (relation "measure length") (auto dest: next_atom_length)

declare class_atoms.simps [simp del]

definition atom_item :: "class_atom \<Rightarrow> class_item" where
  "atom_item a = (case a of AUnit c \<Rightarrow> CRange c c | ADash \<Rightarrow> CRange 45 45 | ASet it \<Rightarrow> it)"

definition atom_unit :: "class_atom \<Rightarrow> jschar option" where
  "atom_unit a = (case a of AUnit c \<Rightarrow> Some c | ADash \<Rightarrow> Some 45 | ASet it \<Rightarrow> None)"

text \<open>A dash between two atoms makes a range, which must not be out of order.\<close>

fun class_ranges :: "class_atom list \<Rightarrow> js_error + class_item list" where
  "class_ranges (a # ADash # b # as) =
     (case (atom_unit a, atom_unit b) of
        (Some lo, Some hi) \<Rightarrow>
          if hi < lo then Inl (JsError ''SyntaxError: range out of order'')
          else ebind (class_ranges as) (\<lambda>its. Inr (CRange lo hi # its))
      | _ \<Rightarrow> ebind (class_ranges as) (\<lambda>its. Inr (atom_item a # CRange 45 45 # atom_item b # its)))"
| "class_ranges (a # as) = ebind (class_ranges as) (\<lambda>its. Inr (atom_item a # its))"
| "class_ranges [] = Inr []"

text \<open>The class behind an opening bracket.\<close>

definition lex_class :: "jsstr \<Rightarrow> js_error + rx_token \<times> jsstr" where
  "lex_class s =
     (let (neg, t) = (case s of c # t \<Rightarrow> if c = 94 then (True, t) else (False, s) | [] \<Rightarrow> (False, s))
      in case class_atoms t of
           None \<Rightarrow> Inl (JsError ''SyntaxError: unterminated character class'')
         | Some (as, r) \<Rightarrow> ebind (class_ranges as) (\<lambda>its. Inr (TClass neg its, r)))"

lemma class_atoms_length: "class_atoms s = Some (as, r) \<Longrightarrow> length r < length s"
proof (induction s arbitrary: as r rule: class_atoms.induct)
  case (1 s)
  show ?case
  proof (cases "\<exists>t. s = 93 # t")
    case True
    then show ?thesis using "1.prems" by (auto simp: class_atoms.simps)
  next
    case False
    then obtain a q as' c t where s: "s = c # t" "c \<noteq> 93"
      and q: "next_atom s = Some (a, q)" "class_atoms q = Some (as', r)"
      using "1.prems" unfolding class_atoms.simps [of s]
      by (auto split: list.splits if_split_asm option.splits)
    have "length r < length q" by (rule "1.IH" [OF s q(1) refl q(2)])
    then show ?thesis using next_atom_length [OF q(1)] by simp
  qed
qed

lemma lex_class_length: "lex_class s = Inr (t, r) \<Longrightarrow> length r < length s"
  by (auto simp: lex_class_def ebind_Inr_iff Let_def split: list.splits if_split_asm option.splits
      dest!: class_atoms_length)

section \<open>The lexer\<close>

definition lazy_mark :: "jsstr \<Rightarrow> bool \<times> jsstr" where
  "lazy_mark s = (case s of c # t \<Rightarrow> if c = 63 then (False, t) else (True, s) | [] \<Rightarrow> (True, s))"

definition decimal_digit :: "jschar \<Rightarrow> bool" where
  "decimal_digit c \<longleftrightarrow> 48 \<le> c \<and> c \<le> 57"

definition decimal :: "jsstr \<Rightarrow> nat" where
  "decimal s = foldl (\<lambda>v c. 10 * v + (unat c - 48)) 0 s"

text \<open>The repetition behind an opening brace; \<open>None\<close> when the brace is an ordinary unit.\<close>

definition brace_quantifier :: "jsstr \<Rightarrow> (nat \<times> nat option \<times> jsstr) option" where
  "brace_quantifier s =
     (let lo = takeWhile decimal_digit s; r = dropWhile decimal_digit s
      in if lo = [] then None
         else case r of
           c # t \<Rightarrow>
             if c = 125 then Some (decimal lo, Some (decimal lo), t)
             else if c = 44 then
               (let hi = takeWhile decimal_digit t
                in case dropWhile decimal_digit t of
                     d # u \<Rightarrow>
                       if d = 125 then Some (decimal lo, if hi = [] then None else Some (decimal hi), u)
                       else None
                   | [] \<Rightarrow> None)
             else None
         | [] \<Rightarrow> None)"

definition quantifier :: "nat \<Rightarrow> nat option \<Rightarrow> jsstr \<Rightarrow> js_error + rx_token \<times> jsstr" where
  "quantifier lo hi s =
     (case hi of
        Some h \<Rightarrow>
          if h < lo then Inl (JsError ''SyntaxError: numbers out of order'')
          else let (greedy, t) = lazy_mark s in Inr (TQuantifier lo hi greedy, t)
      | None \<Rightarrow> let (greedy, t) = lazy_mark s in Inr (TQuantifier lo hi greedy, t))"

definition lex_escape :: "jsstr \<Rightarrow> js_error + rx_token \<times> jsstr" where
  "lex_escape s =
     (case s of
        [] \<Rightarrow> Inl (JsError ''SyntaxError: backslash at end of pattern'')
      | d # t \<Rightarrow>
          (case set_escape d of
             Some it \<Rightarrow> Inr (TClass False [it], t)
           | None \<Rightarrow>
               if d = 98 \<or> d = 66 then Inr (TOther False, t)
               else if 49 \<le> d \<and> d \<le> 57 then Inr (TOther True, t)
               else Inr (apfst TChar (char_escape d t))))"

definition lex_group :: "jsstr \<Rightarrow> js_error + rx_token \<times> jsstr" where
  "lex_group s =
     (if take 1 s \<noteq> [63] then Inr (TOpen GCapture, s)
      else if take 2 s = [63, 58] then Inr (TOpen GPlain, drop 2 s)
      else if take 2 s = [63, 61] then Inr (TOpen (GLook True), drop 2 s)
      else if take 2 s = [63, 33] then Inr (TOpen (GLook False), drop 2 s)
      else Inl (JsError ''SyntaxError: invalid group''))"

definition next_token :: "jschar \<Rightarrow> jsstr \<Rightarrow> js_error + rx_token \<times> jsstr" where
  "next_token c s =
     (if c = 92 then lex_escape s
      else if c = 91 then lex_class s
      else if c = 40 then lex_group s
      else if c = 41 then Inr (TClose, s)
      else if c = 124 then Inr (TBar, s)
      else if c = 46 then Inr (TAny, s)
      else if c = 94 then Inr (TBegin, s)
      else if c = 36 then Inr (TEnd, s)
      else if c = 42 then quantifier 0 None s
      else if c = 43 then quantifier 1 None s
      else if c = 63 then quantifier 0 (Some 1) s
      else if c = 123 then
        (case brace_quantifier s of Some (lo, hi, t) \<Rightarrow> quantifier lo hi t | None \<Rightarrow> Inr (TChar c, s))
      else Inr (TChar c, s))"

lemma lazy_mark_length: "lazy_mark s = (b, t) \<Longrightarrow> length t \<le> length s"
  by (auto simp: lazy_mark_def split: list.splits if_split_asm)

lemma quantifier_length: "quantifier lo hi s = Inr (t, r) \<Longrightarrow> length r \<le> length s"
  by (auto simp: quantifier_def Let_def split: option.splits if_split_asm prod.splits
      dest: lazy_mark_length)

lemma brace_quantifier_length:
  assumes "brace_quantifier s = Some (lo, hi, r)"
  shows "length r < length s"
proof -
  have "length (dropWhile decimal_digit t) \<le> length t" for t
    by (rule length_dropWhile_le)
  from this [of s] this [of "tl (dropWhile decimal_digit s)"] show ?thesis
    using assms
    by (auto simp: brace_quantifier_def Let_def split: list.splits if_split_asm)
qed

lemma lex_escape_length: "lex_escape s = Inr (t, r) \<Longrightarrow> length r \<le> length s"
  using char_escape_length [of "hd s" "tl s"]
  by (auto simp: lex_escape_def apfst_def map_prod_def
      split: list.splits option.splits if_split_asm prod.splits)

lemma lex_group_length: "lex_group s = Inr (t, r) \<Longrightarrow> length r \<le> length s"
  by (auto simp: lex_group_def split: if_split_asm)

lemma next_token_length: "next_token c s = Inr (t, r) \<Longrightarrow> length r \<le> length s"
  by (auto simp: next_token_def split: if_split_asm option.splits
      dest!: lex_escape_length lex_class_length lex_group_length quantifier_length
        brace_quantifier_length)

function rx_lex :: "jsstr \<Rightarrow> js_error + rx_token list" where
  "rx_lex [] = Inr []"
| "rx_lex (c # s) =
     ebind (next_token c s) (\<lambda>(t, r). ebind (rx_lex r) (\<lambda>ts. Inr (t # ts)))"
  by pat_completeness auto
termination
  by (relation "measure length") (auto dest: next_token_length simp: less_Suc_eq_le)

section \<open>The parser\<close>

text \<open>
  The terms of the alternative being read stand in reverse order, each with a flag that says
  whether a quantifier may follow it; the finished alternatives of the group stand in reverse
  order too.
\<close>

record rx_frame =
  kind :: group_kind
  capture :: nat
  alternatives :: "regexp list"
  terms :: "(regexp \<times> bool) list"

record rx_parser =
  outer :: "rx_frame list"
  current :: rx_frame
  captures :: nat
  modelled :: bool

fun seq_re :: "regexp list \<Rightarrow> regexp" where
  "seq_re [] = REmpty"
| "seq_re [r] = r"
| "seq_re (r # rs) = RSeq r (seq_re rs)"

fun alt_re :: "regexp list \<Rightarrow> regexp" where
  "alt_re [] = REmpty"
| "alt_re [r] = r"
| "alt_re (r # rs) = RAlt r (alt_re rs)"

definition new_frame :: "group_kind \<Rightarrow> nat \<Rightarrow> rx_frame" where
  "new_frame k n = \<lparr>kind = k, capture = n, alternatives = [], terms = []\<rparr>"

definition add_term :: "regexp \<Rightarrow> bool \<Rightarrow> rx_parser \<Rightarrow> rx_parser" where
  "add_term r q p = p\<lparr>current := (current p)\<lparr>terms := (r, q) # terms (current p)\<rparr>\<rparr>"

definition frame_alternative :: "rx_frame \<Rightarrow> regexp" where
  "frame_alternative f = seq_re (rev (map fst (terms f)))"

definition frame_body :: "rx_frame \<Rightarrow> regexp" where
  "frame_body f = alt_re (rev (frame_alternative f # alternatives f))"

definition frame_re :: "rx_frame \<Rightarrow> regexp" where
  "frame_re f =
     (case kind f of
        GCapture \<Rightarrow> RGroup (capture f) (frame_body f)
      | GPlain \<Rightarrow> frame_body f
      | GLook b \<Rightarrow> RLook b (frame_body f))"

definition open_group :: "group_kind \<Rightarrow> rx_parser \<Rightarrow> rx_parser" where
  "open_group k p =
     (let n = (if k = GCapture then Suc (captures p) else captures p)
      in p\<lparr>outer := current p # outer p, current := new_frame k n, captures := n\<rparr>)"

definition close_group :: "rx_parser \<Rightarrow> js_error + rx_parser" where
  "close_group p =
     (case outer p of
        [] \<Rightarrow> Inl (JsError ''SyntaxError: unmatched parenthesis'')
      | f # fs \<Rightarrow> Inr (add_term (frame_re (current p)) True (p\<lparr>outer := fs, current := f\<rparr>)))"

definition repeat_term :: "nat \<Rightarrow> nat option \<Rightarrow> bool \<Rightarrow> rx_parser \<Rightarrow> js_error + rx_parser" where
  "repeat_term lo hi greedy p =
     (case terms (current p) of
        (r, True) # ts \<Rightarrow>
          Inr (p\<lparr>current := (current p)\<lparr>terms := (RRepeat lo hi greedy r, False) # ts\<rparr>\<rparr>)
      | _ \<Rightarrow> Inl (JsError ''SyntaxError: nothing to repeat''))"

fun rx_step :: "rx_token \<Rightarrow> rx_parser \<Rightarrow> js_error + rx_parser" where
  "rx_step (TChar c) p = Inr (add_term (RChar c) True p)"
| "rx_step TAny p = Inr (add_term RAny True p)"
| "rx_step TBegin p = Inr (add_term RBegin False p)"
| "rx_step TEnd p = Inr (add_term REnd False p)"
| "rx_step (TOther q) p = Inr ((add_term REmpty q p)\<lparr>modelled := False\<rparr>)"
| "rx_step (TClass neg its) p = Inr (add_term (RClass neg its) True p)"
| "rx_step TBar p =
     Inr (p\<lparr>current := (current p)\<lparr>alternatives := frame_alternative (current p) # alternatives (current p),
                                   terms := []\<rparr>\<rparr>)"
| "rx_step (TOpen k) p = Inr (open_group k p)"
| "rx_step TClose p = close_group p"
| "rx_step (TQuantifier lo hi greedy) p = repeat_term lo hi greedy p"

fun rx_steps :: "rx_token list \<Rightarrow> rx_parser \<Rightarrow> js_error + rx_parser" where
  "rx_steps [] p = Inr p"
| "rx_steps (t # ts) p = ebind (rx_step t p) (rx_steps ts)"

definition rx_start :: rx_parser where
  "rx_start = \<lparr>outer = [], current = new_frame GPlain 0, captures = 0, modelled = True\<rparr>"

definition rx_finish :: "rx_parser \<Rightarrow> js_error + regexp option" where
  "rx_finish p =
     (if outer p \<noteq> [] then Inl (JsError ''SyntaxError: unterminated group'')
      else Inr (if modelled p then Some (frame_body (current p)) else None))"

definition rx_parse :: "jsstr \<Rightarrow> js_error + regexp option" where
  "rx_parse s = ebind (rx_lex s) (\<lambda>ts. ebind (rx_steps ts rx_start) rx_finish)"

lemma rx_steps_append:
  "rx_steps (ts @ us) p = ebind (rx_steps ts p) (rx_steps us)"
  by (induction ts arbitrary: p) (auto simp: ebind_def split: sum.splits)

end
