(* ===== verification/Minimatch_Parse.thy ===== *)
theory Minimatch_Parse
  imports JS_RegExp_Parser
begin

text \<open>
  The translation of one segment of a glob into a regular expression: \<open>parse\<close> of the module
  \<open>minimatch\<close> (\<open>wordcut.js\<close>, lines 3387 to 3751) with its tables and helpers.

  \<^item> The variables of \<open>parse\<close> are the record \<open>glob_state\<close>. \<open>inClass\<close>, \<open>classStart\<close> and
    \<open>reClassStart\<close> are one field: \<open>Some (reClassStart, cs)\<close> inside a class, where \<open>cs\<close> is the
    text since the opening bracket, so that \<open>i === classStart + 1\<close> is \<open>cs = []\<close>.
  \<^item> \<open>glob_step\<close> is one round of the loop, except for the slash, which ends it, and the closing
    bracket of a class, which may call \<open>parse\<close> again; those are in \<open>glob_loop\<close>.
  \<^item> Options are the properties of the \<open>options\<close> object, as an association list.
  \<^item> A regular expression is kept as its pattern, its flag \<open>i\<close> and its properties \<open>_src\<close> and
    \<open>_glob\<close>.
\<close>

section \<open>Options and tables\<close>

type_synonym glob_options = "(string \<times> bool) list"

definition opt :: "glob_options \<Rightarrow> string \<Rightarrow> bool" where
  "opt options k \<longleftrightarrow> map_of options k = Some True"

definition pl_open :: "jschar \<Rightarrow> jsstr" where
  "pl_open c = (if c = 33 then lit ''(?:(?!(?:'' else lit ''(?:'')"

definition pl_close :: "jschar \<Rightarrow> jsstr" where
  "pl_close c =
     (if c = 33 then lit ''))[^/]*?)''
      else if c = 63 then lit '')?''
      else if c = 43 then lit '')+''
      else if c = 42 then lit '')*''
      else lit '')'')"

definition qmark :: jsstr where
  "qmark = lit ''[^/]''"

definition star :: jsstr where
  "star = qmark @ lit ''*?''"

definition twoStarDot :: jsstr where
  "twoStarDot = lit ''(?:(?!(?:'' @ [92] @ lit ''/|^)(?:'' @ [92] @ lit ''.{1,2})($|'' @ [92] @ lit ''/)).)*?''"

definition twoStarNoDot :: jsstr where
  "twoStarNoDot = lit ''(?:(?!(?:'' @ [92] @ lit ''/|^)'' @ [92] @ lit ''.).)*?''"

definition reSpecials :: "jschar \<Rightarrow> bool" where
  "reSpecials c \<longleftrightarrow> c \<in> set (lit ''().*{}+?[]^$'' @ [92, 33])"

section \<open>Replacements\<close>

text \<open>\<open>replace\<close> without the flag \<open>g\<close>.\<close>

definition rx_replace_first :: "canon \<Rightarrow> regexp \<Rightarrow> (rx_result \<Rightarrow> jsstr) \<Rightarrow> jsstr \<Rightarrow> jsstr" where
  "rx_replace_first f r g s =
     (case rx_exec f r s of
        None \<Rightarrow> s
      | Some m \<Rightarrow> take (rx_index m) s @ g m @ drop (rx_end m) s)"

definition globUnescape :: "jsstr \<Rightarrow> jsstr" where
  "globUnescape s = rx_replace_all None (RSeq (RChar 92) (RGroup 1 RAny)) (cap_text 1) s 0 0"

definition regExpEscape_class :: regexp where
  "regExpEscape_class =
     RClass False (map (\<lambda>c. CRange c c) (lit ''-[]{}()*+?.,'' @ [92, 94, 36, 124, 35]) @ [CSpace True])"

definition regExpEscape :: "jsstr \<Rightarrow> jsstr" where
  "regExpEscape s = rx_replace_all None regExpEscape_class (\<lambda>m. 92 # rx_text s m) s 0 0"

text \<open>\<open>/((?:\\{2}){0,64})(\\?)\|/\<close>, the bar with the backslashes before it.\<close>

definition escaped_bar :: regexp where
  "escaped_bar =
     RSeq (RGroup 1 (RRepeat 0 (Some 64) True (RRepeat 2 (Some 2) True (RChar 92))))
       (RSeq (RGroup 2 (RRepeat 0 (Some 1) True (RChar 92))) (RChar 124))"

definition escape_bars :: "jsstr \<Rightarrow> jsstr" where
  "escape_bars t =
     rx_replace_all None escaped_bar
       (\<lambda>m. cap_text 1 m @ cap_text 1 m @ (if cap_text 2 m = [] then [92] else cap_text 2 m) @ [124]) t 0 0"

text \<open>\<open>/\)[+*?]?/\<close>\<close>

definition close_mark :: regexp where
  "close_mark =
     RSeq (RChar 41) (RRepeat 0 (Some 1) True (RClass False [CRange 43 43, CRange 42 42, CRange 63 63]))"

section \<open>The state of the translation\<close>

record pattern_list =
  pl_type :: jschar
  reStart :: nat
  reEnd :: nat

record glob_state =
  re :: jsstr
  hasMagic :: bool
  escaping :: bool
  patternListStack :: "pattern_list list"
  negativeLists :: "pattern_list list"
  stateChar :: "jschar option"
  inClass :: "(nat \<times> jsstr) option"

definition emit :: "jsstr \<Rightarrow> glob_state \<Rightarrow> glob_state" where
  "emit t st = st\<lparr>re := re st @ t\<rparr>"

definition clearStateChar :: "glob_state \<Rightarrow> glob_state" where
  "clearStateChar st =
     (case stateChar st of
        None \<Rightarrow> st
      | Some c \<Rightarrow>
          if c = 42 then (emit star st)\<lparr>hasMagic := True, stateChar := None\<rparr>
          else if c = 63 then (emit qmark st)\<lparr>hasMagic := True, stateChar := None\<rparr>
          else (emit [92, c] st)\<lparr>stateChar := None\<rparr>)"

definition state_char :: "jschar \<Rightarrow> bool" where
  "state_char c \<longleftrightarrow> c \<in> {63, 42, 43, 64, 33}"

text \<open>The cases of the switch.\<close>

definition case_state_char :: "glob_options \<Rightarrow> jschar \<Rightarrow> glob_state \<Rightarrow> glob_state" where
  "case_state_char options c st =
     (case inClass st of
        Some (start, cs) \<Rightarrow> emit [if c = 33 \<and> cs = [] then 94 else c] st
      | None \<Rightarrow>
          let st = (clearStateChar st)\<lparr>stateChar := Some c\<rparr>
          in if opt options ''noext'' then clearStateChar st else st)"

definition case_open_paren :: "glob_state \<Rightarrow> glob_state" where
  "case_open_paren st =
     (if inClass st \<noteq> None then emit [40] st
      else case stateChar st of
             None \<Rightarrow> emit [92, 40] st
           | Some c \<Rightarrow>
               (emit (pl_open c) st)
                 \<lparr>patternListStack := \<lparr>pl_type = c, reStart = length (re st), reEnd = 0\<rparr> # patternListStack st,
                  stateChar := None\<rparr>)"

definition case_close_paren :: "glob_state \<Rightarrow> glob_state" where
  "case_close_paren st =
     (if inClass st \<noteq> None then emit [92, 41] st
      else case patternListStack st of
             [] \<Rightarrow> emit [92, 41] st
           | pl # pls \<Rightarrow>
               let st = emit (pl_close (pl_type pl)) ((clearStateChar st)\<lparr>hasMagic := True, patternListStack := pls\<rparr>);
                   pl = pl\<lparr>reEnd := length (re st)\<rparr>
               in if pl_type pl = 33 then st\<lparr>negativeLists := negativeLists st @ [pl]\<rparr> else st)"

definition case_bar :: "glob_state \<Rightarrow> glob_state" where
  "case_bar st =
     (if inClass st \<noteq> None \<or> patternListStack st = [] \<or> escaping st
      then (emit [92, 124] st)\<lparr>escaping := False\<rparr>
      else emit [124] (clearStateChar st))"

definition case_open_bracket :: "glob_state \<Rightarrow> glob_state" where
  "case_open_bracket st =
     (let st = clearStateChar st
      in if inClass st \<noteq> None then emit [92, 91] st
         else emit [91] (st\<lparr>inClass := Some (length (re st), [])\<rparr>))"

definition case_default :: "jschar \<Rightarrow> glob_state \<Rightarrow> glob_state" where
  "case_default c st =
     (let st = clearStateChar st
      in if escaping st then emit [c] (st\<lparr>escaping := False\<rparr>)
         else if reSpecials c \<and> \<not> (c = 94 \<and> inClass st \<noteq> None) then emit [92, c] st
         else emit [c] st)"

text \<open>
  One round for a unit \<open>c\<close> that is not a slash and does not close a class. A unit read inside
  a class is part of the text of the class.
\<close>

definition glob_case :: "glob_options \<Rightarrow> jschar \<Rightarrow> glob_state \<Rightarrow> glob_state" where
  "glob_case options c st =
     (if escaping st \<and> reSpecials c then (emit [92, c] st)\<lparr>escaping := False\<rparr>
      else if c = 92 then (clearStateChar st)\<lparr>escaping := True\<rparr>
      else if state_char c then case_state_char options c st
      else if c = 40 then case_open_paren st
      else if c = 41 then case_close_paren st
      else if c = 124 then case_bar st
      else if c = 91 then case_open_bracket st
      else if c = 93 then (emit [92, 93] st)\<lparr>escaping := False\<rparr>
      else case_default c st)"

definition glob_step :: "glob_options \<Rightarrow> jschar \<Rightarrow> glob_state \<Rightarrow> glob_state" where
  "glob_step options c st =
     (let st' = glob_case options c st
      in case inClass st of
           None \<Rightarrow> st'
         | Some (start, cs) \<Rightarrow> st'\<lparr>inClass := Some (start, cs @ [c])\<rparr>)"

section \<open>The end of the translation\<close>

text \<open>The pattern lists that were never closed, innermost first.\<close>

fun unclosed_lists :: "pattern_list list \<Rightarrow> glob_state \<Rightarrow> glob_state" where
  "unclosed_lists [] st = st"
| "unclosed_lists (pl # pls) st =
     (let tail = escape_bars (js_slice_from (re st) (int (reStart pl + length (pl_open (pl_type pl)))));
          t = (if pl_type pl = 42 then star else if pl_type pl = 63 then qmark else [92, pl_type pl])
      in unclosed_lists pls
           (st\<lparr>hasMagic := True, re := js_slice (re st) 0 (int (reStart pl)) @ t @ [92, 40] @ tail\<rparr>))"

text \<open>
  The lookahead of a negated list looks at the rest of the segment too; \<open>sub\<close> says that the
  text is a piece of a larger pattern.
\<close>

definition negative_list :: "bool \<Rightarrow> pattern_list \<Rightarrow> jsstr \<Rightarrow> jsstr" where
  "negative_list sub nl r =
     (let nlBefore = js_slice r 0 (int (reStart nl));
          nlFirst = js_slice r (int (reStart nl)) (int (reEnd nl) - 8);
          nlAfter = js_slice_from r (int (reEnd nl));
          nlLast = js_slice r (int (reEnd nl) - 8) (int (reEnd nl)) @ nlAfter;
          openParensBefore = length (js_split nlBefore [40]) - 1;
          cleanAfter = (rx_replace_first None close_mark (\<lambda>_. []) ^^ openParensBefore) nlAfter;
          dollar = (if cleanAfter = [] \<and> \<not> sub then [36] else [])
      in nlBefore @ nlFirst @ cleanAfter @ dollar @ nlLast)"

definition patternStart :: "glob_options \<Rightarrow> jsstr \<Rightarrow> jsstr" where
  "patternStart options pat =
     (if js_charAt pat 0 = [46] then []
      else if opt options ''dot''
      then lit ''(?!(?:^|'' @ [92] @ lit ''/)'' @ [92] @ lit ''.{1,2}(?:$|'' @ [92] @ lit ''/))''
      else lit ''(?!'' @ [92] @ lit ''.)'')"

datatype glob_part =
    Globstar
  | Literal jsstr
  | Magic regexp bool "(jsstr \<times> jsstr) option"
  | Unusable

datatype parse_result =
    Part glob_part
  | Sub jsstr bool

definition glob_close :: "glob_state \<Rightarrow> glob_state" where
  "glob_close st =
     (let st = clearStateChar (unclosed_lists (patternListStack st) st)
      in if escaping st then emit [92, 92] st else st)"

definition glob_source :: "glob_options \<Rightarrow> jsstr \<Rightarrow> bool \<Rightarrow> glob_state \<Rightarrow> jsstr" where
  "glob_source options pat sub st =
     (let addPatternStart = js_charAt (re st) 0 \<in> {[46], [91], [40]};
          r = fold (negative_list sub) (rev (negativeLists st)) (re st);
          r = (if r \<noteq> [] \<and> hasMagic st then lit ''(?=.)'' @ r else r)
      in if addPatternStart then patternStart options pat @ r else r)"

definition glob_finish :: "glob_options \<Rightarrow> jsstr \<Rightarrow> bool \<Rightarrow> glob_state \<Rightarrow> js_error + parse_result" where
  "glob_finish options pat sub st =
     (let st = glob_close st; src = glob_source options pat sub st
      in if sub then Inr (Sub src (hasMagic st))
         else if \<not> hasMagic st then Inr (Part (Literal (globUnescape pat)))
         else case rx_parse ([94] @ src @ [36]) of
                Inl e \<Rightarrow> Inr (Part (Magic (RSeq REnd RAny) False None))
              | Inr (Some r) \<Rightarrow> Inr (Part (Magic r (opt options ''nocase'') (Some (src, pat))))
              | Inr None \<Rightarrow> Inl (JsError ''outside the modelled regular expressions''))"

section \<open>The loop\<close>

text \<open>\<open>sp[0]\<close> and \<open>sp[1]\<close> of a nested call; they are undefined when it returns no array.\<close>

definition sub_text :: "parse_result \<Rightarrow> jsstr" where
  "sub_text sp = (case sp of Sub t b \<Rightarrow> t | Part p \<Rightarrow> lit ''undefined'')"

definition sub_magic :: "parse_result \<Rightarrow> bool" where
  "sub_magic sp = (case sp of Sub t b \<Rightarrow> b | Part p \<Rightarrow> False)"

definition class_start :: "glob_state \<Rightarrow> nat" where
  "class_start st = (case inClass st of None \<Rightarrow> 0 | Some (reClassStart, cs) \<Rightarrow> reClassStart)"

definition class_text :: "glob_state \<Rightarrow> jsstr" where
  "class_text st = (case inClass st of None \<Rightarrow> [] | Some (reClassStart, cs) \<Rightarrow> cs)"

definition no_class :: "jsstr \<Rightarrow> parse_result \<Rightarrow> glob_state \<Rightarrow> glob_state" where
  "no_class post sp st =
     st\<lparr>re := js_substr (re st) 0 (int (class_start st)) @ [92, 91] @ sub_text sp @ post,
        hasMagic := hasMagic st \<or> sub_magic sp, inClass := None\<rparr>"

definition regexp_valid :: "jsstr \<Rightarrow> bool" where
  "regexp_valid t \<longleftrightarrow> (case rx_parse t of Inl e \<Rightarrow> False | Inr r \<Rightarrow> True)"

definition glob_init :: "glob_options \<Rightarrow> glob_state" where
  "glob_init options =
     \<lparr>re = [], hasMagic = opt options ''nocase'', escaping = False, patternListStack = [],
      negativeLists = [], stateChar = None, inClass = None\<rparr>"

definition class_weight :: "glob_state \<Rightarrow> nat" where
  "class_weight st = (case inClass st of None \<Rightarrow> 0 | Some (start, cs) \<Rightarrow> Suc (length cs))"

lemma inClass_clear [simp]:
  "inClass (clearStateChar st) = inClass st" "inClass (emit t st) = inClass st"
  by (simp_all add: clearStateChar_def emit_def split: option.split)

lemma inClass_glob_case:
  "inClass (glob_case options c st) =
     (if \<not> (escaping st \<and> reSpecials c) \<and> c = 91 \<and> inClass st = None
      then Some (length (re (clearStateChar st)), []) else inClass st)"
  by (auto simp: glob_case_def case_state_char_def case_open_paren_def case_close_paren_def case_bar_def
      case_open_bracket_def case_default_def state_char_def Let_def split: option.splits list.splits prod.splits)

lemma class_weight_step: "class_weight (glob_step options c st) \<le> Suc (class_weight st)"
  by (auto simp: class_weight_def glob_step_def Let_def inClass_glob_case split: option.splits)

function (sequential) glob_loop :: "glob_options \<Rightarrow> jsstr \<Rightarrow> glob_state \<Rightarrow> js_error + glob_state option"
  and glob_parse :: "glob_options \<Rightarrow> jsstr \<Rightarrow> bool \<Rightarrow> js_error + parse_result"
where
  "glob_loop options [] st =
     (if inClass st = None then Inr (Some st)
      else ebind (glob_parse options (class_text st) True) (\<lambda>sp. Inr (Some (no_class [] sp st))))"
| "glob_loop options (c # rest) st =
     (if c = 47 then Inr None
      else if c = 93 \<and> \<not> escaping st \<and> class_text st \<noteq> [] then
        if regexp_valid ([91] @ class_text st @ [93])
        then glob_loop options rest ((emit [93] st)\<lparr>hasMagic := True, inClass := None\<rparr>)
        else ebind (glob_parse options (class_text st) True) (\<lambda>sp.
               glob_loop options rest (no_class [92, 93] sp st))
      else glob_loop options rest (glob_step options c st))"
| "glob_parse options pat sub =
     (if 1024 * 64 < length pat then Inl (TypeError ''pattern is too long'')
      else if \<not> opt options ''noglobstar'' \<and> pat = [42, 42] then Inr (Part Globstar)
      else if pat = [] then Inr (Part (Literal []))
      else ebind (glob_loop options pat (glob_init options)) (\<lambda>r.
             case r of
               None \<Rightarrow> Inr (Part Unusable)
             | Some st \<Rightarrow> glob_finish options pat sub st))"
  by pat_completeness auto
termination
  by (relation "measures [\<lambda>x. case x of Inl (options, rest, st) \<Rightarrow> class_weight st + length rest
                                       | Inr (options, pat, sub) \<Rightarrow> length pat,
                          \<lambda>x. case x of Inl (options, rest, st) \<Rightarrow> length rest
                                       | Inr (options, pat, sub) \<Rightarrow> Suc (length pat)]")
    (use class_weight_step in
      \<open>auto simp: class_weight_def class_text_def no_class_def glob_init_def le_Suc_eq order_le_less split: option.splits\<close>)

end
