(* ===== verification/Balanced_Match.thy ===== *)
theory Balanced_Match
  imports JS_RegExp
begin

text \<open>
  The module \<open>balanced-match\<close> of \<open>wordcut.js\<close> (lines 980 to 1039): \<open>range\<close> finds a pair of
  delimiters in a string, \<open>balanced\<close> cuts the string there.

  \<open>range\<close> searches with \<open>indexOf\<close> and keeps a stack of the opening delimiters seen. With an
  empty delimiter the loop of the source does not end, so it is a \<open>partial_function\<close>. For
  delimiters of one code unit it is shown to end and to compute the one-pass scan
  \<open>pair_scan\<close>, and the pair it finds is characterised: a matched pair of delimiters whose
  inside is balanced, with no opening delimiter followed by a closing one before it.
\<close>

section \<open>The module\<close>

datatype delimiter = DString jsstr | DRegExp regexp

text \<open>\<open>maybeMatch\<close>: the text of the first match, or \<open>null\<close>.\<close>

definition maybeMatch :: "regexp \<Rightarrow> jsstr \<Rightarrow> jsstr option" where
  "maybeMatch reg str = map_option (rx_text str) (rx_exec None reg str)"

text \<open>\<open>indexOf\<close> of a delimiter that is \<open>null\<close> searches the text \<open>null\<close>.\<close>

definition delim_text :: "jsstr option \<Rightarrow> jsstr" where
  "delim_text a = (case a of None \<Rightarrow> lit ''null'' | Some s \<Rightarrow> s)"

definition next_delim :: "int \<Rightarrow> int \<Rightarrow> int" where
  "next_delim ai bi = (if ai < bi \<and> 0 \<le> ai then ai else bi)"

text \<open>
  The loop of \<open>range\<close> and the test after it. The stack \<open>begs\<close> has its top first. The result
  is \<open>None\<close> (undefined) or the pair of the start and the end; \<open>right\<close> is \<open>None\<close> while it is
  undefined.
\<close>

partial_function (option) range_loop ::
  "jsstr \<Rightarrow> jsstr \<Rightarrow> jsstr \<Rightarrow> int \<Rightarrow> int \<Rightarrow> int \<Rightarrow> int list \<Rightarrow> int \<Rightarrow> int option \<Rightarrow>
    ((int \<times> int option) option) option"
where
  "range_loop a b str i ai bi begs left right =
     (if i < 0 then Some (if begs \<noteq> [] then Some (left, right) else None)
      else if i = ai then
        range_loop a b str (next_delim (js_indexOf str a (i + 1)) bi) (js_indexOf str a (i + 1)) bi
          (i # begs) left right
      else if length begs = 1 then Some (Some (hd begs, Some bi))
      else if begs \<noteq> [] \<and> hd begs < left then
        range_loop a b str (next_delim ai (js_indexOf str b (i + 1))) ai (js_indexOf str b (i + 1))
          (tl begs) (hd begs) (Some bi)
      else
        range_loop a b str (next_delim ai (js_indexOf str b (i + 1))) ai (js_indexOf str b (i + 1))
          (tl begs) left right)"

declare range_loop.simps [code]

definition range :: "jsstr option \<Rightarrow> jsstr option \<Rightarrow> jsstr \<Rightarrow> ((int \<times> int option) option) option" where
  "range a b str =
     (let ai = js_indexOf str (delim_text a) 0; bi = js_indexOf str (delim_text b) (ai + 1)
      in if 0 \<le> ai \<and> 0 < bi
         then range_loop (delim_text a) (delim_text b) str ai ai bi [] (int (length str)) None
         else Some None)"

record match_parts =
  bal_start :: int
  bal_end :: "int option"
  bal_pre :: jsstr
  bal_body :: jsstr
  bal_post :: jsstr

definition delimiter_value :: "delimiter \<Rightarrow> jsstr \<Rightarrow> jsstr option" where
  "delimiter_value a str = (case a of DString s \<Rightarrow> Some s | DRegExp r \<Rightarrow> maybeMatch r str)"

text \<open>
  \<open>balanced\<close>: \<open>None\<close> when the search does not end; reading the length of a \<open>null\<close> delimiter
  raises a TypeError. An undefined end is \<open>slice\<close> to the end of the string, and its sum with
  a length is not a number, which \<open>slice\<close> takes as 0.
\<close>

definition balanced :: "delimiter \<Rightarrow> delimiter \<Rightarrow> jsstr \<Rightarrow> (js_error + match_parts option) option" where
  "balanced a b str =
     (let a' = delimiter_value a str; b' = delimiter_value b str
      in map_option (\<lambda>r. case r of
           None \<Rightarrow> Inr None
         | Some (l, e) \<Rightarrow>
             (case (a', b') of
                (Some x, Some y) \<Rightarrow>
                  Inr (Some \<lparr>bal_start = l, bal_end = e,
                    bal_pre = js_slice str 0 l,
                    bal_body = (case e of Some e \<Rightarrow> js_slice str (l + int (length x)) e
                                | None \<Rightarrow> js_slice_from str (l + int (length x))),
                    bal_post = (case e of Some e \<Rightarrow> js_slice_from str (e + int (length y))
                                | None \<Rightarrow> js_slice_from str 0)\<rparr>)
              | _ \<Rightarrow> Inl (TypeError ''cannot read properties of null'')))
         (range a' b' str))"

section \<open>Searching one code unit\<close>

fun idx :: "'a \<Rightarrow> nat \<Rightarrow> 'a list \<Rightarrow> int" where
  "idx c k [] = - 1"
| "idx c k (x # xs) = (if x = c then int k else idx c (Suc k) xs)"

lemma find_idx:
  "k \<le> length s \<Longrightarrow>
   (case List.find (\<lambda>i. take (Suc 0) (drop i s) = [c]) [k..<Suc (length s)] of None \<Rightarrow> - 1 | Some i \<Rightarrow> int i) =
   idx c k (drop k s)"
proof (induction "length s - k" arbitrary: k)
  case 0
  then show ?case by simp
next
  case (Suc d)
  then have k: "k < length s" by simp
  have "drop k s = s ! k # drop (Suc k) s" using k by (simp add: Cons_nth_drop_Suc)
  moreover have "[k..<Suc (length s)] = k # [Suc k..<Suc (length s)]" using k by (simp add: upt_conv_Cons)
  ultimately show ?case using Suc.hyps(1) [of "Suc k"] Suc.hyps(2) k by simp
qed

lemma js_indexOf_idx: "k \<le> length s \<Longrightarrow> js_indexOf s [c] (int k) = idx c k (drop k s)"
  using find_idx [of k s c] by (simp add: js_indexOf_def del: upt_Suc)

lemma idx_ge: "idx c k xs = - 1 \<or> int k \<le> idx c k xs"
proof (induction xs arbitrary: k)
  case (Cons x xs)
  then show ?case using Cons.IH [of "Suc k"] by auto
qed simp

lemma idx_neg: "idx c k xs < 0 \<longleftrightarrow> c \<notin> set xs"
  by (induction xs arbitrary: k) auto

lemma idx_less: "idx c k xs < int k \<longleftrightarrow> c \<notin> set xs"
  using idx_ge [of c k xs] idx_neg [of c k xs] by auto

section \<open>The search as one pass\<close>

text \<open>
  The same search as one pass over the string: \<open>k\<close> is the position of the rest \<open>xs\<close>.
\<close>

fun pair_scan ::
  "jschar \<Rightarrow> jschar \<Rightarrow> nat \<Rightarrow> jsstr \<Rightarrow> int list \<Rightarrow> int \<Rightarrow> int option \<Rightarrow> (int \<times> int option) option"
where
  "pair_scan a b k [] begs left right = (if begs \<noteq> [] then Some (left, right) else None)"
| "pair_scan a b k (x # xs) begs left right =
     (if x = a then pair_scan a b (Suc k) xs (int k # begs) left right
      else if x \<noteq> b then pair_scan a b (Suc k) xs begs left right
      else if length begs = 1 then Some (hd begs, Some (int k))
      else if begs \<noteq> [] \<and> hd begs < left then pair_scan a b (Suc k) xs (tl begs) (hd begs) (Some (int k))
      else pair_scan a b (Suc k) xs (tl begs) left right)"

lemma pair_scan_no_close:
  "b \<notin> set xs \<Longrightarrow> begs \<noteq> [] \<Longrightarrow> pair_scan a b k xs begs left right = Some (left, right)"
  by (induction xs arbitrary: k begs) auto

lemma range_loop_scan:
  assumes "a \<noteq> b" and "k \<le> length str" 
    and "begs \<noteq> [] \<or> k < length str \<and> str ! k = a \<and> b \<in> set (drop k str)"
  shows "range_loop [a] [b] str (next_delim (idx a k (drop k str)) (idx b k (drop k str)))
           (idx a k (drop k str)) (idx b k (drop k str)) begs left right =
         Some (pair_scan a b k (drop k str) begs left right)"
  using assms
proof (induction "length str - k" arbitrary: k begs left right)
  case 0
  then show ?case by (subst range_loop.simps) (simp add: next_delim_def)
next
  case (Suc d)
  then have k: "k < length str" by simp
  define x xs where "x = str ! k" and "xs = drop (Suc k) str"
  have d: "drop k str = x # xs" using k by (simp add: x_def xs_def Cons_nth_drop_Suc)
  have IH: "range_loop [a] [b] str (next_delim (idx a (Suc k) xs) (idx b (Suc k) xs))
      (idx a (Suc k) xs) (idx b (Suc k) xs) begs' left' right' =
      Some (pair_scan a b (Suc k) xs begs' left' right')" if "begs' \<noteq> []" for begs' left' right'
    using Suc.hyps(1) [of "Suc k" begs'] Suc.hyps(2) Suc.prems(1) k that unfolding xs_def by simp
  have look: "js_indexOf str [c] (int k + 1) = idx c (Suc k) xs" for c
    using js_indexOf_idx [of "Suc k" str c] k by (simp add: xs_def add.commute)
  have begs: "begs \<noteq> []" if "x \<noteq> a" using Suc.prems(3) that by (simp add: x_def)
  consider "b \<notin> set (x # xs)" | "x = a" "int k < idx b (Suc k) xs" | "x = b" "x \<noteq> a" | "x \<noteq> a" "x \<noteq> b"
    using idx_less [of b "Suc k" xs] Suc.prems(1) by fastforce
  then show ?case
  proof cases
    case 1
    then have "idx b k (x # xs) < 0" and "begs \<noteq> []"
      using Suc.prems(3) idx_neg [of b k "x # xs"] unfolding d by blast+
    then show ?thesis
      using 1 pair_scan_no_close [OF 1] unfolding d
      by (subst range_loop.simps) (auto simp: next_delim_def simp del: idx.simps pair_scan.simps)
  next
    case 2
    then show ?thesis
      using Suc.prems(1) IH [of "int k # begs"] unfolding d
      by (subst range_loop.simps) (simp add: next_delim_def look)
  next
    case 3
    then have "idx a (Suc k) xs < 0 \<or> int k < idx a (Suc k) xs"
      using idx_ge [of a "Suc k" xs] by auto
    then have nx: "next_delim (idx a (Suc k) xs) (int k) = int k" "idx a (Suc k) xs \<noteq> int k"
      by (auto simp: next_delim_def)
    have "tl begs \<noteq> []" if "length begs \<noteq> 1"
      using begs [OF 3(2)] that by (cases begs) auto
    with 3 nx begs IH [of "tl begs"] show ?thesis
      unfolding d by (subst range_loop.simps) (auto simp: look)
  next
    case 4
    then show ?thesis using IH [OF begs] unfolding d by simp
  qed
qed

section \<open>Balanced texts\<close>

text \<open>The nesting depth after a text, undefined when a closing delimiter has no partner.\<close>

fun nest_depth :: "'a \<Rightarrow> 'a \<Rightarrow> nat \<Rightarrow> 'a list \<Rightarrow> nat option" where
  "nest_depth a b d [] = Some d"
| "nest_depth a b d (x # xs) =
     (if x = a then nest_depth a b (Suc d) xs
      else if x = b then (if d = 0 then None else nest_depth a b (d - 1) xs)
      else nest_depth a b d xs)"

definition balanced_text :: "'a \<Rightarrow> 'a \<Rightarrow> 'a list \<Rightarrow> bool" where
  "balanced_text a b xs \<longleftrightarrow> nest_depth a b 0 xs = Some 0"

definition between :: "'a list \<Rightarrow> nat \<Rightarrow> nat \<Rightarrow> 'a list" where
  "between s i j = take (j - i) (drop i s)"

lemma nest_depth_append:
  "nest_depth a b d (xs @ ys) = Option.bind (nest_depth a b d xs) (\<lambda>d. nest_depth a b d ys)"
  by (induction xs arbitrary: d) auto

lemma nest_depth_shift:
  "nest_depth a b d xs = Some e \<Longrightarrow> nest_depth a b (d + n) xs = Some (e + n)"
proof (induction xs arbitrary: d)
  case (Cons x xs)
  show ?case
  proof (cases d)
    case 0
    then show ?thesis using Cons.prems Cons.IH [of "Suc 0"] Cons.IH [of 0] by (auto split: if_split_asm)
  next
    case (Suc m)
    then show ?thesis using Cons.prems Cons.IH [of "Suc d"] Cons.IH [of m] Cons.IH [of d]
      by (auto split: if_split_asm)
  qed
qed simp

lemma balanced_Nil [simp]: "balanced_text a b []"
  by (simp add: balanced_text_def)

lemma balanced_snoc: "x \<noteq> a \<Longrightarrow> x \<noteq> b \<Longrightarrow> balanced_text a b xs \<Longrightarrow> balanced_text a b (xs @ [x])"
  by (simp add: balanced_text_def nest_depth_append)

lemma balanced_wrap:
  assumes "a \<noteq> b" and "balanced_text a b xs" and "balanced_text a b ys"
  shows "balanced_text a b (xs @ a # ys @ [b])"
  using assms nest_depth_shift [of a b 0 ys 0 "Suc 0"]
  by (simp add: balanced_text_def nest_depth_append)

lemma between_self [simp]: "between s i i = []"
  by (simp add: between_def)

lemma between_Suc: "i \<le> k \<Longrightarrow> k < length s \<Longrightarrow> between s i (Suc k) = between s i k @ [s ! k]"
  by (simp add: between_def Suc_diff_le take_Suc_conv_app_nth)

lemma between_split:
  assumes "i \<le> q" "q < k" "k \<le> length s"
  shows "between s i k = between s i q @ s ! q # between s (Suc q) k"
proof -
  have "between s i k = between s i (Suc q) @ between s (Suc q) k"
    unfolding between_def using assms take_drop_append [of i "Suc q" k s] by simp
  then show ?thesis using assms between_Suc [of i q s] by simp
qed

section \<open>The pair that is found\<close>

definition matched_pair :: "jschar \<Rightarrow> jschar \<Rightarrow> jsstr \<Rightarrow> nat \<Rightarrow> nat \<Rightarrow> bool" where
  "matched_pair a b s l r \<longleftrightarrow>
     l < r \<and> r < length s \<and> s ! l = a \<and> s ! r = b \<and> balanced_text a b (between s (Suc l) r)"

text \<open>No opening delimiter is followed by a closing one.\<close>

definition pair_free :: "'a \<Rightarrow> 'a \<Rightarrow> 'a list \<Rightarrow> bool" where
  "pair_free a b s \<longleftrightarrow> b \<notin> set (dropWhile (\<lambda>x. x \<noteq> a) s)"

fun stack_ok :: "jschar \<Rightarrow> jschar \<Rightarrow> jsstr \<Rightarrow> nat \<Rightarrow> int list \<Rightarrow> bool" where
  "stack_ok a b s k [] \<longleftrightarrow> True"
| "stack_ok a b s k (p # ps) \<longleftrightarrow>
     (let q = nat p in p = int q \<and> q < k \<and> s ! q = a \<and> balanced_text a b (between s (Suc q) k) \<and>
       stack_ok a b s q ps)"

lemma stack_ok_push:
  "k < length s \<Longrightarrow> s ! k = a \<Longrightarrow> stack_ok a b s k begs \<Longrightarrow> stack_ok a b s (Suc k) (int k # begs)"
  by simp

lemma stack_ok_skip:
  assumes "k < length s" "s ! k \<noteq> a" "s ! k \<noteq> b" "stack_ok a b s k begs"
  shows "stack_ok a b s (Suc k) begs"
  using assms by (cases begs) (auto simp: Let_def between_Suc balanced_snoc)

lemma stack_ok_pop:
  assumes "a \<noteq> b" "k < length s" "s ! k = b" "stack_ok a b s k (p # begs)"
  shows "stack_ok a b s (Suc k) begs"
proof (cases begs)
  case (Cons p' ps)
  define q q' where "q = nat p" and "q' = nat p'"
  have q: "q < k" "s ! q = a" "balanced_text a b (between s (Suc q) k)"
    and q': "q' < q" "p' = int q'" "s ! q' = a" "balanced_text a b (between s (Suc q') q)" "stack_ok a b s q' ps"
    using assms(4) by (auto simp: Cons Let_def q_def q'_def)
  have "between s (Suc q') (Suc k) = between s (Suc q') q @ a # between s (Suc q) k @ [b]"
    using q q' assms(2,3) between_split [of "Suc q'" q k s] by (simp add: between_Suc)
  then have "balanced_text a b (between s (Suc q') (Suc k))"
    using balanced_wrap [OF assms(1) q'(4) q(3)] by simp
  then show ?thesis using q q' by (simp add: Cons Let_def)
qed simp

lemma stack_ok_top_pair:
  "stack_ok a b s k (p # begs) \<Longrightarrow> k < length s \<Longrightarrow> s ! k = b \<Longrightarrow>
   p = int (nat p) \<and> matched_pair a b s (nat p) k"
  by (simp add: matched_pair_def Let_def)

lemma stack_ok_bottom: "stack_ok a b s k begs \<Longrightarrow> begs \<noteq> [] \<Longrightarrow> last begs \<le> hd begs"
proof (induction begs arbitrary: k)
  case (Cons p ps)
  show ?case
  proof (cases ps)
    case (Cons p' ps')
    then have "p' < p" and "last ps \<le> p'"
      using Cons.prems Cons.IH [of "nat p"] by (auto simp: Let_def)
    then show ?thesis by (simp add: Cons)
  qed simp
qed simp

text \<open>
  The state of the scan at position \<open>k\<close>, where \<open>f\<close> is the first opening delimiter:
  the leftmost pair closed so far, if there is one, has all closing delimiters behind its
  start.
\<close>

definition closed_ok :: "jschar \<Rightarrow> jschar \<Rightarrow> jsstr \<Rightarrow> nat \<Rightarrow> nat \<Rightarrow> int \<Rightarrow> int option \<Rightarrow> bool" where
  "closed_ok a b s f k left right \<longleftrightarrow>
     (case right of
        None \<Rightarrow> left = int (length s) \<and> (\<forall>j. f \<le> j \<and> j < k \<longrightarrow> s ! j \<noteq> b)
      | Some r \<Rightarrow> left = int (nat left) \<and> r = int (nat r) \<and> matched_pair a b s (nat left) (nat r) \<and>
                  (\<forall>j. f \<le> j \<and> j < k \<and> s ! j = b \<longrightarrow> nat left < j))"

definition pair_found :: "jschar \<Rightarrow> jschar \<Rightarrow> jsstr \<Rightarrow> (int \<times> int option) option \<Rightarrow> bool" where
  "pair_found a b s res \<longleftrightarrow>
     (\<exists>l r. res = Some (int l, Some (int r)) \<and> matched_pair a b s l r \<and> pair_free a b (take l s))"

lemma pair_free_no_open: "a \<notin> set s \<Longrightarrow> pair_free a b s"
  by (induction s) (auto simp: pair_free_def)

lemma pair_free_before:
  assumes "a \<notin> set (take f s)" and "\<forall>j. f \<le> j \<and> j < l \<longrightarrow> s ! j \<noteq> b"
  shows "pair_free a b (take l s)"
proof (cases "l \<le> f")
  case True
  then have "a \<notin> set (take l s)" using assms(1) set_take_subset_set_take by fastforce
  then show ?thesis by (rule pair_free_no_open)
next
  case False
  have split: "take l s = take f s @ take (l - f) (drop f s)"
    using take_add [of f "l - f" s] False by simp
  have "dropWhile (\<lambda>x. x \<noteq> a) (take l s) = dropWhile (\<lambda>x. x \<noteq> a) (take (l - f) (drop f s))"
    unfolding split using assms(1) by (subst dropWhile_append2) auto
  moreover have "b \<notin> set (take (l - f) (drop f s))"
    using assms(2) by (auto simp: in_set_conv_nth)
  ultimately show ?thesis unfolding pair_free_def by (metis set_dropWhileD)
qed

lemma closed_ok_close:
  assumes ok: "closed_ok a b s f k left right" and p: "p = int (nat p)" and pair: "matched_pair a b s (nat p) k"
  shows "closed_ok a b s f (Suc k) (if p < left then p else left) (if p < left then Some (int k) else right)"
proof (cases "p < left")
  case True
  have "nat p < j" if "f \<le> j" "j < Suc k" "s ! j = b" for j
    using ok True that p pair
    by (auto simp: closed_ok_def less_Suc_eq matched_pair_def split: option.splits)
  then show ?thesis using True p pair by (simp add: closed_ok_def)
next
  case False
  then obtain r where "right = Some r"
    using ok p pair by (cases right) (auto simp: closed_ok_def matched_pair_def)
  with False ok p pair show ?thesis
    by (auto simp: closed_ok_def less_Suc_eq matched_pair_def)
qed

lemma pair_scan_found:
  assumes "a \<noteq> b" and "k \<le> length s" and "a \<notin> set (take f s)"
    and "stack_ok a b s k begs" and "begs \<noteq> []" and "last begs = int f"
    and "closed_ok a b s f k left right" and "right \<noteq> None \<or> b \<in> set (drop k s)"
  shows "pair_found a b s (pair_scan a b k (drop k s) begs left right)"
  using assms
proof (induction "length s - k" arbitrary: k begs left right)
  case 0
  then obtain r where r: "right = Some r" by auto
  have "s ! j \<noteq> b" if "f \<le> j" "j < nat left" for j
  proof
    assume "s ! j = b"
    moreover have "j < k"
      using 0 r that by (simp add: closed_ok_def matched_pair_def) linarith
    ultimately have "nat left < j" using 0(8) that(1) unfolding closed_ok_def r by auto
    with that show False by simp
  qed
  with 0 have "pair_free a b (take (nat left) s)" by (intro pair_free_before [of a f]) auto
  with 0 r show ?case by (auto simp: closed_ok_def pair_found_def)
next
  case (Suc d)
  then have k: "k < length s" by simp
  define x xs where "x = s ! k" and "xs = drop (Suc k) s"
  have d: "drop k s = x # xs" using k by (simp add: x_def xs_def Cons_nth_drop_Suc)
  obtain p ps where begs: "begs = p # ps" using Suc.prems(5) by (cases begs) auto
  have IH: "pair_found a b s (pair_scan a b (Suc k) xs begs' left' right')"
    if "stack_ok a b s (Suc k) begs'" "begs' \<noteq> []" "last begs' = int f"
      "closed_ok a b s f (Suc k) left' right'" "right' \<noteq> None \<or> b \<in> set xs" for begs' left' right'
    using Suc.hyps(1) [of "Suc k" begs' left' right'] Suc.hyps(2) Suc.prems(1,3) k that
    unfolding xs_def by simp
  have keep: "closed_ok a b s f (Suc k) left right" if "x \<noteq> b"
    using Suc.prems(7) that by (auto simp: closed_ok_def x_def less_Suc_eq split: option.splits)
  consider "x = a" | "x \<noteq> a" "x \<noteq> b" | "x = b" "ps = []" | "x = b" "ps \<noteq> []" by blast
  then show ?case
  proof cases
    case 1
    then show ?thesis
      using Suc.prems k d keep by (simp, intro IH) (auto simp: x_def stack_ok_push simp del: stack_ok.simps)
  next
    case 2
    then show ?thesis
      using Suc.prems k d keep by (simp, intro IH) (auto simp: x_def stack_ok_skip)
  next
    case 3
    then have "p = int f" using Suc.prems(6) by (simp add: begs)
    moreover have "s ! k = b" using 3 by (simp add: x_def)
    ultimately have "matched_pair a b s f k"
      using stack_ok_top_pair [OF Suc.prems(4) [unfolded begs] k] by simp
    moreover have "pair_free a b (take f s)"
      using Suc.prems(3) by (intro pair_free_before [of a f]) auto
    ultimately show ?thesis
      using 3 Suc.prems(1,6) d by (auto simp: begs pair_found_def)
  next
    case 4
    then have b: "s ! k = b" by (simp add: x_def)
    note pop = stack_ok_pop [OF Suc.prems(1) k b Suc.prems(4) [unfolded begs]]
    note pair = stack_ok_top_pair [OF Suc.prems(4) [unfolded begs] k b, THEN conjunct1]
      stack_ok_top_pair [OF Suc.prems(4) [unfolded begs] k b, THEN conjunct2]
    note closed = closed_ok_close [OF Suc.prems(7) pair]
    have "p < left" if "right = None"
      using Suc.prems(7) k pair(2) that by (simp add: closed_ok_def matched_pair_def) linarith
    with 4 have "pair_found a b s (pair_scan a b (Suc k) xs ps (if p < left then p else left)
        (if p < left then Some (int k) else right))"
      using Suc.prems(6) by (intro IH pop closed) (auto simp: begs)
    then show ?thesis using 4 Suc.prems(1) d by (simp add: begs split: if_split_asm)
  qed
qed

text \<open>\<open>range\<close> for two different delimiters of one code unit.\<close>

lemma idx_takeWhile:
  "c \<in> set xs \<Longrightarrow> idx c k xs = int (k + length (takeWhile (\<lambda>x. x \<noteq> c) xs))"
  by (induction xs arbitrary: k) auto

lemma first_open:
  assumes "a \<in> set s"
  obtains f xs where "f = length (takeWhile (\<lambda>x. x \<noteq> a) s)" and "dropWhile (\<lambda>x. x \<noteq> a) s = a # xs"
    and "f < length s" and "s ! f = a" and "drop f s = a # xs" and "drop (Suc f) s = xs" and "a \<notin> set (take f s)"
proof -
  obtain ys xs where s: "s = ys @ a # xs" and ys: "a \<notin> set ys"
    using split_list_first [OF assms] by blast
  have "takeWhile (\<lambda>x. x \<noteq> a) s = ys" "dropWhile (\<lambda>x. x \<noteq> a) s = a # xs"
    using ys unfolding s by (auto simp: takeWhile_append dropWhile_append)
  then show ?thesis using ys by (intro that [of "length ys" xs]) (simp_all add: s)
qed

lemma range_units:
  assumes ab: "a \<noteq> b"
  shows "range (Some [a]) (Some [b]) s =
    Some (if pair_free a b s then None
          else pair_scan a b (length (takeWhile (\<lambda>x. x \<noteq> a) s)) (dropWhile (\<lambda>x. x \<noteq> a) s) [] (int (length s)) None)"
proof (cases "a \<in> set s")
  case False
  then have "js_indexOf s [a] 0 = - 1"
    using js_indexOf_idx [of 0 s a] idx_ge [of a 0 s] idx_neg [of a 0 s] by auto
  then show ?thesis
    using pair_free_no_open [OF False, of b] by (simp add: range_def delim_text_def Let_def)
next
  case True
  obtain f xs where f_def: "f = length (takeWhile (\<lambda>x. x \<noteq> a) s)" and t: "dropWhile (\<lambda>x. x \<noteq> a) s = a # xs"
    and f: "f < length s" and sf: "s ! f = a" and dropf: "drop f s = a # xs" and xs: "drop (Suc f) s = xs"
    by (rule first_open [OF True])
  have ai: "js_indexOf s [a] 0 = int f"
    using js_indexOf_idx [of 0 s a] True by (simp add: idx_takeWhile f_def)
  have bi: "js_indexOf s [b] (int f + 1) = idx b (Suc f) xs"
    using js_indexOf_idx [of "Suc f" s b] f by (simp add: xs add.commute)
  have free: "pair_free a b s \<longleftrightarrow> b \<notin> set xs"
    using ab by (auto simp: pair_free_def t)
  have pos: "b \<notin> set xs \<longleftrightarrow> \<not> 0 < idx b (Suc f) xs" "b \<in> set xs \<longleftrightarrow> int f < idx b (Suc f) xs"
    using idx_neg [of b "Suc f" xs] idx_ge [of b "Suc f" xs] by auto
  have "range_loop [a] [b] s (int f) (int f) (idx b (Suc f) xs) [] (int (length s)) None =
      Some (pair_scan a b f (a # xs) [] (int (length s)) None)" if "b \<in> set xs"
    using range_loop_scan [OF ab, of f s "[]" "int (length s)" None] f ab sf that pos(2)
    by (simp add: dropf next_delim_def)
  then show ?thesis
    using pos by (auto simp: range_def delim_text_def ai bi free t f_def [symmetric])
qed

lemma range_found:
  assumes "a \<noteq> b"
  shows "\<exists>res. range (Some [a]) (Some [b]) s = Some res \<and>
    (if pair_free a b s then res = None else pair_found a b s res)"
proof (cases "pair_free a b s")
  case True
  then show ?thesis using range_units [OF assms, of s] by simp
next
  case False
  then have "a \<in> set s" using pair_free_no_open [of a s b] by auto
  then obtain f xs where f_def: "f = length (takeWhile (\<lambda>x. x \<noteq> a) s)" and t: "dropWhile (\<lambda>x. x \<noteq> a) s = a # xs"
    and f: "f < length s" and sf: "s ! f = a" and xs: "drop (Suc f) s = xs" and a: "a \<notin> set (take f s)"
    by (rule first_open)
  have "b \<in> set xs" using False assms by (auto simp: pair_free_def t)
  moreover have "closed_ok a b s f (Suc f) (int (length s)) None"
    using assms sf by (auto simp: closed_ok_def less_Suc_eq)
  ultimately have "pair_found a b s (pair_scan a b (Suc f) xs [int f] (int (length s)) None)"
    using pair_scan_found [of a b "Suc f" s f "[int f]" "int (length s)" None] assms f sf a
    by (simp add: xs)
  then show ?thesis
    using range_units [OF assms, of s] False by (simp add: f_def [symmetric] t)
qed

section \<open>The parts of a match\<close>

definition parts_ok :: "jschar \<Rightarrow> jschar \<Rightarrow> jsstr \<Rightarrow> match_parts \<Rightarrow> bool" where
  "parts_ok a b s m \<longleftrightarrow>
     s = bal_pre m @ [a] @ bal_body m @ [b] @ bal_post m \<and>
     balanced_text a b (bal_body m) \<and> pair_free a b (bal_pre m) \<and>
     bal_start m = int (length (bal_pre m)) \<and>
     bal_end m = Some (int (length (bal_pre m) + 1 + length (bal_body m)))"

lemma balanced_parts:
  assumes "a \<noteq> b"
  shows "\<exists>m. balanced (DString [a]) (DString [b]) s = Some (Inr m) \<and>
    (case m of None \<Rightarrow> pair_free a b s | Some m \<Rightarrow> parts_ok a b s m)"
proof -
  obtain res where res: "range (Some [a]) (Some [b]) s = Some res"
    and found: "if pair_free a b s then res = None else pair_found a b s res"
    using range_found [OF assms] by blast
  show ?thesis
  proof (cases "pair_free a b s")
    case True
    then show ?thesis using res found by (simp add: balanced_def delimiter_value_def)
  next
    case False
    then obtain l r where lr: "res = Some (int l, Some (int r))" and pair: "matched_pair a b s l r"
      and free: "pair_free a b (take l s)"
      using found by (auto simp: pair_found_def)
    have r: "l < r" "r < length s" "s ! l = a" "s ! r = b" using pair by (auto simp: matched_pair_def)
    have "js_slice s 0 (int l) = take l s" "js_slice s (int l + 1) (int r) = between s (Suc l) r"
      and "js_slice_from s (int r + 1) = drop (Suc r) s"
      using r by (simp_all add: js_slice_def js_slice_from_def js_rel_index_def between_def Let_def nat_add_distrib)
    moreover have "s = take l s @ [a] @ between s (Suc l) r @ [b] @ drop (Suc r) s"
      using r between_split [of 0 l r s] between_Suc [of 0 r s]
      by (simp add: between_def) (metis append_take_drop_id append.assoc append_Cons append_Nil)
    ultimately show ?thesis
      using pair free r res lr
      by (simp add: balanced_def delimiter_value_def parts_ok_def matched_pair_def between_def)
  qed
qed

section \<open>Theorems\<close>

text \<open>
  C38. For two different delimiters of one code unit, \<open>balanced\<close> always returns: undefined
  exactly when no opening delimiter is followed by a closing one, and otherwise a
  decomposition of the string around a matched pair, where the body is balanced and the part
  before the pair has no opening delimiter followed by a closing one.
\<close>

theorem balanced_finds_pair:
  assumes "a \<noteq> b"
  shows "\<exists>m. balanced (DString [a]) (DString [b]) s = Some (Inr m) \<and>
    (case m of
       None \<Rightarrow> pair_free a b s
     | Some m \<Rightarrow>
         s = bal_pre m @ [a] @ bal_body m @ [b] @ bal_post m \<and>
         balanced_text a b (bal_body m) \<and> pair_free a b (bal_pre m))"
  using balanced_parts [OF assms, of s] by (auto simp: parts_ok_def split: option.splits)

theorem balanced_finds_pair_witness:
  "\<exists>m. balanced (DString (lit ''{'')) (DString (lit ''}'')) (lit ''a{{b}c'') = Some (Inr m) \<and>
    (case m of
       None \<Rightarrow> pair_free (ch CHR ''{'') (ch CHR ''}'') (lit ''a{{b}c'')
     | Some m \<Rightarrow>
         lit ''a{{b}c'' = bal_pre m @ [ch CHR ''{''] @ bal_body m @ [ch CHR ''}''] @ bal_post m \<and>
         balanced_text (ch CHR ''{'') (ch CHR ''}'') (bal_body m) \<and>
         pair_free (ch CHR ''{'') (ch CHR ''}'') (bal_pre m))"
  using balanced_finds_pair [of "ch CHR ''{''" "ch CHR ''}''" "lit ''a{{b}c''"] by simp

end
