(* ===== verification/Brace_Expansion.thy ===== *)
theory Brace_Expansion
  imports Balanced_Match
begin

text \<open>
  The modules \<open>brace-expansion\<close> and \<open>concat-map\<close> of \<open>wordcut.js\<close> (lines 1041 to 1259): the
  expansion of \<open>a{b,c}d\<close> and \<open>{1..3}\<close> the way a shell does it.

  The escape tokens of the source contain a \<open>Math.random()\<close> value; its decimal text is a
  parameter, a \<open>random_text\<close> for each of the five tokens. A sequence with step 0 makes the
  loop of the source run forever, so the expansion is a \<open>partial_function\<close>, with \<open>None\<close> for
  not returning. Numbers of a sequence are exact integers, as the source's are up to
  \<open>2 ^ 53\<close>.
\<close>

section \<open>Escapes\<close>

datatype random_char = RDigit nat | RDot | RExp | RMinus

type_synonym random_text = "random_char list"

record random_texts =
  rnd_slash :: random_text
  rnd_open :: random_text
  rnd_close :: random_text
  rnd_comma :: random_text
  rnd_period :: random_text

fun random_unit :: "random_char \<Rightarrow> jschar" where
  "random_unit (RDigit n) = 48 + word_of_nat (n mod 10)"
| "random_unit RDot = 46"
| "random_unit RExp = 101"
| "random_unit RMinus = 45"

definition escSlash :: "random_texts \<Rightarrow> jsstr" where
  "escSlash R = [0] @ lit ''SLASH'' @ map random_unit (rnd_slash R) @ [0]"

definition escOpen :: "random_texts \<Rightarrow> jsstr" where
  "escOpen R = [0] @ lit ''OPEN'' @ map random_unit (rnd_open R) @ [0]"

definition escClose :: "random_texts \<Rightarrow> jsstr" where
  "escClose R = [0] @ lit ''CLOSE'' @ map random_unit (rnd_close R) @ [0]"

definition escComma :: "random_texts \<Rightarrow> jsstr" where
  "escComma R = [0] @ lit ''COMMA'' @ map random_unit (rnd_comma R) @ [0]"

definition escPeriod :: "random_texts \<Rightarrow> jsstr" where
  "escPeriod R = [0] @ lit ''PERIOD'' @ map random_unit (rnd_period R) @ [0]"

definition escapeBraces :: "random_texts \<Rightarrow> jsstr \<Rightarrow> jsstr" where
  "escapeBraces R str =
     (let s1 = js_join (escSlash R) (js_split str [92, 92]);
          s2 = js_join (escOpen R) (js_split s1 [92, 123]);
          s3 = js_join (escClose R) (js_split s2 [92, 125]);
          s4 = js_join (escComma R) (js_split s3 [92, 44])
      in js_join (escPeriod R) (js_split s4 [92, 46]))"

definition unescapeBraces :: "random_texts \<Rightarrow> jsstr \<Rightarrow> jsstr" where
  "unescapeBraces R str =
     (let s1 = js_join [92] (js_split str (escSlash R));
          s2 = js_join [123] (js_split s1 (escOpen R));
          s3 = js_join [125] (js_split s2 (escClose R));
          s4 = js_join [44] (js_split s3 (escComma R))
      in js_join [46] (js_split s4 (escPeriod R)))"

section \<open>Comma parts\<close>

text \<open>
  \<open>balanced('{', '}', str)\<close>. By \<open>balanced_parts\<close> it always returns without an exception,
  so the other cases do not arise.
\<close>

definition brace_match :: "jsstr \<Rightarrow> match_parts option" where
  "brace_match str =
     (case balanced (DString [123]) (DString [125]) str of Some (Inr m) \<Rightarrow> m | _ \<Rightarrow> None)"

lemma brace_match_parts: "brace_match s = Some m \<Longrightarrow> parts_ok 123 125 s m"
  using balanced_parts [of 123 125 s] by (auto simp: brace_match_def)

lemma brace_match_None: "brace_match s = None \<longleftrightarrow> pair_free 123 125 s"
proof -
  have "\<not> pair_free 123 125 s" if "parts_ok 123 125 s m" for m :: match_parts
  proof -
    have s: "s = bal_pre m @ [123] @ bal_body m @ [125] @ bal_post m" using that by (simp add: parts_ok_def)
    have "125 \<in> set (dropWhile (\<lambda>x. x \<noteq> (123 :: 16 word)) s)"
      unfolding s by (simp add: dropWhile_append)
    then show ?thesis by (simp add: pair_free_def)
  qed
  moreover obtain m where "balanced (DString [123]) (DString [125]) s = Some (Inr m)"
    and "case m of None \<Rightarrow> pair_free 123 125 s | Some m \<Rightarrow> parts_ok 123 125 s m"
    using balanced_parts [of 123 125 s] by auto
  ultimately show ?thesis by (cases m) (auto simp: brace_match_def)
qed

function parseCommaParts :: "jsstr \<Rightarrow> jsstr list" where
  "parseCommaParts str =
     (if str = [] then [[]]
      else case brace_match str of
             None \<Rightarrow> js_split str [44]
           | Some m \<Rightarrow>
               let p = js_split (bal_pre m) [44];
                   p1 = butlast p @ [last p @ [123] @ bal_body m @ [125]];
                   postParts = parseCommaParts (bal_post m)
               in if bal_post m \<noteq> []
                  then butlast p1 @ [last p1 @ hd postParts] @ tl postParts
                  else p1)"
  by pat_completeness auto
termination
proof (relation "measure length", goal_cases)
  case (2 str m p p1)
  then have "parts_ok 123 125 str m" by (simp add: brace_match_parts)
  then have "length str = length (bal_pre m @ [123] @ bal_body m @ [125] @ bal_post m)"
    unfolding parts_ok_def by metis
  then show ?case by simp
qed simp

declare parseCommaParts.simps [simp del]

section \<open>Sequences\<close>

text \<open>\<open>/\$$/\<close>, the two sequence patterns, \<open>/,.*\}/\<close>, \<open>/^-?0\d/\<close> and \<open>/\.\./\<close>.\<close>

definition dollar_end :: regexp where
  "dollar_end = RSeq (RChar 36) REnd"

definition opt_minus :: regexp where
  "opt_minus = RRepeat 0 (Some 1) True (RChar 45)"

definition digits_re :: regexp where
  "digits_re = RRepeat 1 None True (RClass False [CDigit True])"

definition dotdot_re :: regexp where
  "dotdot_re = RSeq (RChar 46) (RChar 46)"

definition step_re :: regexp where
  "step_re = RRepeat 0 (Some 1) True (RSeq dotdot_re (RSeq opt_minus digits_re))"

definition numeric_sequence :: regexp where
  "numeric_sequence =
     RSeq RBegin (RSeq (RSeq opt_minus (RSeq digits_re (RSeq dotdot_re
       (RSeq opt_minus (RSeq digits_re step_re))))) REnd)"

definition alpha_re :: regexp where
  "alpha_re = RClass False [CRange 97 122, CRange 65 90]"

definition alpha_sequence :: regexp where
  "alpha_sequence =
     RSeq RBegin (RSeq (RSeq alpha_re (RSeq dotdot_re (RSeq alpha_re step_re))) REnd)"

definition comma_close :: regexp where
  "comma_close = RSeq (RChar 44) (RSeq (RRepeat 0 None True RAny) (RChar 125))"

definition isPadded :: "jsstr \<Rightarrow> bool" where
  "isPadded el \<longleftrightarrow> rx_test None (RSeq RBegin (RSeq opt_minus (RSeq (RChar 48) (RClass False [CDigit True])))) el"

text \<open>The decimal text of an integer and the integer of a text \<open>-?\d+\<close>.\<close>

fun nat_text :: "nat \<Rightarrow> jsstr" where
  "nat_text n = (if n < 10 then [48 + word_of_nat n] else nat_text (n div 10) @ [48 + word_of_nat (n mod 10)])"

declare nat_text.simps [simp del]

definition int_text :: "int \<Rightarrow> jsstr" where
  "int_text i = (if i < 0 then 45 # nat_text (nat (- i)) else nat_text (nat i))"

definition digits_value :: "jsstr \<Rightarrow> int" where
  "digits_value ds = foldl (\<lambda>v d. 10 * v + (uint d - 48)) 0 ds"

text \<open>
  \<open>numeric\<close> is only applied to texts \<open>-?\d+\<close>, which are equal to the number \<open>parseInt\<close>
  reads, and to a single letter, for which \<open>parseInt\<close> is not a number.
\<close>

definition numeric :: "jsstr \<Rightarrow> int" where
  "numeric str =
     (let (neg, ds) = (case str of c # cs \<Rightarrow> if c = 45 then (True, cs) else (False, str) | [] \<Rightarrow> (False, []))
      in if ds \<noteq> [] \<and> list_all js_digit ds
         then (if neg then - digits_value ds else digits_value ds)
         else (case str of c # _ \<Rightarrow> uint c | [] \<Rightarrow> 0))"

definition lte :: "int \<Rightarrow> int \<Rightarrow> bool" where
  "lte i y \<longleftrightarrow> i \<le> y"

definition gte :: "int \<Rightarrow> int \<Rightarrow> bool" where
  "gte i y \<longleftrightarrow> i \<ge> y"

definition sequence_item :: "bool \<Rightarrow> bool \<Rightarrow> nat \<Rightarrow> int \<Rightarrow> jsstr" where
  "sequence_item isAlphaSequence pad width i =
     (if isAlphaSequence
      then let c = [word_of_int i] in if c = [92] then [] else c
      else let c = int_text i; need = int width - int (length c)
           in if pad \<and> need > 0
              then let z = replicate (nat need) 48
                   in if i < 0 then [45] @ z @ js_slice_from c 1 else z @ c
              else c)"

partial_function (option) sequence_loop ::
  "(int \<Rightarrow> int \<Rightarrow> bool) \<Rightarrow> (int \<Rightarrow> jsstr) \<Rightarrow> int \<Rightarrow> int \<Rightarrow> int \<Rightarrow> jsstr list \<Rightarrow> jsstr list option"
where
  "sequence_loop test item y incr i N =
     (if test i y then sequence_loop test item y incr (i + incr) (N @ [item i]) else Some N)"

declare sequence_loop.simps [code]

definition sequence :: "jsstr list \<Rightarrow> bool \<Rightarrow> jsstr list option" where
  "sequence n isAlphaSequence =
     (let x = numeric (n ! 0); y = numeric (n ! 1);
          width = max (length (n ! 0)) (length (n ! 1));
          incr = (if length n = 3 then \<bar>numeric (n ! 2)\<bar> else 1);
          reverse = y < x;
          incr = (if reverse then - incr else incr);
          test = (if reverse then gte else lte);
          pad = list_ex isPadded n
      in sequence_loop test (sequence_item isAlphaSequence pad width) y incr x [])"

section \<open>Expansion\<close>

text \<open>
  \<open>concatMap\<close> of the module \<open>concat-map\<close>: the function gets an element and its index; an
  array result (\<open>Inl\<close>) is appended, any other value (\<open>Inr\<close>) is pushed. The function may not
  return.
\<close>

fun concatMap_loop ::
  "('a \<Rightarrow> nat \<Rightarrow> ('b list + 'b) option) \<Rightarrow> nat \<Rightarrow> 'a list \<Rightarrow> 'b list \<Rightarrow> 'b list option"
where
  "concatMap_loop fn i [] res = Some res"
| "concatMap_loop fn i (x # xs) res =
     Option.bind (fn x i) (\<lambda>y.
       concatMap_loop fn (Suc i) xs (case y of Inl ys \<Rightarrow> res @ ys | Inr z \<Rightarrow> res @ [z]))"

definition concatMap :: "'a list \<Rightarrow> ('a \<Rightarrow> nat \<Rightarrow> ('b list + 'b) option) \<Rightarrow> 'b list option" where
  "concatMap xs fn = concatMap_loop fn 0 xs []"

lemma concatMap_loop_mono:
  assumes "\<And>x i. mono_option (\<lambda>f. B f x i)"
  shows "mono_option (\<lambda>f. concatMap_loop (B f) i xs res)"
  by (induction xs arbitrary: i res) (auto intro: assms option.const_mono bind_mono)

lemma concatMap_mono [partial_function_mono]:
  "(\<And>x i. mono_option (\<lambda>f. B f x i)) \<Longrightarrow> mono_option (\<lambda>f. concatMap xs (B f))"
  unfolding concatMap_def by (rule concatMap_loop_mono)

definition embrace :: "jsstr \<Rightarrow> jsstr" where
  "embrace str = [123] @ str @ [125]"

text \<open>
  The two loops at the end of \<open>expand\<close>; at the top level an empty expansion is dropped,
  unless it comes from a sequence.
\<close>

definition expansions :: "bool \<Rightarrow> bool \<Rightarrow> jsstr \<Rightarrow> jsstr list \<Rightarrow> jsstr list \<Rightarrow> jsstr list" where
  "expansions isTop isSequence pre N post =
     concat (map (\<lambda>x. filter (\<lambda>e. \<not> isTop \<or> isSequence \<or> e \<noteq> []) (map (\<lambda>p. pre @ x @ p) post)) N)"

partial_function (option) expand :: "random_texts \<Rightarrow> jsstr \<Rightarrow> bool \<Rightarrow> jsstr list option" where
  "expand R str isTop =
     (case brace_match str of
        None \<Rightarrow> Some [str]
      | Some m \<Rightarrow>
          if rx_test None dollar_end (bal_pre m) then Some [str]
          else
            let isNumericSequence = rx_test None numeric_sequence (bal_body m);
                isAlphaSequence = rx_test None alpha_sequence (bal_body m);
                isSequence = isNumericSequence \<or> isAlphaSequence;
                isOptions = js_indexOf (bal_body m) [44] 0 \<ge> 0
            in if \<not> isSequence \<and> \<not> isOptions then
                 if rx_test None comma_close (bal_post m)
                 then expand R (bal_pre m @ [123] @ bal_body m @ escClose R @ bal_post m) False
                 else Some [str]
               else if isSequence then
                 Option.bind (if bal_post m \<noteq> [] then expand R (bal_post m) False else Some [[]]) (\<lambda>post.
                 Option.bind (sequence (rx_split None dotdot_re (bal_body m)) isAlphaSequence) (\<lambda>N.
                   Some (expansions isTop True (bal_pre m) N post)))
               else
                 let parts = parseCommaParts (bal_body m)
                 in Option.bind
                      (if length parts = 1 then Option.bind (expand R (hd parts) False) (\<lambda>es. Some (map embrace es))
                       else Some parts) (\<lambda>n.
                    Option.bind (if bal_post m \<noteq> [] then expand R (bal_post m) False else Some [[]]) (\<lambda>post.
                      if length parts = 1 \<and> length n = 1
                      then Some (map (\<lambda>p. bal_pre m @ hd n @ p) post)
                      else Option.bind (concatMap n (\<lambda>el i. Option.bind (expand R el False) (\<lambda>es. Some (Inl es)))) (\<lambda>N.
                        Some (expansions isTop False (bal_pre m) N post)))))"

declare expand.simps [code]

definition expandTop :: "random_texts \<Rightarrow> jsstr \<Rightarrow> jsstr list option" where
  "expandTop R str =
     (if str = [] then Some []
      else let str = (if js_substr str 0 2 = lit ''{}'' then [92, 123, 92, 125] @ js_substr_from str 2 else str)
           in map_option (map (unescapeBraces R)) (expand R (escapeBraces R str) True))"

section \<open>Comma parts are the pieces of the text\<close>

lemma js_join_extend_last: "p \<noteq> [] \<Longrightarrow> js_join sep (butlast p @ [last p @ x]) = js_join sep p @ x"
  by (induction p) (auto simp: js_join_Cons)

lemma js_join_glue:
  "p \<noteq> [] \<Longrightarrow> q \<noteq> [] \<Longrightarrow> js_join sep (butlast p @ [last p @ hd q] @ tl q) = js_join sep p @ js_join sep q"
proof (induction p)
  case (Cons x p)
  then show ?case by (cases q; cases "tl q") (auto simp: js_join_Cons)
qed simp

lemma parseCommaParts_join: "parseCommaParts str \<noteq> [] \<and> js_join [44] (parseCommaParts str) = str"
proof (induction str rule: parseCommaParts.induct)
  case (1 str)
  show ?case
  proof (cases "str = [] \<or> brace_match str = None")
    case True
    then show ?thesis
      using js_join_split [of "[44]" str]
      by (subst (1 2) parseCommaParts.simps) (auto simp: js_split_def)
  next
    case False
    then obtain m where ne: "str \<noteq> []" and m: "brace_match str = Some m" by auto
    define p1 where "p1 = butlast (js_split (bal_pre m) [44]) @
      [last (js_split (bal_pre m) [44]) @ [123] @ bal_body m @ [125]]"
    have p1: "p1 \<noteq> []" by (simp add: p1_def)
    have "js_split (bal_pre m) [44] \<noteq> []" by (simp add: js_split_def)
    then have join: "js_join [44] p1 = bal_pre m @ [123] @ bal_body m @ [125]"
      unfolding p1_def by (simp add: js_join_extend_last js_join_split del: append.simps)
    have str: "str = bal_pre m @ [123] @ bal_body m @ [125] @ bal_post m"
      using brace_match_parts [OF m] by (simp add: parts_ok_def)
    have IH: "parseCommaParts (bal_post m) \<noteq> []" "js_join [44] (parseCommaParts (bal_post m)) = bal_post m"
      using 1 ne m by auto
    have "parseCommaParts str = (if bal_post m \<noteq> []
        then butlast p1 @ [last p1 @ hd (parseCommaParts (bal_post m))] @ tl (parseCommaParts (bal_post m)) else p1)"
      using ne m by (subst parseCommaParts.simps) (simp add: p1_def Let_def)
    then show ?thesis
      using js_join_glue [OF p1 IH(1), of "[44]"] p1 join IH(2) str by auto
  qed
qed

section \<open>Sequences end when their step is not zero\<close>

lemma sequence_loop_up:
  assumes "0 < incr"
  shows "\<exists>N'. sequence_loop lte item y incr i N = Some N'"
proof (induction "nat (y + 1 - i)" arbitrary: i N rule: less_induct)
  case less
  then show ?case using assms by (subst sequence_loop.simps) (auto simp: lte_def)
qed

lemma sequence_loop_down:
  assumes "incr < 0"
  shows "\<exists>N'. sequence_loop gte item y incr i N = Some N'"
proof (induction "nat (i + 1 - y)" arbitrary: i N rule: less_induct)
  case less
  then show ?case using assms by (subst sequence_loop.simps) (auto simp: gte_def)
qed

lemma sequence_loop_stuck:
  assumes "sequence_loop test item y incr i N = Some N'"
  shows "incr = 0 \<longrightarrow> \<not> test i y"
  using assms
proof (rule sequence_loop.raw_induct [where P = "\<lambda>test item y incr i N N'. incr = 0 \<longrightarrow> \<not> test i y", rotated])
  fix loop :: "(int \<Rightarrow> int \<Rightarrow> bool) \<Rightarrow> (int \<Rightarrow> jsstr) \<Rightarrow> int \<Rightarrow> int \<Rightarrow> int \<Rightarrow> jsstr list \<Rightarrow> jsstr list option"
  fix test item y incr i N N'
  assume IH: "\<And>test item y incr i N N'. loop test item y incr i N = Some N' \<Longrightarrow> incr = 0 \<longrightarrow> \<not> test i y"
    and "(if test i y then loop test item y incr (i + incr) (N @ [item i]) else Some N) = Some N'"
  then show "incr = 0 \<longrightarrow> \<not> test i y" using IH [of test item y incr "i + incr"] by auto
qed

lemma sequence_None_iff:
  "sequence n isAlphaSequence = None \<longleftrightarrow> length n = 3 \<and> numeric (n ! 2) = 0"
proof -
  define x y where "x = numeric (n ! 0)" and "y = numeric (n ! 1)"
  define item where "item = sequence_item isAlphaSequence (list_ex isPadded n) (max (length (n ! 0)) (length (n ! 1)))"
  define incr where "incr = (if length n = 3 then \<bar>numeric (n ! 2)\<bar> else 1)"
  have seq: "sequence n isAlphaSequence =
      sequence_loop (if y < x then gte else lte) item y (if y < x then - incr else incr) x []"
    by (simp add: sequence_def Let_def x_def y_def item_def incr_def)
  have test: "(if y < x then gte else lte) x y" by (simp add: gte_def lte_def)
  show ?thesis
  proof (cases "incr = 0")
    case True
    have "sequence_loop (if y < x then gte else lte) item y 0 x [] = None"
      using sequence_loop_stuck [of "if y < x then gte else lte" item y 0 x "[]"] test
      by (cases "sequence_loop (if y < x then gte else lte) item y 0 x []") auto
    then have "sequence n isAlphaSequence = None" unfolding seq True by (auto split: if_splits)
    then show ?thesis using True by (auto simp: incr_def split: if_split_asm)
  next
    case False
    then have "0 < incr" by (auto simp: incr_def split: if_split_asm)
    then have "\<exists>N. sequence n isAlphaSequence = Some N"
      unfolding seq by (cases "y < x") (auto intro: sequence_loop_up sequence_loop_down)
    then show ?thesis using False by (auto simp: incr_def split: if_split_asm)
  qed
qed

section \<open>Options\<close>

text \<open>Code units with no meaning to the expansion.\<close>

definition plain_unit :: "jschar \<Rightarrow> bool" where
  "plain_unit c \<longleftrightarrow> c \<notin> {0, 36, 44, 46, 92, 123, 125}"

lemma js_split_absent: "c \<notin> set s \<Longrightarrow> js_split s (c # cs) = [s]"
proof -
  have "c \<notin> set s \<Longrightarrow> split_loop (c # cs) acc s = [acc @ s]" for acc
    by (induction s arbitrary: acc) auto
  then show "c \<notin> set s \<Longrightarrow> js_split s (c # cs) = [s]" by (simp add: js_split_def)
qed

lemma escapeBraces_plain: "92 \<notin> set s \<Longrightarrow> escapeBraces R s = s"
  by (simp add: escapeBraces_def js_split_absent Let_def)

lemma unescapeBraces_plain: "0 \<notin> set s \<Longrightarrow> unescapeBraces R s = s"
  by (simp add: unescapeBraces_def escSlash_def escOpen_def escClose_def escComma_def escPeriod_def
      js_split_absent Let_def)

text \<open>The matched pair of a text whose first braces are around a text without braces.\<close>

lemma pair_scan_skip:
  "a \<notin> set xs \<Longrightarrow> b \<notin> set xs \<Longrightarrow>
   pair_scan a b k (xs @ ys) begs left right = pair_scan a b (k + length xs) ys begs left right"
  by (induction xs arbitrary: k) auto

lemma brace_match_first:
  assumes "123 \<notin> set pre" and "123 \<notin> set body" "125 \<notin> set body"
  shows "brace_match (pre @ [123] @ body @ [125] @ post) =
    Some \<lparr>bal_start = int (length pre), bal_end = Some (int (length pre + 1 + length body)),
      bal_pre = pre, bal_body = body, bal_post = post\<rparr>"
proof -
  let ?s = "pre @ [123] @ body @ [125] @ post"
  have tw: "takeWhile (\<lambda>x. x \<noteq> 123) ?s = pre" and dw: "dropWhile (\<lambda>x. x \<noteq> 123) ?s = 123 # body @ 125 # post"
    using assms(1) by (auto simp: takeWhile_append dropWhile_append)
  have "\<not> pair_free 123 125 ?s" unfolding pair_free_def dw by simp
  then have "range (Some [123]) (Some [125]) ?s =
      Some (pair_scan 123 125 (length pre) (123 # body @ 125 # post) [] (int (length ?s)) None)"
    using range_units [of 123 125 ?s] by (simp only: tw dw) simp
  then have r: "range (Some [123]) (Some [125]) ?s =
      Some (Some (int (length pre), Some (int (length pre + 1 + length body))))"
    using assms by (simp add: pair_scan_skip)
  then show ?thesis
    by (simp add: brace_match_def balanced_def delimiter_value_def js_slice_def js_slice_from_def
        js_rel_index_def Let_def nat_add_distrib)
qed

lemma parseCommaParts_plain:
  assumes "123 \<notin> set s"
  shows "parseCommaParts s = js_split s [44]"
  using assms pair_free_no_open [of 123 s 125] brace_match_None [of s]
  by (subst parseCommaParts.simps) simp

lemma expand_no_pair: "pair_free 123 125 s \<Longrightarrow> expand R s isTop = Some [s]"
  using brace_match_None [of s] by (subst expand.simps) simp

lemma concatMap_single:
  assumes "\<And>x i. x \<in> set xs \<Longrightarrow> fn x i = Some (Inl [x])"
  shows "concatMap xs fn = Some xs"
proof -
  have "\<forall>x \<in> set ys. \<forall>i. fn x i = Some (Inl [x]) \<Longrightarrow> concatMap_loop fn i ys res = Some (res @ ys)" for ys i res
    by (induction ys arbitrary: i res) auto
  then show ?thesis using assms by (simp add: concatMap_def)
qed

lemma no_char_no_seq:
  assumes "46 \<notin> set s"
  shows "\<not> rx_test None numeric_sequence s" and "\<not> rx_test None alpha_sequence s"
proof -
  have dot: "rx_ends None s dotdot_re i = {}" for i
    using assms by (auto simp: dotdot_re_def rx_ends_simps char_eq_def dest: nth_mem)
  show "\<not> rx_test None numeric_sequence s" "\<not> rx_test None alpha_sequence s"
    unfolding numeric_sequence_def alpha_sequence_def rx_test_anchored
    by (simp_all only: rx_ends_compound dot UN_empty UN_constant UN_empty2) simp_all
qed

lemma no_dollar_end: "36 \<notin> set s \<Longrightarrow> \<not> rx_test None dollar_end s"
  by (auto simp: dollar_end_def rx_test_iff rx_ends_simps char_eq_def split: if_split_asm dest: nth_mem)

lemma set_js_join: "set (js_join sep xs) \<subseteq> set sep \<union> \<Union> (set ` set xs)"
  by (induction sep xs rule: js_join.induct) auto

lemma not_in_join: "c \<notin> set sep \<Longrightarrow> (\<And>x. x \<in> set xs \<Longrightarrow> c \<notin> set x) \<Longrightarrow> c \<notin> set (js_join sep xs)"
  using set_js_join [of sep xs] by blast

lemma comma_in_join: "1 < length xs \<Longrightarrow> 44 \<in> set (js_join [44] xs)"
  by (cases xs; cases "tl xs") auto

lemma plain_not_in: "list_all plain_unit s \<Longrightarrow> c \<in> {0, 36, 44, 46, 92, 123, 125} \<Longrightarrow> c \<notin> set s"
  by (auto simp: plain_unit_def list_all_iff)

lemma expand_options:
  assumes parts: "1 < length parts" "list_all (list_all plain_unit) parts"
    and pre: "list_all plain_unit pre"
  shows "expand R (pre @ [123] @ js_join [44] parts @ [125] @ post) isTop =
    Option.bind (expand R post False) (\<lambda>ps. Some (expansions isTop False pre parts ps))"
proof -
  let ?body = "js_join [44] parts"
  have units: "c \<notin> set p" if "p \<in> set parts" "c \<in> {0, 36, 44, 46, 92, 123, 125}" for p c
    by (rule plain_not_in [OF _ that(2)])
      (use parts(2) that(1) in \<open>simp add: list_all_iff [of "list_all plain_unit"]\<close>)
  have body: "123 \<notin> set ?body" "125 \<notin> set ?body" "46 \<notin> set ?body"
    by (rule not_in_join; simp add: units)+
  have m: "brace_match (pre @ [123] @ ?body @ [125] @ post) =
      Some \<lparr>bal_start = int (length pre), bal_end = Some (int (length pre + 1 + length ?body)),
        bal_pre = pre, bal_body = ?body, bal_post = post\<rparr>"
    using brace_match_first [of pre ?body post] plain_not_in [OF pre] body by simp
  have split: "parseCommaParts ?body = parts"
    unfolding parseCommaParts_plain [OF body(1)]
    by (rule js_split_join) (use parts(1) units in auto)
  have comma: "0 \<le> js_indexOf ?body [44] 0"
    using comma_in_join [OF parts(1)] js_indexOf_idx [of 0 ?body 44] idx_neg [of 44 0 ?body] by auto
  have each: "concatMap parts (\<lambda>el i. Option.bind (expand R el False) (\<lambda>es. Some (Inl es))) = Some parts"
    by (rule concatMap_single) (simp add: expand_no_pair pair_free_no_open units)
  have "(if post \<noteq> [] then expand R post False else Some [[]]) = expand R post False"
    by (simp add: expand_no_pair pair_free_no_open)
  then show ?thesis
    using parts(1)
    by (subst expand.simps, simp only: m option.case match_parts.simps)
      (simp add: no_dollar_end plain_not_in [OF pre] no_char_no_seq [OF body(3)] comma split each
        del: expand.simps)
qed

text \<open>A text made of groups \<open>pre{a,b,...}\<close> and a tail, and all the ways to choose from the groups.\<close>

fun group_text :: "(jsstr \<times> jsstr list) list \<Rightarrow> jsstr \<Rightarrow> jsstr" where
  "group_text [] tail = tail"
| "group_text ((pre, parts) # gs) tail = pre @ [123] @ js_join [44] parts @ [125] @ group_text gs tail"

fun choices :: "(jsstr \<times> jsstr list) list \<Rightarrow> jsstr \<Rightarrow> jsstr list" where
  "choices [] tail = [tail]"
| "choices ((pre, parts) # gs) tail =
     concat (map (\<lambda>x. map (\<lambda>rest. pre @ x @ rest) (choices gs tail)) parts)"

definition plain_groups :: "(jsstr \<times> jsstr list) list \<Rightarrow> bool" where
  "plain_groups = list_all (\<lambda>(pre, parts).
     list_all plain_unit pre \<and> 1 < length parts \<and> list_all (list_all plain_unit) parts)"

lemma expand_groups_inner:
  "plain_groups gs \<Longrightarrow> list_all plain_unit tail \<Longrightarrow> expand R (group_text gs tail) False = Some (choices gs tail)"
proof (induction gs)
  case Nil
  then show ?case by (simp add: expand_no_pair pair_free_no_open plain_not_in)
next
  case (Cons g gs)
  obtain pre parts where g: "g = (pre, parts)" by (cases g)
  show ?case
    using Cons expand_options [of parts pre R "group_text gs tail" False]
    by (simp add: g plain_groups_def expansions_def)
qed

lemma group_text_units:
  assumes "plain_groups gs" and "list_all plain_unit tail" and "c \<in> {0, 92}"
  shows "c \<notin> set (group_text gs tail)"
  using assms(1)
proof (induction gs)
  case Nil
  then show ?case using assms(2,3) plain_not_in by auto
next
  case (Cons g gs)
  obtain pre parts where g: "g = (pre, parts)" by (cases g)
  have "c \<notin> set p" if "p \<in> set parts" for p
    using Cons.prems assms(3) that plain_not_in [of p c] by (auto simp: plain_groups_def g list_all_iff)
  then have "c \<notin> set (js_join [44] parts)"
    using assms(3) by (intro not_in_join) auto
  moreover have "c \<notin> set pre"
    using Cons.prems assms(3) plain_not_in [of pre c] by (auto simp: plain_groups_def g)
  ultimately show ?case using Cons assms(3) by (auto simp: g plain_groups_def)
qed

lemma choices_units:
  "plain_groups gs \<Longrightarrow> list_all plain_unit tail \<Longrightarrow> e \<in> set (choices gs tail) \<Longrightarrow> list_all plain_unit e"
proof (induction gs arbitrary: e)
  case (Cons g gs)
  obtain pre parts where g: "g = (pre, parts)" by (cases g)
  obtain x rest where e: "e = pre @ x @ rest" and x: "x \<in> set parts" and "rest \<in> set (choices gs tail)"
    using Cons.prems(3) by (auto simp: g)
  then have "list_all plain_unit rest"
    using Cons by (simp add: plain_groups_def)
  moreover have "list_all plain_unit x" "list_all plain_unit pre"
    using Cons.prems(1) x by (simp_all add: plain_groups_def g list_all_iff [of "list_all plain_unit"])
  ultimately show ?case by (simp add: e)
qed simp

lemma join_first:
  assumes "1 < length parts" and "list_all (list_all plain_unit) parts"
  obtains c cs where "js_join [44] parts = c # cs" and "c \<noteq> 125"
proof -
  obtain x y ys where p: "parts = x # y # ys"
    using assms(1) by (cases parts; cases "tl parts") auto
  show ?thesis
    using assms(2) by (cases x) (auto simp: p plain_unit_def intro: that)
qed

lemma expandTop_groups:
  assumes "gs \<noteq> []" and gs: "plain_groups gs" and tail: "list_all plain_unit tail"
  shows "expandTop R (group_text gs tail) = Some (filter (\<lambda>e. e \<noteq> []) (choices gs tail))"
proof -
  obtain pre parts gs' where split: "gs = (pre, parts) # gs'" using assms(1) by (cases gs) auto
  let ?s = "group_text gs tail"
  have "take 2 ?s \<noteq> [123, 125]"
  proof (cases pre)
    case Nil
    have "1 < length parts" "list_all (list_all plain_unit) parts"
      using gs by (simp_all add: split plain_groups_def)
    then obtain c cs where "js_join [44] parts = c # cs" "c \<noteq> 125" by (rule join_first)
    then show ?thesis by (simp add: split Nil)
  next
    case (Cons c cs)
    then show ?thesis using gs plain_not_in [of pre 123] by (simp add: split plain_groups_def)
  qed
  then have sub: "js_substr ?s 0 2 \<noteq> lit ''{}''"
    by (simp add: js_substr_def js_rel_index_def)
  have "expand R ?s True = Some (expansions True False pre parts (choices gs' tail))"
    using expand_options [of parts pre R "group_text gs' tail" True] expand_groups_inner [of gs' tail R] gs tail
    by (simp add: split plain_groups_def)
  moreover have "expansions True False pre parts (choices gs' tail) = filter (\<lambda>e. e \<noteq> []) (choices gs tail)"
    by (simp add: split expansions_def filter_concat comp_def)
  moreover have "map (unescapeBraces R) (filter (\<lambda>e. e \<noteq> []) (choices gs tail)) = filter (\<lambda>e. e \<noteq> []) (choices gs tail)"
    using choices_units [OF gs tail] plain_not_in by (intro map_idI unescapeBraces_plain) auto
  moreover have "escapeBraces R ?s = ?s" "?s \<noteq> []"
    using group_text_units [OF gs tail, of 92] by (simp_all add: escapeBraces_plain split)
  ultimately show ?thesis using sub by (simp add: expandTop_def)
qed

section \<open>Numeric sequences\<close>

lemma nat_text_nonempty [simp]: "nat_text n \<noteq> []"
  by (subst nat_text.simps) simp

lemma unit_digit: "n < 10 \<Longrightarrow> uint (48 + word_of_nat n :: jschar) = 48 + int n"
  by (simp add: uint_word_ariths(1) unsigned_of_nat take_bit_eq_mod flip: uint_nat)

lemma digit_unit: "n < 10 \<Longrightarrow> js_digit (48 + word_of_nat n)"
  using unit_digit [of n] by (simp add: js_digit_def word_le_def)

lemma nat_text_digits: "list_all js_digit (nat_text n) \<and> digits_value (nat_text n) = int n"
proof (induction n rule: nat_text.induct)
  case (1 n)
  show ?case
  proof (cases "n < 10")
    case True
    then show ?thesis
      by (subst (1 2) nat_text.simps) (simp add: digit_unit unit_digit digits_value_def)
  next
    case False
    then have "nat_text n = nat_text (n div 10) @ [48 + word_of_nat (n mod 10)]"
      by (subst nat_text.simps) simp
    with 1 False show ?thesis
      by (simp add: digits_value_def digit_unit unit_digit) presburger
  qed
qed

lemma digit_not_minus: "js_digit c \<Longrightarrow> c \<noteq> 45"
  by (auto simp: js_digit_def word_le_def)

lemma numeric_int_text: "numeric (int_text i) = i"
proof (cases "i < 0")
  case True
  then show ?thesis
    using nat_text_digits [of "nat (- i)"] by (simp add: numeric_def int_text_def)
next
  case False
  obtain c cs where c: "nat_text (nat i) = c # cs" by (cases "nat_text (nat i)") auto
  then have "c \<noteq> 45" using nat_text_digits [of "nat i"] by (auto dest: digit_not_minus)
  then show ?thesis
    using False nat_text_digits [of "nat i"] by (simp add: numeric_def int_text_def c)
qed

lemma nat_text_hd: "0 < n \<Longrightarrow> hd (nat_text n) \<noteq> 48"
proof (induction n rule: nat_text.induct)
  case (1 n)
  show ?case
  proof (cases "n < 10")
    case True
    then have "uint (48 + word_of_nat n :: jschar) \<noteq> uint (48 :: jschar)"
      using unit_digit [of n] "1.prems" by simp
    then have "48 + word_of_nat n \<noteq> (48 :: jschar)" by metis
    then show ?thesis using True by (simp add: nat_text.simps)
  next
    case False
    then show ?thesis using 1 by (subst nat_text.simps) (simp add: div_greater_zero_iff)
  qed
qed

lemma isPadded_iff:
  "isPadded s \<longleftrightarrow>
     1 < length s \<and> s ! 0 = 48 \<and> js_digit (s ! 1) \<or>
     2 < length s \<and> s ! 0 = 45 \<and> s ! 1 = 48 \<and> js_digit (s ! 2)"
proof -
  have minus: "rx_ends None s opt_minus 0 = (if s \<noteq> [] \<and> s ! 0 = 45 then {0, 1} else {0})"
    by (cases s) (auto simp: opt_minus_def rx_ends_simps char_eq_def)
  show ?thesis
    unfolding isPadded_def rx_test_iff
    by (auto simp: rx_ends_simps minus char_eq_def class_has_def numeral_2_eq_2 split: if_split_asm)
qed

lemma int_text_not_padded: "\<not> isPadded (int_text i)"
proof (cases "i < 0")
  case True
  then have "nat_text (nat (- i)) ! 0 \<noteq> 48"
    using nat_text_hd [of "nat (- i)"] by (simp add: hd_conv_nth)
  then show ?thesis using True by (auto simp: isPadded_iff int_text_def)
next
  case False
  show ?thesis
  proof (cases "i = 0")
    case True
    then show ?thesis by (simp add: isPadded_iff int_text_def nat_text.simps)
  next
    case False
    with \<open>\<not> i < 0\<close> have "nat_text (nat i) ! 0 \<noteq> 48" "nat_text (nat i) ! 0 \<noteq> 45"
      using nat_text_hd [of "nat i"] nat_text_digits [of "nat i"] digit_not_minus
      by (simp_all add: hd_conv_nth list_all_length)
    with \<open>\<not> i < 0\<close> show ?thesis by (auto simp: isPadded_iff int_text_def)
  qed
qed

lemma sequence_loop_upto:
  "x \<le> y + 1 \<Longrightarrow> sequence_loop lte item y 1 x N = Some (N @ map item [x..y])"
proof (induction "nat (y + 1 - x)" arbitrary: x N)
  case 0
  then show ?case by (subst sequence_loop.simps) (simp add: lte_def)
next
  case (Suc d)
  then have "x \<le> y" by simp
  with Suc show ?case
    by (subst sequence_loop.simps) (simp add: lte_def upto_rec1 [of x y])
qed

lemma sequence_loop_downto:
  "y \<le> x + 1 \<Longrightarrow> sequence_loop gte item y (- 1) x N = Some (N @ map item (rev [y..x]))"
proof (induction "nat (x + 1 - y)" arbitrary: x N)
  case 0
  then show ?case by (subst sequence_loop.simps) (simp add: gte_def)
next
  case (Suc d)
  then have "y \<le> x" by simp
  with Suc show ?case
    by (subst sequence_loop.simps) (simp add: gte_def upto_rec2 [of y x])
qed

section \<open>Theorems\<close>

text \<open>
  The comma parts of a text, joined with commas, are the text: splitting at the commas
  outside of braces loses nothing.
\<close>

theorem brace_comma_parts_roundtrip: "js_join [44] (parseCommaParts str) = str"
  using parseCommaParts_join [of str] by simp


text \<open>
  A sequence between two integers written in decimal counts from the first to the second,
  in either direction, and writes every number in decimal.
\<close>

theorem brace_sequence_counts:
  "sequence [int_text x, int_text y] False =
     Some (map int_text (if x \<le> y then [x..y] else rev [y..x]))"
proof -
  have item: "sequence_item False False w = int_text" for w
    by (rule ext) (simp add: sequence_item_def)
  show ?thesis
    using sequence_loop_upto [of x y int_text "[]"] sequence_loop_downto [of y x int_text "[]"]
    by (simp add: sequence_def numeric_int_text int_text_not_padded item Let_def)
qed



end
