(* ===== verification/Minimatch.thy ===== *)
theory Minimatch
  imports Minimatch_Parse Brace_Expansion "HOL-Library.AList"
begin

text \<open>
  The rest of the module \<open>minimatch\<close> (\<open>wordcut.js\<close>, lines 3117 to 4039): the objects
  \<open>Minimatch\<close>, their construction, and the matching of paths.

  \<^item> The Unicode tables behind \<open>toLowerCase\<close> and the flag \<open>i\<close> are the parameter \<open>U\<close>; the
    random texts of \<open>brace-expansion\<close> are its parameter \<open>R\<close>.
  \<^item> A result is \<open>None\<close> when brace expansion does not return, and otherwise an exception or
    a value.
  \<^item> \<open>path.sep\<close> of the bundled module \<open>path\<close> is the slash, so the branches for other
    separators are never taken.
  \<^item> \<open>matchOne\<close> walks the lists of segments from the front instead of counting \<open>fi\<close> and \<open>pi\<close>.
\<close>

section \<open>Objects\<close>

record unicode =
  toLowerCase :: "jsstr \<Rightarrow> jsstr"
  canonicalize :: "jschar \<Rightarrow> jschar"

record minimatch_object =
  mm_options :: glob_options
  mm_set :: "glob_part list list"
  mm_globSet :: "jsstr list"
  mm_pattern :: jsstr
  mm_negate :: bool
  mm_comment :: bool
  mm_empty :: bool

definition js_trim :: "jsstr \<Rightarrow> jsstr" where
  "js_trim s = rev (dropWhile js_space (rev (dropWhile js_space s)))"

definition slashSplit :: regexp where
  "slashSplit = RRepeat 1 None True (RChar 47)"

definition slash_split :: "jsstr \<Rightarrow> jsstr list" where
  "slash_split s = rx_split None slashSplit s"

definition set_option :: "string \<times> bool \<Rightarrow> glob_options \<Rightarrow> glob_options" where
  "set_option kv t = AList.update (fst kv) (snd kv) t"

definition ext :: "glob_options \<Rightarrow> glob_options \<Rightarrow> glob_options" where
  "ext a b = fold set_option a (fold set_option b [])"

section \<open>Construction\<close>

definition parseNegate :: "minimatch_object \<Rightarrow> minimatch_object" where
  "parseNegate mm =
     (if opt (mm_options mm) ''nonegate'' then mm
      else
        let negateOffset = length (takeWhile (\<lambda>c. c = 33) (mm_pattern mm))
        in mm\<lparr>mm_pattern := (if negateOffset \<noteq> 0 then js_substr_from (mm_pattern mm) (int negateOffset) else mm_pattern mm),
              mm_negate := odd negateOffset\<rparr>)"

text \<open>\<open>/\{.*\}/\<close>\<close>

definition has_braces :: regexp where
  "has_braces = RSeq (RChar 123) (RSeq (RRepeat 0 None True RAny) (RChar 125))"

definition braceExpand :: "random_texts \<Rightarrow> jsstr \<Rightarrow> glob_options \<Rightarrow> jsstr list option" where
  "braceExpand R pat options =
     (if opt options ''nobrace'' \<or> \<not> rx_test None has_braces pat then Some [pat]
      else expandTop R pat)"

definition part_of :: "parse_result \<Rightarrow> glob_part" where
  "part_of r = (case r of Part p \<Rightarrow> p | Sub t b \<Rightarrow> Unusable)"

fun usable :: "glob_part \<Rightarrow> bool" where
  "usable Unusable = False"
| "usable _ = True"

definition parse_parts :: "glob_options \<Rightarrow> jsstr \<Rightarrow> js_error + glob_part list" where
  "parse_parts options s =
     emap (\<lambda>t. ebind (glob_parse options t False) (\<lambda>r. Inr (part_of r))) (slash_split s)"

definition make :: "random_texts \<Rightarrow> minimatch_object \<Rightarrow> (js_error + minimatch_object) option" where
  "make R mm =
     (if \<not> opt (mm_options mm) ''nocomment'' \<and> js_charAt (mm_pattern mm) 0 = [35]
      then Some (Inr (mm\<lparr>mm_comment := True\<rparr>))
      else if mm_pattern mm = [] then Some (Inr (mm\<lparr>mm_empty := True\<rparr>))
      else
        let mm = parseNegate mm
        in Option.bind (braceExpand R (mm_pattern mm) (mm_options mm)) (\<lambda>globSet.
             Some (ebind (emap (parse_parts (mm_options mm)) globSet) (\<lambda>set.
               Inr (mm\<lparr>mm_globSet := globSet, mm_set := filter (list_all usable) set\<rparr>)))))"

definition new_Minimatch :: "random_texts \<Rightarrow> jsstr \<Rightarrow> glob_options \<Rightarrow> (js_error + minimatch_object) option" where
  "new_Minimatch R pat options =
     make R \<lparr>mm_options = options, mm_set = [], mm_globSet = [], mm_pattern = js_trim pat, mm_negate = False,
             mm_comment = False, mm_empty = False\<rparr>"

section \<open>Matching\<close>

text \<open>Segments that a globstar does not swallow.\<close>

definition dotted :: "glob_options \<Rightarrow> jsstr \<Rightarrow> bool" where
  "dotted options f \<longleftrightarrow> f = [46] \<or> f = [46, 46] \<or> \<not> opt options ''dot'' \<and> js_charAt f 0 = [46]"

definition canon_of :: "unicode \<Rightarrow> bool \<Rightarrow> canon" where
  "canon_of U i = (if i then Some (canonicalize U) else None)"

fun part_hit :: "unicode \<Rightarrow> glob_options \<Rightarrow> glob_part \<Rightarrow> jsstr \<Rightarrow> bool" where
  "part_hit U options (Literal p) f =
     (if opt options ''nocase'' then toLowerCase U f = toLowerCase U p else f = p)"
| "part_hit U options (Magic r i texts) f = rx_test (canon_of U i) r f"
| "part_hit U options _ f = False"

function (sequential) matchOne :: "unicode \<Rightarrow> glob_options \<Rightarrow> jsstr list \<Rightarrow> glob_part list \<Rightarrow> bool \<Rightarrow> bool"
  and globstar_while :: "unicode \<Rightarrow> glob_options \<Rightarrow> jsstr list \<Rightarrow> glob_part list \<Rightarrow> bool \<Rightarrow> bool"
where
  "matchOne U options [] [] partial = True"
| "matchOne U options [] (p # ps) partial = partial"
| "matchOne U options (f # fs) [] partial = (fs = [] \<and> f = [])"
| "matchOne U options (f # fs) (Unusable # ps) partial = False"
| "matchOne U options (f # fs) (Globstar # ps) partial =
     (if ps = [] then list_all (\<lambda>f. \<not> dotted options f) (f # fs)
      else globstar_while U options (f # fs) ps partial)"
| "matchOne U options (f # fs) (p # ps) partial =
     (part_hit U options p f \<and> matchOne U options fs ps partial)"
| "globstar_while U options [] ps partial = partial"
| "globstar_while U options (f # fs) ps partial =
     (if matchOne U options (f # fs) ps partial then True
      else if dotted options f then False
      else globstar_while U options fs ps partial)"
  by pat_completeness auto
termination
  by (relation "measures [\<lambda>x. case x of Inl (U, options, fs, ps, partial) \<Rightarrow> length ps
                                       | Inr (U, options, fs, ps, partial) \<Rightarrow> length ps,
                          \<lambda>x. case x of Inl (U, options, fs, ps, partial) \<Rightarrow> 0
                                       | Inr (U, options, fs, ps, partial) \<Rightarrow> Suc (length fs)]") auto

text \<open>The last segment that is not empty, or the first one.\<close>

definition base_segment :: "jsstr list \<Rightarrow> jsstr" where
  "base_segment f = (case filter (\<lambda>x. x \<noteq> []) f of [] \<Rightarrow> hd f | xs \<Rightarrow> last xs)"

definition mm_match :: "unicode \<Rightarrow> minimatch_object \<Rightarrow> jsstr \<Rightarrow> bool \<Rightarrow> bool" where
  "mm_match U mm f partial =
     (if mm_comment mm then False
      else if mm_empty mm then f = []
      else if f = [47] \<and> partial then True
      else
        let options = mm_options mm; segments = slash_split f;
            hit = list_ex (\<lambda>pat.
              matchOne U options
                (if opt options ''matchBase'' \<and> length pat = 1 then [base_segment segments] else segments)
                pat partial) (mm_set mm)
        in if hit then (if opt options ''flipNegate'' then True else \<not> mm_negate mm)
           else if opt options ''flipNegate'' then False else mm_negate mm)"

definition minimatch :: "unicode \<Rightarrow> random_texts \<Rightarrow> jsstr \<Rightarrow> jsstr \<Rightarrow> glob_options \<Rightarrow> (js_error + bool) option" where
  "minimatch U R p pat options =
     (if \<not> opt options ''nocomment'' \<and> js_charAt pat 0 = [35] then Some (Inr False)
      else if js_trim pat = [] then Some (Inr (p = []))
      else Option.bind (new_Minimatch R pat options) (\<lambda>mm.
             Some (ebind mm (\<lambda>mm. Inr (mm_match U mm p False)))))"

definition minimatch_filter ::
  "unicode \<Rightarrow> random_texts \<Rightarrow> jsstr \<Rightarrow> glob_options \<Rightarrow> jsstr \<Rightarrow> (js_error + bool) option" where
  "minimatch_filter U R pat options p = minimatch U R p pat options"

text \<open>
  \<open>defaults\<close>: the function it returns calls \<open>orig.minimatch\<close>, a property that the module
  never sets, while the constructor it returns calls \<open>orig.Minimatch\<close>.
\<close>

definition minimatch_defaults ::
  "unicode \<Rightarrow> random_texts \<Rightarrow> glob_options \<Rightarrow> jsstr \<Rightarrow> jsstr \<Rightarrow> glob_options \<Rightarrow> (js_error + bool) option" where
  "minimatch_defaults U R def p pat options =
     (if def = [] then minimatch U R p pat options
      else Some (Inl (TypeError ''orig.minimatch is not a function'')))"

definition Minimatch_defaults ::
  "random_texts \<Rightarrow> glob_options \<Rightarrow> jsstr \<Rightarrow> glob_options \<Rightarrow> (js_error + minimatch_object) option" where
  "Minimatch_defaults R def pat options =
     (if def = [] then new_Minimatch R pat options else new_Minimatch R pat (ext def options))"

definition minimatch_match ::
  "unicode \<Rightarrow> random_texts \<Rightarrow> jsstr list \<Rightarrow> jsstr \<Rightarrow> glob_options \<Rightarrow> (js_error + jsstr list) option" where
  "minimatch_match U R fs pat options =
     Option.bind (new_Minimatch R pat options) (\<lambda>mm.
       Some (ebind mm (\<lambda>mm.
         let hits = filter (\<lambda>f. mm_match U mm f False) fs
         in Inr (if opt options ''nonull'' \<and> hits = [] then hits @ [pat] else hits))))"

text \<open>\<open>makeRe\<close>; the result \<open>false\<close> of the source is \<open>None\<close> inside \<open>Inr\<close>.\<close>

definition part_source :: "glob_options \<Rightarrow> glob_part \<Rightarrow> jsstr" where
  "part_source options p =
     (case p of
        Globstar \<Rightarrow> if opt options ''noglobstar'' then star else if opt options ''dot'' then twoStarDot else twoStarNoDot
      | Literal t \<Rightarrow> regExpEscape t
      | Magic r i texts \<Rightarrow> (case texts of Some (src, glob) \<Rightarrow> src | None \<Rightarrow> [])
      | Unusable \<Rightarrow> [])"

definition make_source :: "minimatch_object \<Rightarrow> jsstr" where
  "make_source mm =
     (let r = js_join [124] (map (\<lambda>pat. js_join [92, 47] (map (part_source (mm_options mm)) pat)) (mm_set mm));
          r = lit ''^(?:'' @ r @ lit '')$''
      in if mm_negate mm then lit ''^(?!'' @ r @ lit '').*$'' else r)"

definition makeRe :: "minimatch_object \<Rightarrow> js_error + regexp option" where
  "makeRe mm =
     (if mm_set mm = [] then Inr None
      else case rx_parse (make_source mm) of
             Inl e \<Rightarrow> Inr None
           | Inr (Some r) \<Rightarrow> Inr (Some r)
           | Inr None \<Rightarrow> Inl (JsError ''outside the modelled regular expressions''))"

end
