(* ===== verification/Minimatch_Language.thy ===== *)
theory Minimatch_Language
  imports Minimatch_Parse
begin

text \<open>
  The language of simple glob segments. A segment of ordinary units, question marks and stars
  is compiled by \<open>glob_parse\<close> to a literal or to a regular expression (\<open>glob_parse_simple\<close>,
  \<open>rx_parse_simple\<close>), and that expression accepts exactly the names the segment describes
  (\<open>simple_re_language\<close>).
\<close>

section \<open>The language of simple segments\<close>

text \<open>
  A simple segment is made of units that stand for themselves, question marks and stars. The
  loop, the lexer and the parser handle them unit by unit.
\<close>

datatype glob_unit = GLit jschar | GOne | GMany

definition plain_glob :: "jschar \<Rightarrow> bool" where
  "plain_glob c \<longleftrightarrow> c \<notin> {47, 92, 63, 42, 43, 64, 33, 40, 41, 124, 91, 93}"

fun unit_ok :: "glob_unit \<Rightarrow> bool" where
  "unit_ok (GLit c) = plain_glob c"
| "unit_ok _ = True"

fun unit_text :: "glob_unit \<Rightarrow> jschar" where
  "unit_text (GLit c) = c"
| "unit_text GOne = 63"
| "unit_text GMany = 42"

fun unit_magic :: "glob_unit \<Rightarrow> bool" where
  "unit_magic (GLit c) = False"
| "unit_magic _ = True"

fun unit_src :: "glob_unit \<Rightarrow> jsstr" where
  "unit_src (GLit c) = (if reSpecials c then [92, c] else [c])"
| "unit_src GOne = qmark"
| "unit_src GMany = star"

abbreviation units_text :: "glob_unit list \<Rightarrow> jsstr" where
  "units_text us \<equiv> map unit_text us"

abbreviation units_src :: "glob_unit list \<Rightarrow> jsstr" where
  "units_src us \<equiv> concat (map unit_src us)"

text \<open>States of the loop outside of classes, lists and escapes.\<close>

definition simple_state :: "glob_state \<Rightarrow> bool" where
  "simple_state st \<longleftrightarrow>
     \<not> escaping st \<and> patternListStack st = [] \<and> negativeLists st = [] \<and> inClass st = None"

lemma clearStateChar_None: "stateChar st = None \<Longrightarrow> clearStateChar st = st"
  by (simp add: clearStateChar_def)

lemma clearStateChar_fields [simp]:
  "stateChar (clearStateChar st) = None"
  "escaping (clearStateChar st) = escaping st"
  "patternListStack (clearStateChar st) = patternListStack st"
  "negativeLists (clearStateChar st) = negativeLists st"
  by (simp_all add: clearStateChar_def emit_def split: option.split)

lemma glob_step_unit:
  assumes "simple_state st" and "unit_ok u"
  shows "simple_state (glob_step options (unit_text u) st)"
    and "clearStateChar (glob_step options (unit_text u) st) =
      (clearStateChar st)\<lparr>re := re (clearStateChar st) @ unit_src u,
         hasMagic := hasMagic (clearStateChar st) \<or> unit_magic u\<rparr>"
proof -
  let ?st = "clearStateChar st"
  have st: "\<not> escaping st" "inClass st = None" "patternListStack st = []" "negativeLists st = []"
    using assms(1) by (simp_all add: simple_state_def)
  show "simple_state (glob_step options (unit_text u) st)"
    using st assms(2)
    by (cases u) (auto simp: simple_state_def glob_step_def glob_case_def case_state_char_def case_default_def
        state_char_def plain_glob_def emit_def Let_def)
  have clr: "x\<lparr>re := r, hasMagic := m, stateChar := None\<rparr> = x\<lparr>re := r, hasMagic := m\<rparr>"
    if "stateChar x = None" for x :: glob_state and r m
    using that by (cases x) simp
  have none: "clearStateChar (x\<lparr>re := r\<rparr>) = x\<lparr>re := r\<rparr>" if "stateChar x = None" for x :: glob_state and r
    using that by (simp add: clearStateChar_def)
  show "clearStateChar (glob_step options (unit_text u) st) =
      ?st\<lparr>re := re ?st @ unit_src u, hasMagic := hasMagic ?st \<or> unit_magic u\<rparr>"
    using st assms(2)
    by (cases u) (auto simp: glob_step_def glob_case_def case_state_char_def case_default_def
        state_char_def plain_glob_def none Let_def clearStateChar_def [of "clearStateChar st\<lparr>stateChar := _\<rparr>"] clr clearStateChar_None emit_def)
qed

lemma glob_loop_units:
  assumes "simple_state st" and "list_all unit_ok us"
  shows "\<exists>st'. glob_loop options (units_text us) st = Inr (Some st') \<and> simple_state st' \<and>
    clearStateChar st' = (clearStateChar st)\<lparr>re := re (clearStateChar st) @ units_src us,
      hasMagic := hasMagic (clearStateChar st) \<or> list_ex unit_magic us\<rparr>"
  using assms
proof (induction us arbitrary: st)
  case Nil
  then show ?case by (simp add: simple_state_def)
next
  case (Cons u us)
  have "unit_text u \<noteq> 47" "class_text st = []"
    using Cons.prems by (cases u; simp add: plain_glob_def simple_state_def class_text_def)+
  then have "glob_loop options (units_text (u # us)) st =
      glob_loop options (units_text us) (glob_step options (unit_text u) st)"
    by simp
  then show ?case
    using Cons.IH [of "glob_step options (unit_text u) st"] glob_step_unit [of st u options] Cons.prems
    by auto
qed

lemma globUnescape_plain:
  assumes "92 \<notin> set s"
  shows "globUnescape s = s"
proof -
  have "s ! i \<noteq> 92" if "i < length s" for i
    using assms nth_mem [OF that] by auto
  then have "rx_ends None s (RSeq (RChar 92) (RGroup 1 RAny)) i = {}" for i
    by (auto simp: rx_ends_simps char_eq_def)
  then have "rx_exec_from None (RSeq (RChar 92) (RGroup 1 RAny)) s 0 = None"
    by (simp add: rx_exec_from_def rx_first_None del: upt_Suc)
  then show ?thesis by (simp add: globUnescape_def rx_replace_all.simps)
qed

text \<open>The source text of the regular expression of a simple segment with magic.\<close>

definition simple_source :: "glob_options \<Rightarrow> glob_unit list \<Rightarrow> jsstr" where
  "simple_source options us =
     (if unit_magic (hd us) then patternStart options (units_text us) else []) @ lit ''(?=.)'' @ units_src us"

lemma re_Nil_init: "clearStateChar (glob_init options) = glob_init options"
  by (simp add: clearStateChar_None glob_init_def)

lemma glob_parse_simple:
  assumes "list_all unit_ok us" and "us \<noteq> []" and "length us \<le> 65536"
    and "us = [GMany, GMany] \<longrightarrow> opt options ''noglobstar''" and "\<not> opt options ''nocase''"
  shows "glob_parse options (units_text us) False =
    (if \<not> list_ex unit_magic us then Inr (Part (Literal (units_text us)))
     else case rx_parse ([94] @ simple_source options us @ [36]) of
            Inl e \<Rightarrow> Inr (Part (Magic (RSeq REnd RAny) False None))
          | Inr (Some r) \<Rightarrow> Inr (Part (Magic r False (Some (simple_source options us, units_text us))))
          | Inr None \<Rightarrow> Inl (JsError ''outside the modelled regular expressions''))"
proof -
  have init: "simple_state (glob_init options)" by (simp add: simple_state_def glob_init_def)
  obtain st where loop: "glob_loop options (units_text us) (glob_init options) = Inr (Some st)"
    and st: "simple_state st"
    and clear: "clearStateChar st = (glob_init options)\<lparr>re := units_src us, hasMagic := list_ex unit_magic us\<rparr>"
    using glob_loop_units [OF init assms(1), of options] assms(5) by (auto simp: re_Nil_init) (simp add: glob_init_def)
  have close: "glob_close st = (glob_init options)\<lparr>re := units_src us, hasMagic := list_ex unit_magic us\<rparr>"
    using st clear by (simp add: glob_close_def simple_state_def glob_init_def)
  have unit: "(js_charAt (units_src us) 0 \<in> {[46], [91], [40]}) = unit_magic (hd us)"
    using assms(1,2) by (cases us; cases "hd us") (auto simp: js_charAt_def qmark_def star_def reSpecials_def plain_glob_def)
  have src: "units_src us \<noteq> []"
    using assms(2) by (cases us; cases "hd us") (auto simp: qmark_def star_def)
  have source: "glob_source options (units_text us) False (glob_close st) = simple_source options us"
    if "list_ex unit_magic us"
    using that unit src by (auto simp: glob_source_def close simple_source_def glob_init_def Let_def)
  have star2: "units_text us = [42, 42] \<longleftrightarrow> us = [GMany, GMany]"
    using assms(1) by (auto simp: map_eq_Cons_conv plain_glob_def elim!: unit_ok.elims)
  have plain: "92 \<notin> set (units_text us)"
    using assms(1) by (auto simp: list_all_iff plain_glob_def elim!: unit_ok.elims)
  have "glob_parse options (units_text us) False = glob_finish options (units_text us) False st"
    using assms loop star2 by (subst glob_parse.simps) auto
  moreover have "hasMagic (glob_close st) = list_ex unit_magic us" by (simp add: close)
  ultimately show ?thesis
    using source assms(5) globUnescape_plain [OF plain]
    by (cases "list_ex unit_magic us") (simp_all add: glob_finish_def Let_def split: sum.split option.split del: glob_parse.simps)
qed

section \<open>The regular expression of a simple segment\<close>

fun unit_tokens :: "glob_unit \<Rightarrow> rx_token list" where
  "unit_tokens (GLit c) = [TChar c]"
| "unit_tokens GOne = [TClass True [CRange 47 47]]"
| "unit_tokens GMany = [TClass True [CRange 47 47], TQuantifier 0 None False]"

fun unit_re :: "glob_unit \<Rightarrow> regexp" where
  "unit_re (GLit c) = RChar c"
| "unit_re GOne = RClass True [CRange 47 47]"
| "unit_re GMany = RRepeat 0 None False (RClass True [CRange 47 47])"

lemma rx_lex_token: "next_token c s = Inr (t, r) \<Longrightarrow> rx_lex (c # s) = ebind (rx_lex r) (\<lambda>ts. Inr (t # ts))"
  by simp

lemma ebind_Inr_Cons: "ebind (ebind x (\<lambda>ts. Inr (us @ ts))) (\<lambda>ts. Inr (t # ts)) = ebind x (\<lambda>ts. Inr (t # us @ ts))"
  by (cases x) simp_all

lemma next_token_class: "next_token 91 (94 # 47 # 93 # s) = Inr (TClass True [CRange 47 47], s)"
  by (simp add: next_token_def lex_class_def class_atoms.simps next_atom.simps atom_item_def)

lemma next_token_lazy: "next_token 42 (63 # s) = Inr (TQuantifier 0 None False, s)"
  by (simp add: next_token_def quantifier_def lazy_mark_def)

lemma next_token_plain:
  "plain_glob c \<Longrightarrow> \<not> reSpecials c \<Longrightarrow> next_token c s = Inr (TChar c, s)"
  by (auto simp: plain_glob_def reSpecials_def next_token_def)

lemma reSpecials_iff: "reSpecials c \<longleftrightarrow> c \<in> {40, 41, 46, 42, 123, 125, 43, 63, 91, 93, 94, 36, 92, 33}"
  by (simp add: reSpecials_def)

lemma next_token_escape:
  assumes "reSpecials c"
  shows "next_token 92 (c # s) = Inr (TChar c, s)"
proof -
  have "set_escape c = None" "c \<noteq> 98" "c \<noteq> 66" "\<not> (49 \<le> c \<and> c \<le> 57)"
    using assms unfolding reSpecials_iff by (auto simp: set_escape_def)
  moreover have "char_escape c s = (c, s)"
    using assms unfolding reSpecials_iff char_escape_def octal_digit_def
    by (elim insertE emptyE) simp_all
  ultimately show ?thesis by (simp add: next_token_def lex_escape_def)
qed

lemma rx_lex_unit:
  assumes "unit_ok u"
  shows "rx_lex (unit_src u @ s) = ebind (rx_lex s) (\<lambda>ts. Inr (unit_tokens u @ ts))"
proof (cases u)
  case (GLit c)
  then show ?thesis
    using assms by (simp add: next_token_plain next_token_escape del: rx_lex.simps add: rx_lex_token)
next
  case GOne
  then show ?thesis by (simp add: qmark_def rx_lex_token [OF next_token_class] del: rx_lex.simps)
next
  case GMany
  have "rx_lex (star @ s) = ebind (ebind (rx_lex s) (\<lambda>ts. Inr ([TQuantifier 0 None False] @ ts))) (\<lambda>ts. Inr (TClass True [CRange 47 47] # ts))"
    by (simp add: star_def qmark_def rx_lex_token [OF next_token_class] rx_lex_token [OF next_token_lazy] del: rx_lex.simps)
  then show ?thesis using GMany by (simp only: ebind_Inr_Cons) simp
qed

lemma rx_lex_units:
  "list_all unit_ok us \<Longrightarrow>
   rx_lex (units_src us @ s) = ebind (rx_lex s) (\<lambda>ts. Inr (concat (map unit_tokens us) @ ts))"
proof (induction us)
  case (Cons u us)
  then show ?case using rx_lex_unit [of u "units_src us @ s"] by (cases "rx_lex s") simp_all
qed (cases "rx_lex s"; simp)

definition add_terms :: "(regexp \<times> bool) list \<Rightarrow> rx_parser \<Rightarrow> rx_parser" where
  "add_terms ts p = p\<lparr>current := (current p)\<lparr>terms := rev ts @ terms (current p)\<rparr>\<rparr>"

fun unit_term :: "glob_unit \<Rightarrow> regexp \<times> bool" where
  "unit_term (GLit c) = (RChar c, True)"
| "unit_term GOne = (RClass True [CRange 47 47], True)"
| "unit_term GMany = (RRepeat 0 None False (RClass True [CRange 47 47]), False)"

lemma rx_steps_units:
  "rx_steps (concat (map unit_tokens us)) p = Inr (add_terms (map unit_term us) p)"
proof (induction us arbitrary: p)
  case (Cons u us)
  have "rx_steps (unit_tokens u) p = Inr (add_terms [unit_term u] p)"
    by (cases u) (simp_all add: add_terms_def add_term_def repeat_term_def)
  then show ?case using Cons by (simp add: rx_steps_append) (simp add: add_terms_def)
qed (simp add: add_terms_def)

lemma fst_unit_term: "fst (unit_term u) = unit_re u"
  by (cases u) simp_all

text \<open>The pattern before the units, which holds the rule for the first dot and the test for a unit.\<close>

definition start_res :: "glob_options \<Rightarrow> glob_unit list \<Rightarrow> regexp list" where
  "start_res options us =
     (if \<not> unit_magic (hd us) then []
      else if opt options ''dot''
      then [RLook False (seq_re [RAlt RBegin (RChar 47), RRepeat 1 (Some 2) True (RChar 46), RAlt REnd (RChar 47)])]
      else [RLook False (RChar 46)]) @ [RLook True RAny]"

definition simple_re :: "glob_options \<Rightarrow> glob_unit list \<Rightarrow> regexp" where
  "simple_re options us = seq_re ([RBegin] @ start_res options us @ map unit_re us @ [REnd])"

lemmas lex_defs = next_token_def lex_group_def lex_escape_def set_escape_def char_escape_def octal_digit_def
  quantifier_def lazy_mark_def brace_quantifier_def decimal_digit_def decimal_def Let_def

definition start_tokens :: "glob_options \<Rightarrow> glob_unit list \<Rightarrow> rx_token list" where
  "start_tokens options us =
     (if \<not> unit_magic (hd us) then []
      else if opt options ''dot''
      then [TOpen (GLook False), TOpen GPlain, TBegin, TBar, TChar 47, TClose, TChar 46, TQuantifier 1 (Some 2) True,
            TOpen GPlain, TEnd, TBar, TChar 47, TClose, TClose]
      else [TOpen (GLook False), TChar 46, TClose]) @ [TOpen (GLook True), TAny, TClose]"

lemma rx_lex_start:
  assumes "us \<noteq> []"
  shows "rx_lex (simple_source options us @ s) =
    ebind (rx_lex (units_src us @ s)) (\<lambda>ts. Inr (start_tokens options us @ ts))"
proof -
  have "js_charAt (units_text us) 0 \<noteq> [46]" if "unit_magic (hd us)"
    using assms that by (cases us; cases "hd us") (simp_all add: js_charAt_def)
  then show ?thesis
    by (cases "rx_lex (units_src us @ s)")
      (simp_all add: simple_source_def start_tokens_def patternStart_def lex_defs)
qed

lemma rx_steps_start:
  "rx_steps (TBegin # start_tokens options us) rx_start =
     Inr (add_terms ((RBegin, False) # map (\<lambda>r. (r, True)) (start_res options us)) rx_start)"
  by (simp add: start_tokens_def start_res_def rx_start_def add_terms_def add_term_def open_group_def close_group_def
      repeat_term_def new_frame_def frame_re_def frame_body_def frame_alternative_def)

lemma rx_parse_simple:
  assumes "list_all unit_ok us" and "us \<noteq> []"
  shows "rx_parse ([94] @ simple_source options us @ [36]) = Inr (Some (simple_re options us))"
proof -
  have "rx_lex (units_src us @ [36]) = Inr (concat (map unit_tokens us) @ [TEnd])"
    using rx_lex_units [OF assms(1), of "[36]"] by (simp add: next_token_def)
  then have lex: "rx_lex ([94] @ simple_source options us @ [36]) =
      Inr ((TBegin # start_tokens options us) @ concat (map unit_tokens us) @ [TEnd])"
    using rx_lex_start [OF assms(2), of options "[36]"] by (simp add: next_token_def)
  show ?thesis
    unfolding rx_parse_def lex
    by (simp only: ebind_simps rx_steps_append rx_steps_start rx_steps_units)
      (simp add: add_terms_def add_term_def rx_finish_def rx_start_def new_frame_def frame_body_def frame_alternative_def
        simple_re_def o_def rev_map [symmetric] fst_unit_term)
qed

section \<open>What a simple segment accepts\<close>

fun units_accept :: "glob_unit list \<Rightarrow> jsstr \<Rightarrow> bool" where
  "units_accept [] s = (s = [])"
| "units_accept (GLit c # us) s = (case s of [] \<Rightarrow> False | x # t \<Rightarrow> x = c \<and> units_accept us t)"
| "units_accept (GOne # us) s = (case s of [] \<Rightarrow> False | x # t \<Rightarrow> x \<noteq> 47 \<and> units_accept us t)"
| "units_accept (GMany # us) s =
     list_ex (\<lambda>k. 47 \<notin> set (take k s) \<and> units_accept us (drop k s)) [0..<Suc (length s)]"

definition dot_rule :: "glob_options \<Rightarrow> glob_unit list \<Rightarrow> jsstr \<Rightarrow> bool" where
  "dot_rule options us f \<longleftrightarrow>
     (unit_magic (hd us) \<longrightarrow>
        (if opt options ''dot'' then f \<noteq> [46] \<and> f \<noteq> [46, 46] else take 1 f \<noteq> [46]))"

lemma rx_ends_seq_Cons:
  "rx_ends f s (seq_re (r # rs)) i = (\<Union>j \<in> rx_ends f s r i. rx_ends f s (seq_re rs) j)"
  by (cases rs) (simp_all add: rx_ends_simps)

lemma slash_class: "class_has None [CRange 47 47] c \<longleftrightarrow> c = 47"
  by (auto simp: class_has_def)

lemma notin_piece:
  assumes "i + k \<le> length s"
  shows "x \<notin> set (take k (drop i s)) \<longleftrightarrow> (\<forall>m. i \<le> m \<and> m < i + k \<longrightarrow> s ! m \<noteq> x)"
proof -
  have "x \<in> set (take k (drop i s)) \<longleftrightarrow> (\<exists>n < k. s ! (i + n) = x)"
    using assms by (auto simp: in_set_conv_nth)
  also have "\<dots> \<longleftrightarrow> (\<exists>m. i \<le> m \<and> m < i + k \<and> s ! m = x)"
    by (metis add_less_cancel_left le_add1 le_Suc_ex)
  finally show ?thesis by blast
qed

lemma exists_from: "(\<exists>j. i \<le> j \<and> P j) \<longleftrightarrow> (\<exists>k. P (i + k :: nat))"
  by (auto simp: le_iff_add)

lemma rx_ends_units:
  "i \<le> length s \<Longrightarrow> (length s \<in> rx_ends None s (seq_re (map unit_re us @ [REnd])) i) = units_accept us (drop i s)"
proof (induction us arbitrary: i)
  case Nil
  then show ?case by (simp add: rx_ends_simps)
next
  case (Cons u us)
  have next_unit: "drop i s = (if i < length s then s ! i # drop (Suc i) s else [])"
    by (simp add: Cons_nth_drop_Suc)
  show ?case
  proof (cases u)
    case GMany
    have unit: "one_unit None (RClass True [CRange 47 47]) (\<lambda>c. c \<noteq> 47)"
      using one_unit_intros(3) [of None True "[CRange 47 47]"] by (simp add: slash_class)
    have "length s \<in> rx_ends None s (seq_re (map unit_re (u # us) @ [REnd])) i \<longleftrightarrow>
        (\<exists>j. i \<le> j \<and> j \<le> length s \<and> (\<forall>m. i \<le> m \<and> m < j \<longrightarrow> s ! m \<noteq> 47) \<and> units_accept us (drop j s))"
      using Cons GMany by (auto simp: rx_ends_seq_Cons rx_ends_star_unit [OF unit])
    also have "\<dots> \<longleftrightarrow> (\<exists>k. i + k \<le> length s \<and> (\<forall>m. i \<le> m \<and> m < i + k \<longrightarrow> s ! m \<noteq> 47) \<and>
        units_accept us (drop (i + k) s))"
      by (rule exists_from)
    also have "\<dots> \<longleftrightarrow> (\<exists>k. i + k \<le> length s \<and> 47 \<notin> set (take k (drop i s)) \<and> units_accept us (drop (i + k) s))"
      using notin_piece [of i _ s 47] by auto
    also have "\<dots> \<longleftrightarrow> units_accept (u # us) (drop i s)"
      using Cons.prems GMany by (auto simp: list_ex_iff add.commute less_Suc_eq_le le_diff_conv2 simp del: upt_Suc)
    finally show ?thesis .
  qed (use Cons in \<open>auto simp: rx_ends_seq_Cons rx_ends_simps char_eq_def slash_class next_unit\<close>)
qed

lemma rx_ends_bounded:
  "rx_ends f s (RRepeat (Suc m) (Some (Suc n)) g r) i =
     (\<Union>j \<in> rx_ends f s r i. rx_ends f s (RRepeat m (Some n) g r) j)"
  by (rule set_eqI, subst rx_ends_repeat_iff) auto

lemma start_res_ends:
  assumes "47 \<notin> set f"
  shows "rx_ends None f (seq_re (start_res options us @ rs)) 0 =
    (if f \<noteq> [] \<and> \<not> js_line_terminator (hd f) \<and> dot_rule options us f then rx_ends None f (seq_re rs) 0 else {})"
proof -
  have "f ! k \<noteq> 47" if "k < length f" for k using assms nth_mem [OF that] by auto
  then have slash: "rx_ends None f (RChar 47) k = {}" for k
    by (auto simp: rx_ends_simps char_eq_def)
  have two: "rx_ends None f (RRepeat 1 (Some 2) True (RChar 46)) 0 =
      (if take 1 f = [46] then insert 1 (if take 2 f = [46, 46] then {2} else {}) else {})"
    by (cases f; cases "tl f") (auto simp: rx_ends_simps rx_ends_bounded numeral_2_eq_2 char_eq_def)
  define D where "D = seq_re [RAlt RBegin (RChar 47), RRepeat 1 (Some 2) True (RChar 46), RAlt REnd (RChar 47)]"
  have "rx_ends None f D 0 =
      (\<Union>j \<in> rx_ends None f (RRepeat 1 (Some 2) True (RChar 46)) 0. if j = length f then {j} else {})"
    by (simp add: D_def rx_ends_seq_Cons rx_ends_compound slash) (simp add: rx_ends_basic)
  then have "rx_ends None f D 0 \<noteq> {} \<longleftrightarrow> f = [46] \<or> f = [46, 46]"
    unfolding two by (cases f; cases "tl f") auto
  then have dots: "rx_ends None f (RLook False D) 0 = (if f \<noteq> [46] \<and> f \<noteq> [46, 46] then {0} else {})"
    by (auto simp: rx_ends_compound)
  have dot: "rx_ends None f (RLook False (RChar 46)) 0 = (if take 1 f \<noteq> [46] then {0} else {})"
    and some: "rx_ends None f (RLook True RAny) 0 = (if f \<noteq> [] \<and> \<not> js_line_terminator (hd f) then {0} else {})"
    by (cases f; auto simp: rx_ends_simps char_eq_def)+
  have "start_res options us = (if \<not> unit_magic (hd us) then [] else if opt options ''dot'' then [RLook False D]
      else [RLook False (RChar 46)]) @ [RLook True RAny]"
    by (simp add: start_res_def D_def)
  moreover have step: "rx_ends None f (seq_re (r # ts)) 0 = (if P then rx_ends None f (seq_re ts) 0 else {})"
    if "rx_ends None f r 0 = (if P then {0} else {})" for r ts P
    using that by (simp add: rx_ends_seq_Cons)
  ultimately show ?thesis
    unfolding dot_rule_def
    by (cases "unit_magic (hd us)"; cases "opt options ''dot''")
      (simp_all only: append_Cons append_Nil if_True if_False not_True_eq_False not_False_eq_True simp_thms
        step [OF dots] step [OF dot] step [OF some] split: if_split, blast+)
qed

lemma simple_re_language:
  assumes "47 \<notin> set f"
  shows "rx_test None (simple_re options us) f \<longleftrightarrow>
    f \<noteq> [] \<and> \<not> js_line_terminator (hd f) \<and> dot_rule options us f \<and> units_accept us f"
proof -
  have "rx_test None (simple_re options us) f \<longleftrightarrow>
      rx_ends None f (seq_re (start_res options us @ map unit_re us @ [REnd])) 0 \<noteq> {}"
    by (auto simp: rx_test_iff simple_re_def rx_ends_seq_Cons rx_ends_simps)
  moreover have "rx_ends None f (seq_re (map unit_re us @ [REnd])) 0 \<noteq> {} \<longleftrightarrow> units_accept us f"
  proof -
    have "j = length f" if "j \<in> rx_ends None f (seq_re (map unit_re us @ [REnd])) i" for i j
      using that by (induction us arbitrary: i) (auto simp: rx_ends_seq_Cons rx_ends_simps split: if_splits)
    then show ?thesis using rx_ends_units [of 0 f us] by auto
  qed
  ultimately show ?thesis by (simp add: start_res_ends [OF assms])
qed

end
