(* ===== verification/Minimatch_Matching.thy ===== *)
theory Minimatch_Matching
  imports Minimatch Minimatch_Language
begin

text \<open>
  What \<open>minimatch\<close> promises: \<open>matchOne\<close> decides the relation \<open>segs_match\<close>; simple patterns
  have the language \<open>path_accepts\<close>; leading exclamation marks negate; constructed objects are
  well-formed; the only TypeError is the one for long segments.
\<close>

section \<open>Matching paths\<close>

text \<open>
  The relation that \<open>matchOne\<close> decides, for any kind of parts: \<open>star\<close> says which parts are
  globstars, \<open>hit\<close> whether another part matches a segment, and \<open>dot\<close> which segments a
  globstar does not swallow.
\<close>

inductive segs_match :: "('p \<Rightarrow> bool) \<Rightarrow> ('p \<Rightarrow> jsstr \<Rightarrow> bool) \<Rightarrow> (jsstr \<Rightarrow> bool) \<Rightarrow> 'p list \<Rightarrow> jsstr list \<Rightarrow> bool"
  for star_part hit dot
where
  segs_end: "segs_match star_part hit dot [] []"
| segs_slash: "segs_match star_part hit dot [] [[]]"
| segs_one: "\<not> star_part p \<Longrightarrow> hit p f \<Longrightarrow> segs_match star_part hit dot ps fs \<Longrightarrow>
    segs_match star_part hit dot (p # ps) (f # fs)"
| segs_rest: "star_part p \<Longrightarrow> fs \<noteq> [] \<Longrightarrow> \<forall>f \<in> set fs. \<not> dot f \<Longrightarrow> segs_match star_part hit dot [p] fs"
| segs_skip: "star_part p \<Longrightarrow> ps \<noteq> [] \<Longrightarrow> \<forall>f \<in> set gs. \<not> dot f \<Longrightarrow> segs_match star_part hit dot ps fs \<Longrightarrow>
    segs_match star_part hit dot (p # ps) (gs @ fs)"

inductive_cases segs_match_NilE [elim!]: "segs_match star_part hit dot [] fs"
inductive_cases segs_match_ConsE: "segs_match star_part hit dot (p # ps) fs"

fun is_globstar :: "glob_part \<Rightarrow> bool" where
  "is_globstar Globstar = True"
| "is_globstar _ = False"

abbreviation parts_match :: "unicode \<Rightarrow> glob_options \<Rightarrow> glob_part list \<Rightarrow> jsstr list \<Rightarrow> bool" where
  "parts_match U options \<equiv> segs_match is_globstar (part_hit U options) (dotted options)"

lemma segs_match_Nil_file: "segs_match star_part hit dot ps [] \<longleftrightarrow> ps = []"
proof
  have "segs_match star_part hit dot ps fs \<Longrightarrow> fs = [] \<Longrightarrow> ps = []" for ps and fs :: "jsstr list"
    by (induction rule: segs_match.induct) auto
  then show "segs_match star_part hit dot ps [] \<Longrightarrow> ps = []" by blast
qed (auto intro: segs_end)

lemma segs_match_one:
  "\<not> star_part p \<Longrightarrow> segs_match star_part hit dot (p # ps) (f # fs) \<longleftrightarrow> hit p f \<and> segs_match star_part hit dot ps fs"
  by (auto intro: segs_one elim: segs_match_ConsE)

lemma segs_match_rest:
  "star_part p \<Longrightarrow> segs_match star_part hit dot [p] fs \<longleftrightarrow> fs \<noteq> [] \<and> (\<forall>f \<in> set fs. \<not> dot f)"
  by (auto intro: segs_rest elim: segs_match_ConsE)

lemma segs_match_skip:
  assumes "star_part p" and "ps \<noteq> []"
  shows "segs_match star_part hit dot (p # ps) fs \<longleftrightarrow>
    (\<exists>gs hs. fs = gs @ hs \<and> (\<forall>f \<in> set gs. \<not> dot f) \<and> segs_match star_part hit dot ps hs)"
proof
  assume "segs_match star_part hit dot (p # ps) fs"
  then show "\<exists>gs hs. fs = gs @ hs \<and> (\<forall>f \<in> set gs. \<not> dot f) \<and> segs_match star_part hit dot ps hs"
    using assms by (cases rule: segs_match.cases) blast+
qed (use assms in \<open>auto intro: segs_skip\<close>)

lemma splits_Cons:
  "(\<exists>gs hs. f # fs = gs @ hs \<and> P gs hs) \<longleftrightarrow> P [] (f # fs) \<or> (\<exists>gs hs. fs = gs @ hs \<and> P (f # gs) hs)"
proof -
  have "f # fs = gs @ hs \<longleftrightarrow> gs = [] \<and> hs = f # fs \<or> (\<exists>gs'. gs = f # gs' \<and> fs = gs' @ hs)" for gs hs
    by (auto simp: Cons_eq_append_conv)
  then show ?thesis by (simp only:) blast
qed

lemma matchOne_iff:
  "\<not> partial \<Longrightarrow> matchOne U options fs ps partial = parts_match U options ps fs"
  "\<not> partial \<Longrightarrow> ps \<noteq> [] \<Longrightarrow> globstar_while U options fs ps partial =
     (\<exists>gs hs. fs = gs @ hs \<and> (\<forall>f \<in> set gs. \<not> dotted options f) \<and> parts_match U options ps hs)"
proof (induction U options fs ps partial and U options fs ps partial rule: matchOne_globstar_while.induct)
  case (5 U options f fs ps partial)
  then show ?case by (cases "ps = []") (simp_all add: segs_match_rest segs_match_skip list_all_iff)
next
  case (8 U options f fs ps partial)
  then show ?case by (simp add: splits_Cons)
next
  case (3 U options f fs partial)
  then show ?case by (auto intro: segs_slash)
qed (auto simp: segs_match_Nil_file segs_match_one intro: segs_end)

lemma segs_match_related:
  assumes "list_all2 (\<lambda>p q. star_part p = star_part' q \<and> (\<forall>f \<in> F. hit p f = hit' q f)) ps qs" and "set fs \<subseteq> F"
  shows "segs_match star_part hit dot ps fs = segs_match star_part' hit' dot qs fs"
  using assms
proof (induction ps qs arbitrary: fs rule: list_all2_induct)
  case Nil
  then show ?case by (auto intro: segs_end segs_slash)
next
  case (Cons p ps q qs)
  have lens: "ps = [] \<longleftrightarrow> qs = []" using Cons.hyps(2) by auto
  show ?case
  proof (cases "star_part p")
    case False
    then show ?thesis
      using Cons by (cases fs) (simp_all add: segs_match_Nil_file segs_match_one)
  next
    case True
    have sub: "set hs \<subseteq> F" if "fs = gs @ hs" for gs hs using Cons.prems that by auto
    show ?thesis
    proof (cases "ps = []")
      case True': True
      then show ?thesis using True Cons.hyps(1) lens by (simp add: segs_match_rest)
    next
      case False
      then show ?thesis
        using True Cons.hyps(1) lens Cons.IH [OF sub] by (simp add: segs_match_skip) metis
    qed
  qed
qed

section \<open>Simple patterns\<close>

datatype glob_seg = SAny | SUnits "glob_unit list"

fun seg_text :: "glob_seg \<Rightarrow> jsstr" where
  "seg_text SAny = [42, 42]"
| "seg_text (SUnits us) = units_text us"

fun seg_ok :: "glob_seg \<Rightarrow> bool" where
  "seg_ok SAny = True"
| "seg_ok (SUnits us) =
     (us \<noteq> [] \<and> list_all unit_ok us \<and> us \<noteq> [GMany, GMany] \<and> length us \<le> 65536)"

fun seg_accepts :: "glob_options \<Rightarrow> glob_seg \<Rightarrow> jsstr \<Rightarrow> bool" where
  "seg_accepts options SAny f = False"
| "seg_accepts options (SUnits us) f =
     (if list_ex unit_magic us
      then f \<noteq> [] \<and> \<not> js_line_terminator (hd f) \<and> dot_rule options us f \<and> units_accept us f
      else f = units_text us)"

definition pattern_text :: "glob_seg list \<Rightarrow> jsstr" where
  "pattern_text segs = js_join [47] (map seg_text segs)"

definition path_accepts :: "glob_options \<Rightarrow> glob_seg list \<Rightarrow> jsstr list \<Rightarrow> bool" where
  "path_accepts options segs fs = segs_match (\<lambda>s. s = SAny) (seg_accepts options) (dotted options) segs fs"

definition seg_part :: "glob_options \<Rightarrow> glob_seg \<Rightarrow> glob_part" where
  "seg_part options s =
     (case s of
        SAny \<Rightarrow> Globstar
      | SUnits us \<Rightarrow>
          if list_ex unit_magic us then Magic (simple_re options us) False (Some (simple_source options us, units_text us))
          else Literal (units_text us))"

lemma slash_split_runs: "slash_split s = js_split_runs (\<lambda>x. x = 47) s"
  by (simp only: slash_split_def slashSplit_def rx_split_runs)

lemma slash_split_pieces: "f \<in> set (slash_split s) \<Longrightarrow> 47 \<notin> set f"
  using js_split_runs_pieces [of f "\<lambda>x. x = 47" s 47] by (auto simp: slash_split_runs)

lemma slash_split_nonempty [simp]: "slash_split s \<noteq> []"
  by (simp add: slash_split_runs)

lemma seg_text_pieces: "seg_ok s \<Longrightarrow> seg_text s \<noteq> [] \<and> 47 \<notin> set (seg_text s)"
  by (cases s) (auto simp: list_all_iff plain_glob_def elim!: unit_ok.elims)

lemma slash_split_pattern:
  assumes "segs \<noteq> []" and "list_all seg_ok segs"
  shows "slash_split (pattern_text segs) = map seg_text segs"
  unfolding slash_split_runs pattern_text_def
  by (rule js_split_runs_join) (use assms seg_text_pieces in \<open>auto simp: list_all_iff\<close>)

lemma glob_parse_seg:
  assumes "seg_ok s" and "\<not> opt options ''nocase''" and "\<not> opt options ''noglobstar''"
  shows "glob_parse options (seg_text s) False = Inr (Part (seg_part options s))"
proof (cases s)
  case SAny
  then show ?thesis using assms by (simp add: seg_part_def)
next
  case (SUnits us)
  then have us: "list_all unit_ok us" "us \<noteq> []" using assms(1) by auto
  show ?thesis
    unfolding SUnits seg_text.simps
    using assms SUnits glob_parse_simple [of us options] rx_parse_simple [OF us, of options]
    by (auto simp del: glob_parse.simps simp: seg_part_def)
qed

lemma part_hit_seg:
  assumes "47 \<notin> set f" and "\<not> opt options ''nocase''"
  shows "part_hit U options (seg_part options s) f = seg_accepts options s f"
  using assms simple_re_language [OF assms(1)]
  by (cases s) (simp_all add: seg_part_def canon_of_def)

lemma seg_part_globstar: "is_globstar (seg_part options s) \<longleftrightarrow> s = SAny"
  by (cases s) (simp_all add: seg_part_def)

lemma usable_seg_part [simp]: "usable (seg_part options s)"
  by (cases s) (simp_all add: seg_part_def)

lemma parse_parts_pattern:
  assumes "segs \<noteq> []" and "list_all seg_ok segs" and "\<not> opt options ''nocase''" and "\<not> opt options ''noglobstar''"
  shows "parse_parts options (pattern_text segs) = Inr (map (seg_part options) segs)"
proof -
  have "emap (\<lambda>t. ebind (glob_parse options t False) (\<lambda>r. Inr (part_of r))) (map seg_text segs) =
      Inr (map (seg_part options) segs)"
    using assms(2)
    by (induction segs) (simp_all add: glob_parse_seg [OF _ assms(3,4)] part_of_def del: glob_parse.simps)
  then show ?thesis unfolding parse_parts_def slash_split_pattern [OF assms(1,2)] .
qed

lemma matchOne_pattern:
  assumes "\<not> opt options ''nocase''"
  shows "matchOne U options (slash_split p) (map (seg_part options) segs) False = path_accepts options segs (slash_split p)"
  unfolding path_accepts_def matchOne_iff(1) [OF not_False_eq_True [THEN iffD2, OF TrueI]]
  by (rule segs_match_related [of _ _ "set (slash_split p)"])
    (auto simp: list_all2_map1 seg_part_globstar part_hit_seg [OF slash_split_pieces assms] list_all2_same)

lemma no_braces: "123 \<notin> set s \<Longrightarrow> \<not> rx_test None has_braces s"
proof -
  assume "123 \<notin> set s"
  then have "s ! i \<noteq> 123" if "i < length s" for i using nth_mem [OF that] by auto
  then show ?thesis by (auto simp: rx_test_iff has_braces_def rx_ends_simps char_eq_def)
qed

lemma seg_text_no_bang: "seg_ok s \<Longrightarrow> 33 \<notin> set (seg_text s)"
  by (cases s) (auto simp: list_all_iff plain_glob_def elim!: unit_ok.elims)

lemma pattern_text_first:
  assumes "segs \<noteq> []" and "list_all seg_ok segs"
  shows "pattern_text segs \<noteq> []" and "hd (pattern_text segs) \<noteq> 33"
proof -
  obtain s ss where segs: "segs = s # ss" using assms(1) by (cases segs) auto
  have "seg_text s \<noteq> []" "33 \<notin> set (seg_text s)"
    using assms(2) segs seg_text_pieces [of s] seg_text_no_bang [of s] by simp_all
  then obtain c t where "seg_text s = c # t" "c \<noteq> 33" by (cases "seg_text s") auto
  then show "pattern_text segs \<noteq> []" "hd (pattern_text segs) \<noteq> 33"
    by (cases ss; simp add: pattern_text_def segs js_join_Cons)+
qed

lemma new_Minimatch_pattern:
  assumes "segs \<noteq> []" and "list_all seg_ok segs" and "\<not> opt options ''nocase''" and "\<not> opt options ''noglobstar''"
    and "js_trim (pattern_text segs) = pattern_text segs" and "hd (pattern_text segs) \<noteq> 35"
    and "123 \<notin> set (pattern_text segs)"
  shows "new_Minimatch R (pattern_text segs) options =
    Some (Inr \<lparr>mm_options = options, mm_set = [map (seg_part options) segs],
      mm_globSet = [pattern_text segs], mm_pattern = pattern_text segs,
      mm_negate = False, mm_comment = False, mm_empty = False\<rparr>)"
proof -
  let ?pat = "pattern_text segs"
  obtain c t where pat: "?pat = c # t" "c \<noteq> 33" "c \<noteq> 35"
    using pattern_text_first [OF assms(1,2)] assms(6) by (cases ?pat) auto
  have "braceExpand R ?pat options = Some [?pat]"
    using no_braces [OF assms(7)] by (simp add: braceExpand_def)
  moreover have "js_charAt ?pat 0 \<noteq> [35]" "takeWhile (\<lambda>c. c = 33) ?pat = []" "?pat \<noteq> []"
    using pat by (simp_all add: js_charAt_def)
  ultimately show ?thesis
    using parse_parts_pattern [OF assms(1-4)]
    by (simp add: new_Minimatch_def make_def parseNegate_def assms(5) Let_def list_all_iff)
qed

lemma minimatch_pattern:
  assumes "segs \<noteq> []" and "list_all seg_ok segs" and "\<not> opt options ''nocase''" and "\<not> opt options ''noglobstar''"
    and "\<not> opt options ''matchBase''"
    and "js_trim (pattern_text segs) = pattern_text segs" and "hd (pattern_text segs) \<noteq> 35"
    and "123 \<notin> set (pattern_text segs)"
  shows "minimatch U R p (pattern_text segs) options = Some (Inr (path_accepts options segs (slash_split p)))"
proof -
  let ?pat = "pattern_text segs"
  have "?pat \<noteq> []" "js_charAt ?pat 0 \<noteq> [35]"
    using pattern_text_first [OF assms(1,2)] assms(7) by (cases ?pat; simp add: js_charAt_def)+
  then show ?thesis
    using new_Minimatch_pattern [OF assms(1-4,6-8), of R] matchOne_pattern [OF assms(3), of U p segs] assms(5,6)
    by (simp add: minimatch_def mm_match_def Let_def)
qed

section \<open>Negation\<close>

lemma js_trim_bangs:
  assumes "pat \<noteq> []" and "\<not> js_space (hd pat)"
  shows "js_trim (replicate n 33 @ pat) = replicate n 33 @ js_trim pat" and "js_trim pat \<noteq> []"
    and "hd (js_trim pat) = hd pat"
proof -
  obtain c t where pat: "pat = c # t" "\<not> js_space c" using assms by (cases pat) auto
  have "\<not> js_space 33" by (simp add: js_space_def)
  then have front: "dropWhile js_space (replicate n 33 @ pat) = replicate n 33 @ pat" "dropWhile js_space pat = pat"
    using pat(2) by (cases n; simp add: pat(1))+
  have "dropWhile js_space (rev pat @ replicate n 33) = dropWhile js_space (rev pat) @ replicate n 33"
    by (rule dropWhile_append1 [of c]) (simp_all add: pat)
  moreover have "dropWhile js_space (rev t @ [c]) = dropWhile js_space (rev t) @ [c]"
    using pat by (simp add: dropWhile_append3)
  ultimately show "js_trim (replicate n 33 @ pat) = replicate n 33 @ js_trim pat" "js_trim pat \<noteq> []"
      "hd (js_trim pat) = hd pat"
    unfolding js_trim_def front by (simp_all add: pat(1))
qed

lemma js_charAt_first: "s \<noteq> [] \<Longrightarrow> js_charAt s 0 = [hd s]"
  by (cases s) (simp_all add: js_charAt_def)

lemma takeWhile_bangs: "q = [] \<or> hd q \<noteq> 33 \<Longrightarrow> takeWhile (\<lambda>c. c = 33) (replicate n 33 @ q) = replicate n (33 :: jschar)"
  by (induction n; cases q) auto

definition negated :: "nat \<Rightarrow> minimatch_object \<Rightarrow> minimatch_object" where
  "negated n mm = mm\<lparr>mm_negate := odd n\<rparr>"

lemma new_Minimatch_bangs:
  assumes "pat \<noteq> []" and "\<not> js_space (hd pat)" and "hd pat \<noteq> 33" and "hd pat \<noteq> 35"
    and "\<not> opt options ''nonegate''"
  shows "new_Minimatch R (replicate n 33 @ pat) options = map_option (map_sum id (negated n)) (new_Minimatch R pat options)"
    and "new_Minimatch R pat options = Some (Inr mm) \<Longrightarrow>
      \<not> mm_comment mm \<and> \<not> mm_empty mm \<and> \<not> mm_negate mm \<and> mm_options mm = options"
proof -
  let ?q = "js_trim pat"
  have q: "?q \<noteq> []" "hd ?q \<noteq> 33" "hd ?q \<noteq> 35" and trim: "js_trim (replicate n 33 @ pat) = replicate n 33 @ ?q"
    using js_trim_bangs [OF assms(1,2)] assms(3,4) by simp_all
  define obj where "obj m = \<lparr>mm_options = options, mm_set = [], mm_globSet = [], mm_pattern = replicate m 33 @ ?q, mm_negate = False,
      mm_comment = False, mm_empty = False\<rparr>" for m
  define made where "made m = Option.bind (braceExpand R ?q options) (\<lambda>globSet.
      Some (ebind (emap (parse_parts options) globSet) (\<lambda>set.
        Inr ((obj 0)\<lparr>mm_negate := odd m, mm_globSet := globSet, mm_set := filter (list_all usable) set\<rparr>))))" for m :: nat
  have neg: "parseNegate (obj m) = (obj 0)\<lparr>mm_negate := odd m\<rparr>" for m
    using assms(5) q(2) takeWhile_bangs [of ?q m]
    by (auto simp: parseNegate_def obj_def js_substr_from_def js_rel_index_def Let_def)
  have "js_charAt (replicate m 33 @ ?q) 0 \<noteq> [35]" for m
    using q by (cases m) (simp_all add: js_charAt_first)
  then have make: "make R (obj m) = made m" for m
    using q(1) unfolding make_def neg by (simp add: obj_def made_def Let_def)
  have new: "new_Minimatch R (replicate n 33 @ pat) options = made n" "new_Minimatch R pat options = made 0"
    using make [of n] make [of 0] trim by (simp_all add: new_Minimatch_def obj_def)
  show "new_Minimatch R (replicate n 33 @ pat) options = map_option (map_sum id (negated n)) (new_Minimatch R pat options)"
    unfolding new by (auto simp: made_def negated_def obj_def ebind_def split: sum.splits bind_splits)
  show "\<not> mm_comment mm \<and> \<not> mm_empty mm \<and> \<not> mm_negate mm \<and> mm_options mm = options"
    if "new_Minimatch R pat options = Some (Inr mm)"
    using that unfolding new made_def by (auto simp: bind_eq_Some_conv ebind_Inr_iff obj_def)
qed

definition mm_ok :: "minimatch_object \<Rightarrow> bool" where
  "mm_ok mm \<longleftrightarrow>
     list_all (\<lambda>ps. ps \<noteq> [] \<and> list_all usable ps) (mm_set mm) \<and>
     (mm_comment mm \<or> mm_empty mm \<longrightarrow> mm_set mm = [] \<and> \<not> mm_negate mm) \<and>
     (mm_negate mm \<longrightarrow> \<not> opt (mm_options mm) ''nonegate'') \<and> \<not> (mm_comment mm \<and> mm_empty mm)"

lemma emap_nonempty: "emap f xs = Inr ys \<Longrightarrow> xs \<noteq> [] \<Longrightarrow> ys \<noteq> []"
  by (cases xs) (auto simp: ebind_Inr_iff)

lemma emap_parse_parts:
  "emap (parse_parts options) xs = Inr set' \<Longrightarrow> ps \<in> set set' \<Longrightarrow> ps \<noteq> []"
proof (induction xs arbitrary: set')
  case (Cons x xs)
  then show ?case by (auto simp: ebind_Inr_iff parse_parts_def dest: emap_nonempty)
qed simp

lemma parseNegate_fields:
  "mm_options (parseNegate mm) = mm_options mm" "mm_comment (parseNegate mm) = mm_comment mm"
  "mm_empty (parseNegate mm) = mm_empty mm"
  "mm_negate (parseNegate mm) \<Longrightarrow> mm_negate mm \<or> \<not> opt (mm_options mm) ''nonegate''"
  by (auto simp: parseNegate_def Let_def split: if_split_asm)

lemma new_Minimatch_ok:
  assumes "new_Minimatch R pat options = Some (Inr mm)"
  shows "mm_ok mm \<and> mm_options mm = options"
proof -
  define obj where "obj = \<lparr>mm_options = options, mm_set = [], mm_globSet = [], mm_pattern = js_trim pat, mm_negate = False,
      mm_comment = False, mm_empty = False\<rparr>"
  have obj: "mm_options obj = options" "mm_set obj = []" "\<not> mm_negate obj" "\<not> mm_comment obj" "\<not> mm_empty obj"
    by (simp_all add: obj_def)
  have "make R obj = Some (Inr mm)" using assms by (simp add: new_Minimatch_def obj_def)
  then consider "mm = obj\<lparr>mm_comment := True\<rparr>" | "mm = obj\<lparr>mm_empty := True\<rparr>"
    | xs set' where "emap (parse_parts options) xs = Inr set'" "mm = (parseNegate obj)\<lparr>mm_globSet := xs, mm_set := filter (list_all usable) set'\<rparr>"
    using obj(1) parseNegate_fields(1) [of obj]
    by (auto simp: make_def Let_def bind_eq_Some_conv ebind_Inr_iff split: if_split_asm)
  then show ?thesis
  proof cases
    case 3
    then show ?thesis
      using obj parseNegate_fields [of obj] emap_parse_parts [OF 3(1)]
      by (auto simp: mm_ok_def list_all_iff)
  qed (use obj in \<open>simp_all add: mm_ok_def\<close>)
qed

lemma minimatch_bangs:
  assumes "pat \<noteq> []" and "\<not> js_space (hd pat)" and "hd pat \<noteq> 33" and "hd pat \<noteq> 35"
    and "\<not> opt options ''nonegate''" and "\<not> opt options ''flipNegate''"
  shows "minimatch U R p (replicate n 33 @ pat) options =
    map_option (map_sum id (\<lambda>b. if even n then b else \<not> b)) (minimatch U R p pat options)"
proof -
  have q: "js_trim (replicate n 33 @ pat) \<noteq> []" "js_trim pat \<noteq> []"
    using js_trim_bangs [OF assms(1,2)] by simp_all
  have first: "js_charAt (replicate n 33 @ pat) 0 \<noteq> [35]" "js_charAt pat 0 \<noteq> [35]"
    using assms(1,4) by (cases n; simp add: js_charAt_first)+
  have "mm_match U (negated n mm) p False = (if even n then mm_match U mm p False else \<not> mm_match U mm p False)"
    if "new_Minimatch R pat options = Some (Inr mm)" for mm
    using new_Minimatch_bangs(2) [OF assms(1-5) that] assms(6) by (simp add: mm_match_def negated_def Let_def)
  then show ?thesis
    using q first
    by (cases "new_Minimatch R pat options")
      (auto simp: minimatch_def new_Minimatch_bangs(1) [OF assms(1-5)] ebind_def split: sum.split)
qed

section \<open>Errors\<close>

lemma glob_finish_no_TypeError: "glob_finish options pat sub st \<noteq> Inl (TypeError e)"
  by (simp add: glob_finish_def Let_def split: sum.split option.split)

lemma class_text_weight: "class_text st \<noteq> [] \<or> inClass st \<noteq> None \<Longrightarrow> class_weight st = Suc (length (class_text st))"
  by (auto simp: class_text_def class_weight_def split: option.splits)

lemma class_weight_closed [simp]:
  "class_weight (no_class post sp st) = 0" "class_weight (st\<lparr>hasMagic := b, inClass := None\<rparr>) = 0"
  "class_weight (glob_init options) = 0"
  by (simp_all add: class_weight_def no_class_def glob_init_def)

lemma ebind_Inl_iff: "ebind x f = Inl e \<longleftrightarrow> x = Inl e \<or> (\<exists>a. x = Inr a \<and> f a = Inl e)"
  by (cases x) simp_all

lemma glob_parse_TypeError:
  "glob_loop options rest st = Inl (TypeError e) \<Longrightarrow> 65536 < class_weight st + length rest"
  "glob_parse options pat sub = Inl (TypeError e) \<Longrightarrow> 65536 < length pat \<and> e = ''pattern is too long''"
proof (induction options rest st and options pat sub rule: glob_loop_glob_parse.induct)
  case (1 options st)
  then show ?case
    using class_text_weight [of st]
    by (auto simp: ebind_Inl_iff simp del: glob_parse.simps split: if_split_asm)
next
  case (2 options c rest st)
  have "class_weight (glob_step options c st) \<le> Suc (class_weight st)" by (rule class_weight_step)
  then show ?case
    using 2 class_text_weight [of st]
    by (auto simp: ebind_Inl_iff simp del: glob_parse.simps split: if_split_asm) 
next
  case (3 options pat sub)
  then show ?case
    by (auto simp: ebind_Inl_iff glob_finish_no_TypeError split: if_split_asm option.splits)
qed

section \<open>Theorems\<close>

text \<open>
  C12. \<open>matchOne\<close>, which searches with backtracking, decides the relation \<open>segs_match\<close>: parts
  match segments one by one, a globstar swallows any segments that are not dotted, at the end
  of the pattern at least one, and an empty last segment may be left over.
\<close>

theorem minimatch_matchOne_decides:
  "matchOne U options fs ps False = segs_match is_globstar (part_hit U options) (dotted options) ps fs"
  by (rule matchOne_iff(1)) simp

text \<open>
  C2. For a pattern of segments that are \<open>**\<close> or made of ordinary units, question marks and
  stars, \<open>minimatch\<close> returns, without an exception, whether the path is in the language of the
  pattern: an ordinary segment is the name itself, a star is any text, a question mark any
  unit, and a segment that begins with one of them does not match hidden names.
\<close>

theorem minimatch_glob_language:
  assumes "segs \<noteq> []" and "list_all seg_ok segs" and "\<not> opt options ''nocase''" and "\<not> opt options ''noglobstar''"
    and "\<not> opt options ''matchBase''"
    and "js_trim (pattern_text segs) = pattern_text segs" and "hd (pattern_text segs) \<noteq> 35"
    and "123 \<notin> set (pattern_text segs)"
  shows "minimatch U R p (pattern_text segs) options = Some (Inr (path_accepts options segs (slash_split p)))"
  using assms by (rule minimatch_pattern)

theorem minimatch_glob_language_witness:
  "minimatch \<lparr>toLowerCase = id, canonicalize = id\<rparr>
     \<lparr>rnd_slash = [], rnd_open = [], rnd_close = [], rnd_comma = [], rnd_period = []\<rparr>
     (lit ''a/x/y/b.js'') (lit ''a/**/*.j?'') [] = Some (Inr True)"
proof -
  let ?segs = "[SUnits [GLit 97], SAny, SUnits [GMany, GLit 46, GLit 106, GOne]]"
  have last: "seg_accepts [] (SUnits [GMany, GLit 46, GLit 106, GOne]) [98, 46, 106, 115]"
    by (simp add: dot_rule_def opt_def js_line_terminator_def upt_rec)
  have "segs_match (\<lambda>s. s = SAny) (seg_accepts []) (dotted []) [SUnits [GMany, GLit 46, GLit 106, GOne]]
      [[98, 46, 106, 115]]"
    by (rule segs_one) (simp, rule last, rule segs_end)
  then have "segs_match (\<lambda>s. s = SAny) (seg_accepts []) (dotted []) (tl ?segs) ([[120], [121]] @ [[98, 46, 106, 115]])"
    unfolding list.sel by (intro segs_skip) (simp_all add: dotted_def js_charAt_def)
  then have "path_accepts [] ?segs [[97], [120], [121], [98, 46, 106, 115]]"
    by (simp add: path_accepts_def segs_match_one)
  moreover have "slash_split (lit ''a/x/y/b.js'') = [[97], [120], [121], [98, 46, 106, 115]]"
    by (simp add: slash_split_runs js_split_runs_Cons)
  moreover have "pattern_text ?segs = lit ''a/**/*.j?''" by (simp add: pattern_text_def)
  ultimately show ?thesis
    using minimatch_glob_language [of ?segs "[]"]
    by (simp add: opt_def plain_glob_def js_trim_def js_space_def)
qed

text \<open>
  C13. Every leading exclamation mark negates a pattern: with an even number of them
  \<open>minimatch\<close> gives the result for the pattern behind them, with an odd number the opposite,
  and it raises the same exceptions.
\<close>

theorem minimatch_negation_parity:
  assumes "pat \<noteq> []" and "\<not> js_space (hd pat)" and "hd pat \<noteq> 33" and "hd pat \<noteq> 35"
    and "\<not> opt options ''nonegate''" and "\<not> opt options ''flipNegate''"
  shows "minimatch U R p (replicate n 33 @ pat) options =
    map_option (map_sum id (\<lambda>b. if even n then b else \<not> b)) (minimatch U R p pat options)"
  using assms by (rule minimatch_bangs)

theorem minimatch_negation_parity_witness:
  "minimatch \<lparr>toLowerCase = id, canonicalize = id\<rparr>
     \<lparr>rnd_slash = [], rnd_open = [], rnd_close = [], rnd_comma = [], rnd_period = []\<rparr>
     (lit ''b'') (lit ''!!!a'') [] =
   map_option (map_sum id Not) (minimatch \<lparr>toLowerCase = id, canonicalize = id\<rparr>
     \<lparr>rnd_slash = [], rnd_open = [], rnd_close = [], rnd_comma = [], rnd_period = []\<rparr> (lit ''b'') (lit ''a'') [])"
  using minimatch_negation_parity [of "lit ''a''" "[]" "\<lparr>toLowerCase = id, canonicalize = id\<rparr>"
      "\<lparr>rnd_slash = [], rnd_open = [], rnd_close = [], rnd_comma = [], rnd_period = []\<rparr>" "lit ''b''" 3]
  by (simp add: opt_def js_space_def numeral_3_eq_3)

text \<open>
  C14. A constructed \<open>Minimatch\<close> is well-formed: its set holds non-empty lists without the value
  \<open>false\<close>, so that the test for it in \<open>matchOne\<close> is never taken; a comment or an empty pattern
  has an empty set and is not negated; negation respects the option \<open>nonegate\<close>.
\<close>

theorem minimatch_object_wellformed:
  assumes "new_Minimatch R pat options = Some (Inr mm)"
  shows "mm_ok mm"
  using new_Minimatch_ok [OF assms] by simp

theorem minimatch_object_wellformed_witness:
  "\<exists>mm. new_Minimatch \<lparr>rnd_slash = [], rnd_open = [], rnd_close = [], rnd_comma = [], rnd_period = []\<rparr>
     (lit ''a/*'') [] = Some (Inr mm) \<and> mm_ok mm"
proof -
  have pat: "pattern_text [SUnits [GLit 97], SUnits [GMany]] = lit ''a/*''" by (simp add: pattern_text_def)
  obtain mm where "new_Minimatch \<lparr>rnd_slash = [], rnd_open = [], rnd_close = [], rnd_comma = [], rnd_period = []\<rparr>
     (lit ''a/*'') [] = Some (Inr mm)"
    using new_Minimatch_pattern [of "[SUnits [GLit 97], SUnits [GMany]]" "[]"] unfolding pat
    by (auto simp: opt_def plain_glob_def js_trim_def js_space_def)
  then show ?thesis using minimatch_object_wellformed by blast
qed

text \<open>
  C15. The translation of a segment raises a TypeError exactly when the segment is longer than
  64K units; the calls for the text of a would-be class never raise it.
\<close>

theorem minimatch_parse_error_iff:
  "glob_parse options pat sub = Inl (TypeError e) \<longleftrightarrow> 65536 < length pat \<and> e = ''pattern is too long''"
  using glob_parse_TypeError(2) [of options pat sub e] by auto

end
