(* ===== verification/Path_Split.thy ===== *)
theory Path_Split
  imports JS_RegExp Posix_Path
begin

text \<open>
  The operations of the bundled path module that take a path apart: \<open>splitPath\<close> with its
  regular expression, \<open>dirname\<close>, \<open>basename\<close> and \<open>extname\<close> (\<open>wordcut.js\<close>, lines 4138 to 4144
  and 4261 to 4292), and the module \<open>path-is-absolute\<close> (lines 4314 to 4334).

  The first match of the regular expression is described by \<open>splitPath_parts\<close>: the root, a
  directory that ends in a slash, a last segment, and trailing slashes, which are dropped.
\<close>

section \<open>Operations\<close>

text \<open>\<open>/^(\/?|)([\s\S]*?)((?:\.{1,2}|[^\/]+?|)(\.[^.\/]*|))(?:[\/]*)$/\<close>\<close>

definition root_re :: regexp where
  "root_re = RAlt (RRepeat 0 (Some 1) True (RChar 47)) REmpty"

definition dir_re :: regexp where
  "dir_re = RRepeat 0 None False (RClass False [CSpace True, CSpace False])"

definition ext_re :: regexp where
  "ext_re = RAlt (RSeq (RChar 46) (RRepeat 0 None True (RClass True [CRange 46 46, CRange 47 47]))) REmpty"

definition base_re :: regexp where
  "base_re =
     RSeq (RAlt (RRepeat 1 (Some 2) True (RChar 46))
             (RAlt (RRepeat 1 None False (RClass True [CRange 47 47])) REmpty))
       (RGroup 4 ext_re)"

definition tail_re :: regexp where
  "tail_re = RSeq (RRepeat 0 None True (RClass False [CRange 47 47])) REnd"

definition splitPathRe :: regexp where
  "splitPathRe =
     RSeq RBegin (RSeq (RGroup 1 root_re) (RSeq (RGroup 2 dir_re) (RSeq (RGroup 3 base_re) tail_re)))"

definition splitPath :: "jsstr \<Rightarrow> js_error + jsstr \<times> jsstr \<times> jsstr \<times> jsstr" where
  "splitPath filename =
     (case rx_exec None splitPathRe filename of
        None \<Rightarrow> Inl (TypeError ''cannot read properties of null'')
      | Some m \<Rightarrow> Inr (cap_text 1 m, cap_text 2 m, cap_text 3 m, cap_text 4 m))"

definition dirname :: "jsstr \<Rightarrow> js_error + jsstr" where
  "dirname path0 =
     ebind (splitPath path0) (\<lambda>(root, dir, _, _).
       Inr (if root = [] \<and> dir = [] then dot
            else root @ (if dir \<noteq> [] then js_substr dir 0 (int (length dir) - 1) else dir)))"

definition basename :: "jsstr \<Rightarrow> jsstr option \<Rightarrow> js_error + jsstr" where
  "basename path0 ext =
     ebind (splitPath path0) (\<lambda>(_, _, f, _).
       Inr (case ext of
              None \<Rightarrow> f
            | Some e \<Rightarrow>
                if e \<noteq> [] \<and> js_substr_from f (- int (length e)) = e
                then js_substr f 0 (int (length f) - int (length e)) else f))"

definition extname :: "jsstr \<Rightarrow> js_error + jsstr" where
  "extname path0 = ebind (splitPath path0) (\<lambda>(_, _, _, ext). Inr ext)"

text \<open>\<open>/^([a-zA-Z]:|[\\\/]{2}[^\\\/]+[\\\/]+[^\\\/]+)?([\\\/])?([\s\S]*?)$/\<close>\<close>

definition any_slash :: "bool \<Rightarrow> regexp" where
  "any_slash neg = RClass neg [CRange 92 92, CRange 47 47]"

definition splitDeviceRe :: regexp where
  "splitDeviceRe =
     RSeq RBegin
       (RSeq (RRepeat 0 (Some 1) True (RGroup 1
                (RAlt (RSeq (RClass False [CRange 97 122, CRange 65 90]) (RChar 58))
                   (RSeq (RRepeat 2 (Some 2) True (any_slash False))
                     (RSeq (RRepeat 1 None True (any_slash True))
                       (RSeq (RRepeat 1 None True (any_slash False))
                         (RRepeat 1 None True (any_slash True))))))))
         (RSeq (RRepeat 0 (Some 1) True (RGroup 2 (any_slash False)))
           (RSeq (RGroup 3 dir_re) REnd)))"

definition absolute_posix :: "jsstr \<Rightarrow> bool" where
  "absolute_posix path0 \<longleftrightarrow> js_charAt path0 0 = [47]"

definition absolute_win32 :: "jsstr \<Rightarrow> js_error + bool" where
  "absolute_win32 path0 =
     (case rx_exec None splitDeviceRe path0 of
        None \<Rightarrow> Inl (TypeError ''cannot read properties of null'')
      | Some m \<Rightarrow>
          let device = cap_text 1 m; isUnc = (device \<noteq> [] \<and> js_charAt device 1 \<noteq> [58])
          in Inr (cap_text 2 m \<noteq> [] \<or> isUnc))"

definition path_is_absolute :: "jsstr \<Rightarrow> jsstr \<Rightarrow> js_error + bool" where
  "path_is_absolute platform path0 =
     (if platform = lit ''win32'' then absolute_win32 path0 else Inr (absolute_posix path0))"

section \<open>The end of a path\<close>

text \<open>The units from \<open>j\<close> to \<open>k\<close> are the last segment, and only slashes follow.\<close>

definition last_from :: "jsstr \<Rightarrow> nat \<Rightarrow> nat \<Rightarrow> bool" where
  "last_from s j k \<longleftrightarrow>
     j \<le> k \<and> k \<le> length s \<and> free_of 47 s j k \<and> (\<forall>m. k \<le> m \<and> m < length s \<longrightarrow> s ! m = 47)"

lemma slash_unit: "one_unit None (RClass neg [CRange 47 47]) (\<lambda>c. (c = 47) \<noteq> neg)"
proof -
  have "class_has None [CRange 47 47] c \<longleftrightarrow> c = 47" for c by (auto simp: class_has_def)
  then show ?thesis using one_unit_intros(3) [of None neg "[CRange 47 47]"] by simp
qed

lemma base_ends:
  assumes "i \<le> length s"
  shows "rx_ends None s base_re i = {j. i \<le> j \<and> j \<le> length s \<and> free_of 47 s i j}"
proof (intro set_eqI iffI)
  fix j
  assume j: "j \<in> rx_ends None s base_re i"
  have "avoids 47 base_re" by (simp add: base_re_def ext_re_def class_has_def)
  then show "j \<in> {j. i \<le> j \<and> j \<le> length s \<and> free_of 47 s i j}"
    using rx_ends_avoids [OF _ j] rx_ends_forward [OF j] rx_ends_inside [OF j assms] by simp
next
  fix j
  assume j: "j \<in> {j. i \<le> j \<and> j \<le> length s \<and> free_of 47 s i j}"
  have "j \<in> rx_ends None s (RAlt (RRepeat 1 None False (RClass True [CRange 47 47])) REmpty) i"
    using j assms rx_ends_plus_unit [OF slash_unit [of True] assms, of False]
    by (cases "i = j") (auto simp: rx_ends_compound rx_ends_basic free_of_def)
  moreover have "j \<in> rx_ends None s ext_re j" by (simp add: ext_re_def rx_ends_compound rx_ends_basic)
  ultimately show "j \<in> rx_ends None s base_re i"
    by (auto simp: base_re_def rx_ends_compound)
qed

lemma tail_ends:
  assumes "i \<le> length s"
  shows "rx_ends None s tail_re i = (if \<forall>k. i \<le> k \<and> k < length s \<longrightarrow> s ! k = 47 then {length s} else {})"
  using assms rx_ends_star_unit [OF slash_unit [of False] assms, of True]
  by (auto simp: tail_re_def rx_ends_compound rx_ends_basic split: if_split_asm)

definition rest_re :: regexp where
  "rest_re = RSeq (RGroup 3 base_re) tail_re"

lemma rest_matches:
  assumes "j \<le> length s"
  shows "rx_match None s rest_re (j, cap) \<noteq> [] \<longleftrightarrow> (\<exists>k. last_from s j k)"
proof -
  have "rx_ends None s rest_re j \<noteq> {} \<longleftrightarrow> (\<exists>k \<in> rx_ends None s base_re j. rx_ends None s tail_re k \<noteq> {})"
    by (auto simp: rest_re_def rx_ends_compound)
  also have "\<dots> \<longleftrightarrow> (\<exists>k. last_from s j k)"
    unfolding base_ends [OF assms] last_from_def using tail_ends [of _ s] by auto
  finally show ?thesis by (simp add: rx_match_Nil_iff)
qed

lemma rest_captures:
  assumes "j \<le> length s" and "y \<in> set (rx_match None s rest_re (j, cap))"
  shows "\<exists>k l. last_from s j k \<and> j \<le> l \<and> l \<le> k \<and> snd y 1 = cap 1 \<and> snd y 2 = cap 2 \<and>
    snd y 3 = Some (take (k - j) (drop j s)) \<and> snd y 4 = Some (take (k - l) (drop l s))"
proof -
  obtain k c where z: "(k, c) \<in> set (rx_match None s base_re (j, cap))"
    and y: "y \<in> set (rx_match None s tail_re (k, c(3 := Some (take (k - j) (drop j s)))))"
    using assms(2) by (auto simp: rest_re_def)
  have "\<exists>l c'. l \<le> k \<and> j \<le> l \<and> c = c'(4 := Some (take (k - l) (drop l s)))"
  proof -
    obtain w c' where w: "w \<in> set (rx_match None s (RAlt (RRepeat 1 (Some 2) True (RChar 46))
             (RAlt (RRepeat 1 None False (RClass True [CRange 47 47])) REmpty)) (j, cap))"
      and e: "(k, c') \<in> set (rx_match None s ext_re w)" "c = c'(4 := Some (take (k - fst w) (drop (fst w) s)))"
      using z by (auto simp: base_re_def simp del: rx_match.simps(6,8))
    then show ?thesis
      using rx_ends_forward [OF rx_match_ends [OF w]] rx_ends_forward [OF rx_match_ends [OF e(1)]] by auto
  qed
  then obtain l c' where l: "l \<le> k" "j \<le> l" and c: "c = c'(4 := Some (take (k - l) (drop l s)))" by blast
  have base: "c 1 = cap 1" "c 2 = cap 2"
    using rx_match_caps [OF _ z, of 1] rx_match_caps [OF _ z, of 2] by (simp_all add: base_re_def ext_re_def)
  have tail: "snd y n = (c(3 := Some (take (k - j) (drop j s)))) n" for n
    using rx_match_caps [OF _ y, of n] by (simp add: tail_re_def)
  have "k \<in> rx_ends None s base_re j" using rx_match_ends [OF z] by simp
  then have k: "j \<le> k" "k \<le> length s" "free_of 47 s j k" by (simp_all add: base_ends [OF assms(1)])
  have "rx_ends None s tail_re k \<noteq> {}" using rx_match_ends [OF y] by auto
  then have "last_from s j k" using k by (auto simp: last_from_def tail_ends split: if_split_asm)
  then show ?thesis
    using l base by (intro exI [of _ k] exI [of _ l]) (simp add: tail c)
qed

lemma first_last_segment:
  assumes "h \<le> length s"
  shows "\<exists>j. h \<le> j \<and> j \<le> length s \<and> (\<exists>k. last_from s j k) \<and> (\<forall>i. h \<le> i \<and> i < j \<longrightarrow> \<not> (\<exists>k. last_from s i k)) \<and>
    (j = h \<or> s ! (j - 1) = 47)"
proof -
  define Q where "Q j \<longleftrightarrow> h \<le> j \<and> (\<exists>k. last_from s j k)" for j
  define j where "j = (LEAST j. Q j)"
  have "Q (length s)" using assms by (auto simp: Q_def last_from_def)
  then have j: "Q j" and least: "i < j \<Longrightarrow> \<not> Q i" for i
    unfolding j_def by (auto intro: LeastI dest: not_less_Least)
  obtain k where k: "h \<le> j" "last_from s j k" using j by (auto simp: Q_def)
  have "s ! (j - 1) = 47" if "j \<noteq> h"
  proof (rule ccontr)
    assume "s ! (j - 1) \<noteq> 47"
    moreover have "j = Suc (j - 1)" using that k(1) by simp
    ultimately have "last_from s (j - 1) k"
      using k(2) free_of_trans [OF free_of_unit [of s "j - 1" 47]] by (auto simp: last_from_def)
    then show False using least [of "j - 1"] that k(1) by (auto simp: Q_def)
  qed
  then show ?thesis using k least by (intro exI [of _ j]) (auto simp: Q_def last_from_def)
qed

section \<open>The first match\<close>

lemma any_unit: "rx_match None s (RClass False [CSpace True, CSpace False]) x = rx_one s (\<lambda>_. True) x"
proof -
  have "class_has None [CSpace True, CSpace False] c" for c by (simp add: class_has_def)
  then show ?thesis by (simp add: rx_one_def)
qed

lemma dir_rest:
  assumes "h \<le> length s"
  shows "\<exists>j k l ys y. h \<le> j \<and> (j = h \<or> s ! (j - 1) = 47) \<and> last_from s j k \<and> j \<le> l \<and> l \<le> k \<and>
    rx_match None s (RSeq (RGroup 2 dir_re) rest_re) (h, cap) = y # ys \<and> snd y 1 = cap 1 \<and>
    snd y 2 = Some (take (j - h) (drop h s)) \<and> snd y 3 = Some (take (k - j) (drop j s)) \<and>
    snd y 4 = Some (take (k - l) (drop l s))"
proof -
  obtain j where j: "h \<le> j" "j \<le> length s" "\<exists>k. last_from s j k" "j = h \<or> s ! (j - 1) = 47"
    and before: "\<And>i. h \<le> i \<Longrightarrow> i < j \<Longrightarrow> \<not> (\<exists>k. last_from s i k)"
    using first_last_segment [OF assms] by blast
  define state where "state i = (i, cap(2 := Some (take (i - h) (drop h s))))" for i
  have dirs: "rx_match None s (RGroup 2 dir_re) (h, cap) = map state [h..<Suc (length s)]"
    using rx_match_lazy [OF any_unit _ assms, of cap] by (simp add: dir_re_def state_def o_def)
  have split: "[h..<Suc (length s)] = [h..<j] @ j # [Suc j..<Suc (length s)]"
    using upt_add_eq_append [OF j(1), of "Suc (length s) - j"] upt_conv_Cons [of j "Suc (length s)"] j(2)
    by (simp del: upt_Suc)
  have "rx_match None s rest_re (state i) = []" if "i \<in> set [h..<j]" for i
    using rest_matches [of i s] before [of i] that j(2) by (auto simp: state_def)
  moreover have "rx_match None s rest_re (state j) \<noteq> []"
    using rest_matches [OF j(2)] j(3) by (simp add: state_def)
  ultimately have "rx_match None s (RSeq (RGroup 2 dir_re) rest_re) (h, cap) \<noteq> []"
    and hd: "hd (rx_match None s (RSeq (RGroup 2 dir_re) rest_re) (h, cap)) \<in> set (rx_match None s rest_re (state j))"
    using hd_concat_map [of "[h..<j]" "\<lambda>i. rx_match None s rest_re (state i)" j "[Suc j..<Suc (length s)]"]
    unfolding rx_match.simps(5) dirs split map_map o_def by (auto simp del: upt_Suc)
  then obtain y ys where ys: "rx_match None s (RSeq (RGroup 2 dir_re) rest_re) (h, cap) = y # ys"
    and "y \<in> set (rx_match None s rest_re (state j))"
    by (cases "rx_match None s (RSeq (RGroup 2 dir_re) rest_re) (h, cap)") auto
  then obtain k l where "last_from s j k" "j \<le> l" "l \<le> k" "snd y 1 = cap 1"
      "snd y 2 = Some (take (j - h) (drop h s))" "snd y 3 = Some (take (k - j) (drop j s))"
      "snd y 4 = Some (take (k - l) (drop l s))"
    using rest_captures [OF j(2), of y "snd (state j)"] by (auto simp: state_def)
  then show ?thesis using j(1,4) ys by blast
qed

definition path_root :: "jsstr \<Rightarrow> jsstr" where
  "path_root s = (if isAbsolute s then sep else [])"

lemma root_first:
  "\<exists>xs. rx_match None s (RGroup 1 root_re) (0, cap) =
     (length (path_root s), cap(1 := Some (path_root s))) # xs"
proof (cases s)
  case Nil
  then show ?thesis by (simp add: root_re_def path_root_def isAbsolute_iff rx_repeat.simps rx_one_def)
next
  case (Cons c t)
  have unset: "rx_unset [] cap = cap" by (simp add: rx_unset_def)
  show ?thesis
    by (cases "c = 47")
      (simp_all add: Cons root_re_def path_root_def isAbsolute_iff rx_one_def char_eq_def unset
        rx_repeat.simps [of _ _ _ 0 "Some (Suc 0)"] rx_repeat.simps [of _ _ _ 0 "Some 0"])
qed

lemma split_exec:
  "\<exists>m j k l. rx_exec None splitPathRe s = Some m \<and> length (path_root s) \<le> j \<and>
    (j = length (path_root s) \<or> s ! (j - 1) = 47) \<and> last_from s j k \<and> j \<le> l \<and> l \<le> k \<and>
    cap_text 1 m = path_root s \<and> cap_text 2 m = take (j - length (path_root s)) (drop (length (path_root s)) s) \<and>
    cap_text 3 m = take (k - j) (drop j s) \<and> cap_text 4 m = take (k - l) (drop l s)"
proof -
  let ?h = "length (path_root s)" and ?c = "(\<lambda>_. None)(1 := Some (path_root s)) :: captures"
  have h: "?h \<le> length s" by (auto simp: path_root_def isAbsolute_iff)
  obtain j k l ys y where parts: "?h \<le> j" "j = ?h \<or> s ! (j - 1) = 47" "last_from s j k" "j \<le> l" "l \<le> k"
    and m: "rx_match None s (RSeq (RGroup 2 dir_re) rest_re) (?h, ?c) = y # ys"
    and caps: "snd y 1 = ?c 1" "snd y 2 = Some (take (j - ?h) (drop ?h s))"
      "snd y 3 = Some (take (k - j) (drop j s))" "snd y 4 = Some (take (k - l) (drop l s))"
    using dir_rest [OF h, of ?c] by blast
  obtain xs where root: "rx_match None s (RGroup 1 root_re) (0, \<lambda>_. None) = (?h, ?c) # xs"
    using root_first [of s "\<lambda>_. None"] by blast
  have "rx_match None s splitPathRe (0, \<lambda>_. None) =
      concat (map (rx_match None s (RSeq (RGroup 2 dir_re) rest_re)) (rx_match None s (RGroup 1 root_re) (0, \<lambda>_. None)))"
    by (simp add: splitPathRe_def rest_re_def)
  then have "\<exists>zs. rx_match None s splitPathRe (0, \<lambda>_. None) = y # zs"
    unfolding root list.map concat.simps m by simp
  then have "rx_exec None splitPathRe s = Some \<lparr>rx_index = 0, rx_end = fst y, rx_caps = snd y\<rparr>"
    by (auto simp: rx_exec_def rx_exec_from_def upt_conv_Cons simp del: upt_Suc split: prod.split)
  then show ?thesis using parts caps by (auto simp: cap_text_def)
qed

lemma splitPath_parts:
  "\<exists>dir base ext pre m. splitPath s = Inr (path_root s, dir, base, ext) \<and>
    s = path_root s @ dir @ base @ replicate m 47 \<and> 47 \<notin> set base \<and> (dir = [] \<or> last dir = 47) \<and> base = pre @ ext"
proof -
  let ?h = "length (path_root s)"
  obtain r j k l where ex: "rx_exec None splitPathRe s = Some r" and j: "?h \<le> j" "j = ?h \<or> s ! (j - 1) = 47"
    and k: "last_from s j k" and l: "j \<le> l" "l \<le> k"
    and caps: "cap_text 1 r = path_root s" "cap_text 2 r = take (j - ?h) (drop ?h s)"
      "cap_text 3 r = take (k - j) (drop j s)" "cap_text 4 r = take (k - l) (drop l s)"
    using split_exec [of s] by blast
  have k': "j \<le> k" "k \<le> length s" using k by (simp_all add: last_from_def)
  have root: "take ?h s = path_root s" by (auto simp: path_root_def isAbsolute_iff)
  have tail: "drop k s = replicate (length s - k) 47"
    using k by (intro nth_equalityI) (simp_all add: last_from_def)
  have s: "s = path_root s @ take (j - ?h) (drop ?h s) @ take (k - j) (drop j s) @ drop k s"
    using j(1) k'(1) by (metis append_take_drop_id drop_drop le_add_diff_inverse2 root)
  have slash: "47 \<notin> set (take (k - j) (drop j s))"
    using k k' by (auto simp: in_set_conv_nth last_from_def free_of_def)
  have dir: "take (j - ?h) (drop ?h s) = [] \<or> last (take (j - ?h) (drop ?h s)) = 47"
    using j k' by (cases "j = ?h") (auto simp: last_conv_nth)
  have base: "take (k - j) (drop j s) = take (l - j) (drop j s) @ take (k - l) (drop l s)"
    using take_drop_append [OF l, of s] by simp
  have "splitPath s = Inr (path_root s, take (j - ?h) (drop ?h s), take (k - j) (drop j s), take (k - l) (drop l s))"
    by (simp only: splitPath_def ex option.case caps)
  then show ?thesis using s slash dir base unfolding tail by blast
qed

section \<open>Directory and last segment\<close>

lemma path_parts_slashes: "path_parts (s @ replicate m 47) = path_parts s"
proof (induction m)
  case (Suc m)
  then show ?case
    using path_parts_trailing [of "s @ replicate m 47"] by (simp add: replicate_append_same)
qed simp

lemma path_parts_base: "47 \<notin> set base \<Longrightarrow> path_parts base = (if base = [] then [] else [base])"
  by (simp add: path_parts_segment clean_segment_def)

lemma walk_dot: "walk (dot # ps) = walk ps"
  by (simp add: walk_def walk_step_def)

lemma path_root_cases: "isAbsolute p \<and> path_root p = sep \<or> \<not> isAbsolute p \<and> path_root p = []"
  by (simp add: path_root_def)

lemma dirname_basename:
  "\<exists>d b. dirname p = Inr d \<and> basename p None = Inr b \<and> 47 \<notin> set b \<and> isAbsolute d = isAbsolute p \<and>
    walk (path_parts d @ path_parts b) = walk (path_parts p)"
proof -
  obtain dir base ext pre m where split: "splitPath p = Inr (path_root p, dir, base, ext)"
    and p: "p = path_root p @ dir @ base @ replicate m 47" and base: "47 \<notin> set base" and dir: "dir = [] \<or> last dir = 47"
    using splitPath_parts [of p] by blast
  have b: "basename p None = Inr base" by (simp add: basename_def split)
  have tail: "path_parts (base @ replicate m 47) = path_parts base" by (rule path_parts_slashes)
  have root_parts: "path_parts (sep @ t) = path_parts t" for t using path_parts_append [of "[]" t] by simp
  have "\<exists>d. dirname p = Inr d \<and> isAbsolute d = isAbsolute p \<and> walk (path_parts d @ path_parts base) = walk (path_parts p)"
  proof (cases dir rule: rev_cases)
    case Nil
    then have parts: "path_parts p = path_parts base"
      using p tail root_parts [of "base @ replicate m 47"] path_root_cases [of p] by auto
    show ?thesis
    proof (cases "isAbsolute p")
      case True
      then have "dirname p = Inr sep" by (simp add: dirname_def split Nil path_root_def)
      then show ?thesis using True parts root_parts [of "[]"] by (simp add: isAbsolute_iff)
    next
      case False
      then have "dirname p = Inr dot" by (simp add: dirname_def split Nil path_root_def)
      moreover have "path_parts dot = [dot]" by (simp add: path_parts_segment clean_segment_def)
      ultimately show ?thesis using False parts by (simp add: isAbsolute_iff walk_dot)
    qed
  next
    case (snoc d c)
    then have c: "dir = d @ [47]" using dir by simp
    let ?d = "path_root p @ d"
    have "dirname p = Inr ?d" by (simp add: dirname_def split c js_substr_def js_rel_index_def)
    moreover have "path_parts p = path_parts ?d @ path_parts base"
      using p c tail path_parts_append [of ?d "base @ replicate m 47"] by simp
    moreover have "isAbsolute ?d = isAbsolute p"
    proof (cases "isAbsolute p")
      case False
      then have "p = d @ 47 # base @ replicate m 47" using p c by (simp add: path_root_def)
      with False show ?thesis by (cases d) (auto simp: isAbsolute_iff path_root_def)
    qed (simp add: path_root_def isAbsolute_iff)
    ultimately show ?thesis by simp
  qed
  then show ?thesis using b base by blast
qed

section \<open>Theorems\<close>

text \<open>
  C26. Every path can be taken apart and put together again: \<open>dirname\<close> and \<open>basename\<close> return,
  the base name has no slash, the directory is absolute exactly when the path is, and resolving
  the base name against the directory gives what the path resolves to.
\<close>

theorem path_dirname_basename:
  "\<exists>d b. dirname p = Inr d \<and> basename p None = Inr b \<and> 47 \<notin> set b \<and> isAbsolute d = isAbsolute p \<and>
    resolve [Some d, Some b] = resolve [Some p]"
proof -
  obtain d b where parts: "dirname p = Inr d" "basename p None = Inr b" "47 \<notin> set b" "isAbsolute d = isAbsolute p"
    and walk: "walk (path_parts d @ path_parts b) = walk (path_parts p)"
    using dirname_basename [of p] by blast
  have "\<not> isAbsolute b" using parts(3) by (auto simp: isAbsolute_iff)
  then have "cd (cd [] d) b = cd [] p"
    using walk_names_append [of "path_parts d" "path_parts b", OF path_parts_segments] walk by (simp add: cd_def)
  then show ?thesis
    using parts resolve_cd [of "[d, b]"] resolve_cd [of "[p]"] by (intro exI conjI) (assumption | simp)+
qed

end
