(* ===== verification/Glob_Common.thy ===== *)
theory Glob_Common
  imports Minimatch_Matching Path_Split
begin

text \<open>
  The module \<open>glob/common\<close> of \<open>wordcut.js\<close> (lines 1565 to 1811): the options of a search, the
  finishing of its results, absolute paths, marks and ignored paths.

  \<^item> An options object is \<open>glob_call\<close>: its boolean properties as in \<open>Minimatch\<close>, and the others
    that the module reads.
  \<^item> The properties of a search object that only \<open>setopts\<close> writes are the record \<open>glob_conf\<close>,
    those that change during the search are \<open>glob_caches\<close>.
  \<^item> A cache entry is \<open>true\<close>, \<open>false\<close>, \<open>'FILE'\<close>, \<open>'DIR'\<close> or the array of a directory. What is
    cached of a \<open>Stats\<close> object is what the module asks it; \<open>false\<close> in its place is \<open>None\<close>.
  \<^item> A set of names, an object used for its keys, is the list of the keys in the order of
    insertion; \<open>own_keys\<close> is the order in which they are listed.
  \<^item> \<open>localeCompare\<close> is the parameter \<open>collate\<close>. The warning about comments and negation, which
    is only printed, is left out.
\<close>

section \<open>Objects\<close>

record stat_info =
  isDirectory :: bool
  isSymbolicLink :: bool

datatype cache_entry = CTrue | CFalse | CFile | CDir | CEntries "jsstr list"

fun truthy_entry :: "cache_entry \<Rightarrow> bool" where
  "truthy_entry CFalse = False"
| "truthy_entry _ = True"

fun dir_entry :: "cache_entry \<Rightarrow> bool" where
  "dir_entry CDir = True"
| "dir_entry (CEntries es) = True"
| "dir_entry _ = False"

record glob_call =
  go_flags :: glob_options
  go_ignore :: "jsstr list"
  go_cwd :: "jsstr option"
  go_root :: "jsstr option"
  go_maxLength :: "nat option"
  go_cache :: "jsstr \<rightharpoonup> cache_entry"
  go_statCache :: "jsstr \<rightharpoonup> stat_info option"
  go_symlinks :: "jsstr \<rightharpoonup> bool"

record glob_conf =
  g_minimatch :: minimatch_object
  g_ignore :: "(minimatch_object \<times> minimatch_object option) list"
  g_flags :: glob_options
  g_strict :: bool
  g_mark :: bool
  g_maxLength :: "nat option"
  g_cwd :: jsstr
  g_changedCwd :: bool
  g_root :: jsstr

record glob_caches =
  g_cache :: "jsstr \<rightharpoonup> cache_entry"
  g_statCache :: "jsstr \<rightharpoonup> stat_info option"
  g_symlinks :: "jsstr \<rightharpoonup> bool"
  g_matches :: "jsstr list option list"

definition add_key :: "jsstr \<Rightarrow> jsstr list \<Rightarrow> jsstr list" where
  "add_key k ks = (if k \<in> set ks then ks else ks @ [k])"

text \<open>Keys that are array indices come first, by value.\<close>

definition decimal :: "jsstr \<Rightarrow> nat" where
  "decimal s = foldl (\<lambda>n c. 10 * n + (unat c - 48)) 0 s"

definition is_index :: "jsstr \<Rightarrow> bool" where
  "is_index s \<longleftrightarrow> s \<noteq> [] \<and> list_all js_digit s \<and> (hd s = 48 \<longrightarrow> s = [48]) \<and> decimal s < 2 ^ 32 - 1"

definition own_keys :: "jsstr list \<Rightarrow> jsstr list" where
  "own_keys ks = sort_key decimal (filter is_index ks) @ filter (\<lambda>k. \<not> is_index k) ks"

text \<open>The stable sort with a comparison function.\<close>

fun sort_insert :: "(jsstr \<Rightarrow> jsstr \<Rightarrow> int) \<Rightarrow> jsstr \<Rightarrow> jsstr list \<Rightarrow> jsstr list" where
  "sort_insert cmp x [] = [x]"
| "sort_insert cmp x (y # ys) = (if cmp x y \<le> 0 then x # y # ys else y # sort_insert cmp x ys)"

definition js_sort :: "(jsstr \<Rightarrow> jsstr \<Rightarrow> int) \<Rightarrow> jsstr list \<Rightarrow> jsstr list" where
  "js_sort cmp xs = foldr (sort_insert cmp) xs []"

definition alphasort :: "(jsstr \<Rightarrow> jsstr \<Rightarrow> int) \<Rightarrow> jsstr \<Rightarrow> jsstr \<Rightarrow> int" where
  "alphasort collate a b = collate a b"

definition alphasorti :: "unicode \<Rightarrow> (jsstr \<Rightarrow> jsstr \<Rightarrow> int) \<Rightarrow> jsstr \<Rightarrow> jsstr \<Rightarrow> int" where
  "alphasorti U collate a b = collate (toLowerCase U a) (toLowerCase U b)"

section \<open>Options\<close>

definition rbind :: "(js_error + 'a) option \<Rightarrow> ('a \<Rightarrow> (js_error + 'b) option) \<Rightarrow> (js_error + 'b) option" where
  "rbind x f = (case x of None \<Rightarrow> None | Some (Inl e) \<Rightarrow> Some (Inl e) | Some (Inr a) \<Rightarrow> f a)"

text \<open>\<open>pattern.replace(/(\/\*\*)+$/, '')\<close>, on the reversed text.\<close>

fun strip_globstars :: "jsstr \<Rightarrow> jsstr" where
  "strip_globstars (a # b # c # s) = (if a = 42 \<and> b = 42 \<and> c = 47 then strip_globstars s else a # b # c # s)"
| "strip_globstars s = s"

definition ignoreMap ::
  "random_texts \<Rightarrow> jsstr \<Rightarrow> (js_error + minimatch_object \<times> minimatch_object option) option"
where
  "ignoreMap R pat =
     rbind (if js_slice_from pat (- 3) = [47, 42, 42]
            then rbind (new_Minimatch R (rev (strip_globstars (rev pat))) []) (\<lambda>g. Some (Inr (Some g)))
            else Some (Inr None)) (\<lambda>gmatcher.
     rbind (new_Minimatch R pat []) (\<lambda>matcher. Some (Inr (matcher, gmatcher))))"

fun setupIgnores ::
  "random_texts \<Rightarrow> jsstr list \<Rightarrow> (js_error + (minimatch_object \<times> minimatch_object option) list) option"
where
  "setupIgnores R [] = Some (Inr [])"
| "setupIgnores R (pat # pats) =
     rbind (ignoreMap R pat) (\<lambda>m. rbind (setupIgnores R pats) (\<lambda>ms. Some (Inr (m # ms))))"

text \<open>\<open>path.join\<close> and \<open>path.resolve\<close> raise only for arguments that are not strings.\<close>

definition path_of :: "js_error + jsstr \<Rightarrow> jsstr" where
  "path_of r = (case r of Inr p \<Rightarrow> p | Inl e \<Rightarrow> [])"

definition setopts ::
  "random_texts \<Rightarrow> jsstr \<Rightarrow> glob_call \<Rightarrow> (js_error + glob_conf \<times> glob_caches) option"
where
  "setopts R pat options =
     (let flags = go_flags options;
          base = (opt flags ''matchBase'' \<and> 47 \<notin> set pat)
      in if base \<and> opt flags ''noglobstar'' then Some (Inl (JsError ''base matching requires globstar''))
         else
           let pat = (if base then [42, 42, 47] @ pat else pat)
           in rbind (setupIgnores R (go_ignore options)) (\<lambda>ignore.
                let cwd = (case go_cwd options of None \<Rightarrow> process_cwd | Some d \<Rightarrow> d);
                    changedCwd = (case go_cwd options of None \<Rightarrow> False | Some d \<Rightarrow> path_of (resolve [Some d]) \<noteq> process_cwd);
                    root = (case go_root options of
                              None \<Rightarrow> path_of (resolve [Some cwd, Some [47]])
                            | Some r \<Rightarrow> if r = [] then path_of (resolve [Some cwd, Some [47]]) else r);
                    flags = set_option (''nonegate'', map_of flags ''nonegate'' \<noteq> Some False) flags;
                    flags = set_option (''nocomment'', map_of flags ''nocomment'' \<noteq> Some False) flags
                in rbind (new_Minimatch R pat flags) (\<lambda>mm.
                     Some (Inr (
                       \<lparr>g_minimatch = mm, g_ignore = ignore, g_flags = flags,
                        g_strict = (map_of flags ''strict'' \<noteq> Some False),
                        g_mark = (opt flags ''nodir'' \<or> opt flags ''mark''),
                        g_maxLength = (if go_maxLength options = Some 0 then None else go_maxLength options), g_cwd = cwd, g_changedCwd = changedCwd,
                        g_root = path_of (resolve [Some root])\<rparr>,
                       \<lparr>g_cache = go_cache options, g_statCache = go_statCache options,
                        g_symlinks = go_symlinks options, g_matches = []\<rparr>)))))"

section \<open>Paths\<close>

definition makeAbs :: "glob_conf \<Rightarrow> jsstr \<Rightarrow> jsstr" where
  "makeAbs conf f =
     (if js_charAt f 0 = [47] then path_of (join [Some (g_root conf), Some f])
      else if absolute_posix f \<or> f = [] then f
      else if g_changedCwd conf then path_of (resolve [Some (g_cwd conf), Some f])
      else path_of (resolve [Some f]))"

definition isIgnored :: "unicode \<Rightarrow> glob_conf \<Rightarrow> jsstr \<Rightarrow> bool" where
  "isIgnored U conf p =
     list_ex (\<lambda>(matcher, gmatcher). mm_match U matcher p False \<or>
       (case gmatcher of None \<Rightarrow> False | Some g \<Rightarrow> mm_match U g p False)) (g_ignore conf)"

definition childrenIgnored :: "unicode \<Rightarrow> glob_conf \<Rightarrow> jsstr \<Rightarrow> bool" where
  "childrenIgnored U conf p =
     list_ex (\<lambda>(matcher, gmatcher). case gmatcher of None \<Rightarrow> False | Some g \<Rightarrow> mm_match U g p False) (g_ignore conf)"

definition mark :: "glob_conf \<Rightarrow> jsstr \<Rightarrow> glob_caches \<Rightarrow> glob_caches \<times> jsstr" where
  "mark conf p st =
     (let ab = makeAbs conf p
      in case g_cache st ab of
           None \<Rightarrow> (st, p)
         | Some c \<Rightarrow>
             if \<not> truthy_entry c then (st, p)
             else
               let isDir = dir_entry c; slash = (js_slice_from p (- 1) = [47]);
                   m = (if isDir \<and> \<not> slash then p @ [47]
                        else if \<not> isDir \<and> slash then js_slice p 0 (- 1)
                        else p)
               in if m \<noteq> p then
                    let mabs = makeAbs conf m
                    in (st\<lparr>g_statCache := (g_statCache st)(mabs := g_statCache st ab),
                           g_cache := (g_cache st)(mabs := Some c)\<rparr>, m)
                  else (st, m))"

section \<open>Results\<close>

text \<open>The names found for one pattern of the set, or its text with \<open>nonull\<close>.\<close>

definition finish_names :: "glob_conf \<Rightarrow> nat \<Rightarrow> jsstr list option \<Rightarrow> jsstr list" where
  "finish_names conf i found =
     (case found of
        None \<Rightarrow> if opt (g_flags conf) ''nonull'' then [mm_globSet (g_minimatch conf) ! i] else []
      | Some ks \<Rightarrow>
          if ks = [] then (if opt (g_flags conf) ''nonull'' then [mm_globSet (g_minimatch conf) ! i] else [])
          else own_keys ks)"

definition finish_collect :: "glob_conf \<Rightarrow> jsstr list option list \<Rightarrow> jsstr list" where
  "finish_collect conf matches =
     (let names = concat (map (\<lambda>(i, found). finish_names conf i found) (enumerate 0 matches))
      in if opt (g_flags conf) ''nounique'' then names else own_keys (fold add_key names []))"

fun mark_all :: "glob_conf \<Rightarrow> jsstr list \<Rightarrow> glob_caches \<Rightarrow> glob_caches \<times> jsstr list" where
  "mark_all conf [] st = (st, [])"
| "mark_all conf (p # ps) st =
     (let (st, m) = mark conf p st; (st, ms) = mark_all conf ps st in (st, m # ms))"

definition finish ::
  "unicode \<Rightarrow> (jsstr \<Rightarrow> jsstr \<Rightarrow> int) \<Rightarrow> glob_conf \<Rightarrow> glob_caches \<Rightarrow> glob_caches \<times> jsstr list"
where
  "finish U collate conf st =
     (let all = finish_collect conf (g_matches st);
          all = (if opt (g_flags conf) ''nosort'' then all
                 else js_sort (if opt (g_flags conf) ''nocase'' then alphasorti U collate else alphasort collate) all);
          (st, all) = (if g_mark conf then mark_all conf all st else (st, all));
          all = (if g_mark conf \<and> opt (g_flags conf) ''nodir''
                 then filter (\<lambda>e. js_slice_from e (- 1) \<noteq> [47]) all else all)
      in (st, filter (\<lambda>m. \<not> isIgnored U conf m) all))"

end
