(* ===== verification/Glob_Sync.thy ===== *)
theory Glob_Sync
  imports Glob_Common
begin

text \<open>
  The module \<open>glob/sync\<close> of \<open>wordcut.js\<close> (lines 2570 to 3031): the synchronous search.

  \<^item> The file system is the parameter \<open>F\<close>: what \<open>lstatSync\<close>, \<open>statSync\<close>, \<open>readdirSync\<close> and
    \<open>realpathSync\<close> return or raise for a path. It does not change during a search.
  \<^item> \<open>_process\<close>, \<open>_processReaddir\<close> and \<open>_processGlobStar\<close> call each other. The model has the
    calls that are still to be made as a list of tasks, the next one first: \<open>do_task\<close> does what
    such a function does itself and returns the calls it makes, in order; \<open>run_tasks\<close> makes them.
    The loop of \<open>_processGlobStar\<close> reads \<open>symlinks\<close> after its first call, so it is a task of its
    own. With \<open>follow\<close> and a link to a directory above it the search does not end, so \<open>run_tasks\<close>
    is a \<open>partial_function\<close>.
  \<^item> An exception of the file system that the module passes on is a \<open>JsError\<close> with its code.
\<close>

section \<open>The file system\<close>

record fs_error =
  er_code :: string
  er_syscall :: string

record file_system =
  lstatSync :: "jsstr \<Rightarrow> fs_error + stat_info"
  statSync :: "jsstr \<Rightarrow> fs_error + stat_info"
  readdirSync :: "jsstr \<Rightarrow> fs_error + jsstr list"
  realpathSync :: "jsstr \<Rightarrow> fs_error + jsstr"

section \<open>Reading directories\<close>

definition readdirError ::
  "glob_conf \<Rightarrow> jsstr \<Rightarrow> fs_error \<Rightarrow> glob_caches \<Rightarrow> glob_caches \<times> (js_error + unit)"
where
  "readdirError conf f er st =
     (let code = er_code er; ab = makeAbs conf f
      in if code \<in> {''ENOTSUP'', ''ENOTDIR''} then (st\<lparr>g_cache := (g_cache st)(ab \<mapsto> CFile)\<rparr>, Inr ())
         else if code \<in> {''ENOENT'', ''ELOOP'', ''ENAMETOOLONG'', ''UNKNOWN''} then
           (st\<lparr>g_cache := (g_cache st)(ab \<mapsto> CFalse)\<rparr>, Inr ())
         else (st\<lparr>g_cache := (g_cache st)(ab \<mapsto> CFalse)\<rparr>,
               if g_strict conf then Inl (JsError code) else Inr ()))"

definition entry_path :: "jsstr \<Rightarrow> jsstr \<Rightarrow> jsstr" where
  "entry_path ab e = (if ab = [47] then ab @ e else ab @ [47] @ e)"

definition readdirEntries :: "glob_conf \<Rightarrow> jsstr \<Rightarrow> jsstr list \<Rightarrow> glob_caches \<Rightarrow> glob_caches" where
  "readdirEntries conf ab entries st =
     (let cache = (if \<not> g_mark conf \<and> \<not> opt (g_flags conf) ''stat''
                   then fold (\<lambda>e c. c(entry_path ab e \<mapsto> CTrue)) entries (g_cache st)
                   else g_cache st)
      in st\<lparr>g_cache := cache(ab \<mapsto> CEntries entries)\<rparr>)"

text \<open>\<open>_readdir(abs, false)\<close>; no entries are \<open>None\<close>.\<close>

definition readdir_plain ::
  "file_system \<Rightarrow> glob_conf \<Rightarrow> jsstr \<Rightarrow> glob_caches \<Rightarrow> glob_caches \<times> (js_error + jsstr list option)"
where
  "readdir_plain F conf ab st =
     (case g_cache st ab of
        Some CFalse \<Rightarrow> (st, Inr None)
      | Some CFile \<Rightarrow> (st, Inr None)
      | Some (CEntries es) \<Rightarrow> (st, Inr (Some es))
      | _ \<Rightarrow>
          (case readdirSync F ab of
             Inr es \<Rightarrow> (readdirEntries conf ab es st, Inr (Some es))
           | Inl er \<Rightarrow>
               let (st, r) = readdirError conf ab er st in (st, ebind r (\<lambda>_. Inr None))))"

definition readdirInGlobStar ::
  "file_system \<Rightarrow> glob_conf \<Rightarrow> jsstr \<Rightarrow> glob_caches \<Rightarrow> glob_caches \<times> (js_error + jsstr list option)"
where
  "readdirInGlobStar F conf ab st =
     (if opt (g_flags conf) ''follow'' then readdir_plain F conf ab st
      else case lstatSync F ab of
             Inl er \<Rightarrow> (st, Inr None)
           | Inr lstat \<Rightarrow>
               let isSym = isSymbolicLink lstat;
                   st = st\<lparr>g_symlinks := (g_symlinks st)(ab \<mapsto> isSym)\<rparr>
               in if \<not> isSym \<and> \<not> isDirectory lstat
                  then (st\<lparr>g_cache := (g_cache st)(ab \<mapsto> CFile)\<rparr>, Inr None)
                  else readdir_plain F conf ab st)"

definition readdir ::
  "file_system \<Rightarrow> glob_conf \<Rightarrow> jsstr \<Rightarrow> bool \<Rightarrow> glob_caches \<Rightarrow> glob_caches \<times> (js_error + jsstr list option)"
where
  "readdir F conf ab inGlobStar st =
     (if inGlobStar \<and> g_symlinks st ab = None then readdirInGlobStar F conf ab st
      else readdir_plain F conf ab st)"

section \<open>Existence\<close>

text \<open>What \<open>_stat\<close> finds when it does not return from the cache.\<close>

definition stat_uncached ::
  "file_system \<Rightarrow> jsstr \<Rightarrow> bool \<Rightarrow> glob_caches \<Rightarrow> glob_caches \<times> cache_entry"
where
  "stat_uncached F ab needDir st =
     (let found = (case g_statCache st ab of
            Some (Some stat) \<Rightarrow> Some stat
          | _ \<Rightarrow>
              (case lstatSync F ab of
                 Inl er \<Rightarrow> None
               | Inr lstat \<Rightarrow>
                   if isSymbolicLink lstat
                   then Some (case statSync F ab of Inr stat \<Rightarrow> stat | Inl er \<Rightarrow> lstat)
                   else Some lstat))
      in case found of
           None \<Rightarrow> (st, CFalse)
         | Some stat \<Rightarrow>
             let c = (if isDirectory stat then CDir else CFile);
                 known = (case g_cache st ab of Some k \<Rightarrow> truthy_entry k | None \<Rightarrow> False);
                 st = st\<lparr>g_statCache := (g_statCache st)(ab \<mapsto> Some stat),
                         g_cache := (if known then g_cache st else (g_cache st)(ab \<mapsto> c))\<rparr>
             in (st, if needDir \<and> c \<noteq> CDir then CFalse else c))"

definition stat :: "file_system \<Rightarrow> glob_conf \<Rightarrow> jsstr \<Rightarrow> glob_caches \<Rightarrow> glob_caches \<times> cache_entry" where
  "stat F conf f st =
     (let ab = makeAbs conf f; needDir = (js_slice_from f (- 1) = [47])
      in if (case g_maxLength conf of None \<Rightarrow> False | Some n \<Rightarrow> length f > n) then (st, CFalse)
         else if opt (g_flags conf) ''stat'' then stat_uncached F ab needDir st
         else case g_cache st ab of
                None \<Rightarrow> stat_uncached F ab needDir st
              | Some k \<Rightarrow>
                  let c = (case k of CEntries es \<Rightarrow> CDir | _ \<Rightarrow> k)
                  in if \<not> needDir \<or> c = CDir then (st, c)
                     else if c = CFile then (st, CFalse)
                     else stat_uncached F ab needDir st)"

section \<open>Matches\<close>

definition add_match :: "nat \<Rightarrow> jsstr list \<Rightarrow> glob_caches \<Rightarrow> glob_caches" where
  "add_match index es st =
     st\<lparr>g_matches := (g_matches st)[index := Some (fold add_key es
          (case g_matches st ! index of None \<Rightarrow> [] | Some ks \<Rightarrow> ks))]\<rparr>"

definition mounted :: "glob_conf \<Rightarrow> jsstr \<Rightarrow> jsstr" where
  "mounted conf e =
     (if js_charAt e 0 = [47] \<and> \<not> opt (g_flags conf) ''nomount''
      then path_of (join [Some (g_root conf), Some e]) else e)"

definition processSimple :: "file_system \<Rightarrow> glob_conf \<Rightarrow> jsstr \<Rightarrow> nat \<Rightarrow> glob_caches \<Rightarrow> glob_caches" where
  "processSimple F conf prefix index st =
     (let (st, exists) = stat F conf prefix st
      in if \<not> truthy_entry exists then add_match index [] st
         else add_match index [mounted conf prefix] st)"

text \<open>\<open>_emitMatch\<close>, which the synchronous search has but does not call.\<close>

definition emitMatch :: "file_system \<Rightarrow> glob_conf \<Rightarrow> nat \<Rightarrow> jsstr \<Rightarrow> glob_caches \<Rightarrow> js_error + glob_caches" where
  "emitMatch F conf index e st =
     (let (st, e) = (if g_mark conf then mark conf e st else (st, e))
      in case g_matches st ! index of
           None \<Rightarrow> Inl (TypeError ''cannot read properties of undefined'')
         | Some ks \<Rightarrow>
             if e \<in> set ks then Inr st
             else if opt (g_flags conf) ''nodir'' \<and>
                     (case g_cache st (makeAbs conf e) of None \<Rightarrow> False | Some c \<Rightarrow> dir_entry c) then Inr st
             else
               let st = add_match index [e] st
               in Inr (if opt (g_flags conf) ''stat'' then fst (stat F conf e st) else st))"

section \<open>The walk\<close>

datatype task =
    Process "glob_part list" bool
  | GlobStarLoop "jsstr option" jsstr "jsstr list" "glob_part list" bool

fun is_literal :: "glob_part \<Rightarrow> bool" where
  "is_literal (Literal s) = True"
| "is_literal _ = False"

fun literal_text :: "glob_part \<Rightarrow> jsstr" where
  "literal_text (Literal s) = s"
| "literal_text _ = []"

definition literal_prefix :: "glob_part list \<Rightarrow> jsstr list" where
  "literal_prefix pat = map literal_text (takeWhile is_literal pat)"

text \<open>A prefix that is \<open>null\<close> or empty counts as none.\<close>

definition prefix_parts :: "jsstr option \<Rightarrow> glob_part list" where
  "prefix_parts prefix = (case prefix of None \<Rightarrow> [] | Some p \<Rightarrow> if p = [] then [] else [Literal p])"

definition prefixed :: "jsstr option \<Rightarrow> jsstr \<Rightarrow> jsstr" where
  "prefixed prefix e =
     (case prefix of
        None \<Rightarrow> e
      | Some p \<Rightarrow> if p = [] then e else if js_slice_from p (- 1) \<noteq> [47] then p @ [47] @ e else p @ e)"

text \<open>
  \<open>e.match(pn)\<close> and the test of \<open>_glob\<close>, which a pattern that is no valid regular expression
  does not have.
\<close>

definition entry_match :: "unicode \<Rightarrow> glob_part \<Rightarrow> jsstr \<Rightarrow> bool" where
  "entry_match U pn e = (case pn of Magic r i texts \<Rightarrow> rx_test (canon_of U i) r e | _ \<Rightarrow> False)"

definition dot_ok :: "glob_conf \<Rightarrow> glob_part \<Rightarrow> js_error + bool" where
  "dot_ok conf pn =
     (if opt (g_flags conf) ''dot'' then Inr True
      else case pn of
             Magic r i (Some (src, glob)) \<Rightarrow> Inr (js_charAt glob 0 = [46])
           | _ \<Rightarrow> Inl (TypeError ''cannot read properties of undefined''))"

definition matched_entries ::
  "unicode \<Rightarrow> glob_conf \<Rightarrow> jsstr option \<Rightarrow> glob_part \<Rightarrow> bool \<Rightarrow> jsstr list \<Rightarrow> jsstr list"
where
  "matched_entries U conf prefix pn dotOk entries =
     filter (\<lambda>e. (js_charAt e 0 \<noteq> [46] \<or> dotOk) \<and>
                 (if mm_negate (g_minimatch conf) \<and> prefix_parts prefix = []
                  then \<not> entry_match U pn e else entry_match U pn e)) entries"

definition processReaddir ::
  "unicode \<Rightarrow> file_system \<Rightarrow> glob_conf \<Rightarrow> nat \<Rightarrow> jsstr option \<Rightarrow> jsstr \<Rightarrow> glob_part list \<Rightarrow> bool \<Rightarrow>
   glob_caches \<Rightarrow> js_error + glob_caches \<times> task list"
where
  "processReaddir U F conf index prefix ab remain inGlobStar st =
     (let (st, r) = readdir F conf ab inGlobStar st
      in ebind r (\<lambda>entries. case entries of
           None \<Rightarrow> Inr (st, [])
         | Some entries \<Rightarrow>
             ebind (dot_ok conf (hd remain)) (\<lambda>dotOk.
               let es = matched_entries U conf prefix (hd remain) dotOk entries
               in if es = [] then Inr (st, [])
                  else if length remain = 1 \<and> \<not> g_mark conf \<and> \<not> opt (g_flags conf) ''stat'' then
                    Inr (add_match index (map (\<lambda>e. mounted conf (prefixed prefix e)) es) st, [])
                  else
                    Inr (st, map (\<lambda>e. Process (prefix_parts prefix @ [Literal e] @ tl remain) inGlobStar) es))))"

definition processGlobStar ::
  "file_system \<Rightarrow> glob_conf \<Rightarrow> jsstr option \<Rightarrow> jsstr \<Rightarrow> glob_part list \<Rightarrow> bool \<Rightarrow>
   glob_caches \<Rightarrow> js_error + glob_caches \<times> task list"
where
  "processGlobStar F conf prefix ab remain inGlobStar st =
     (let (st, r) = readdir F conf ab inGlobStar st
      in ebind r (\<lambda>entries. case entries of
           None \<Rightarrow> Inr (st, [])
         | Some entries \<Rightarrow>
             Inr (st, [Process (prefix_parts prefix @ tl remain) False,
                       GlobStarLoop prefix ab entries remain inGlobStar])))"

definition globstar_loop ::
  "glob_conf \<Rightarrow> jsstr option \<Rightarrow> jsstr \<Rightarrow> jsstr list \<Rightarrow> glob_part list \<Rightarrow> bool \<Rightarrow> glob_caches \<Rightarrow> task list"
where
  "globstar_loop conf prefix ab entries remain inGlobStar st =
     (if g_symlinks st ab = Some True \<and> inGlobStar then []
      else concat (map (\<lambda>e.
             [Process (prefix_parts prefix @ [Literal e] @ tl remain) True,
              Process (prefix_parts prefix @ [Literal e] @ remain) True])
             (filter (\<lambda>e. js_charAt e 0 \<noteq> [46] \<or> opt (g_flags conf) ''dot'') entries)))"

text \<open>
  Where the parts before the first one that is no string lead: the prefix and the path to read.
  The join of the whole pattern is absolute when its first part is, or is empty.
\<close>

definition read_prefix :: "glob_part list \<Rightarrow> jsstr option \<times> jsstr" where
  "read_prefix pat =
     (case literal_prefix pat of
        [] \<Rightarrow> (None, [46])
      | s # ss \<Rightarrow>
          let prefix = js_join [47] (s # ss)
          in if absolute_posix prefix \<or> s = []
             then (let prefix = (if prefix = [] \<or> \<not> absolute_posix prefix then [47] @ prefix else prefix)
                   in (Some prefix, prefix))
             else (Some prefix, prefix))"

definition process ::
  "unicode \<Rightarrow> file_system \<Rightarrow> glob_conf \<Rightarrow> nat \<Rightarrow> glob_part list \<Rightarrow> bool \<Rightarrow>
   glob_caches \<Rightarrow> js_error + glob_caches \<times> task list"
where
  "process U F conf index pat inGlobStar st =
     (let n = length (literal_prefix pat)
      in if n = length pat then Inr (processSimple F conf (js_join [47] (literal_prefix pat)) index st, [])
         else
           let (prefix, read) = read_prefix pat; remain = drop n pat; ab = makeAbs conf read
           in if childrenIgnored U conf read then Inr (st, [])
              else if hd remain = Globstar then processGlobStar F conf prefix ab remain inGlobStar st
              else processReaddir U F conf index prefix ab remain inGlobStar st)"

fun do_task ::
  "unicode \<Rightarrow> file_system \<Rightarrow> glob_conf \<Rightarrow> nat \<Rightarrow> task \<Rightarrow> glob_caches \<Rightarrow> js_error + glob_caches \<times> task list"
where
  "do_task U F conf index (Process pat inGlobStar) st = process U F conf index pat inGlobStar st"
| "do_task U F conf index (GlobStarLoop prefix ab entries remain inGlobStar) st =
     Inr (st, globstar_loop conf prefix ab entries remain inGlobStar st)"

partial_function (option) run_tasks ::
  "unicode \<Rightarrow> file_system \<Rightarrow> glob_conf \<Rightarrow> nat \<Rightarrow> task list \<Rightarrow> glob_caches \<Rightarrow> (js_error + glob_caches) option"
where
  "run_tasks U F conf index tasks st =
     (case tasks of
        [] \<Rightarrow> Some (Inr st)
      | t # ts \<Rightarrow>
          (case do_task U F conf index t st of
             Inl e \<Rightarrow> Some (Inl e)
           | Inr (st, new) \<Rightarrow> run_tasks U F conf index (new @ ts) st))"

declare run_tasks.simps [code]

section \<open>The search\<close>

fun process_set ::
  "unicode \<Rightarrow> file_system \<Rightarrow> glob_conf \<Rightarrow> nat \<Rightarrow> glob_part list list \<Rightarrow> glob_caches \<Rightarrow> (js_error + glob_caches) option"
where
  "process_set U F conf index [] st = Some (Inr st)"
| "process_set U F conf index (pat # pats) st =
     rbind (run_tasks U F conf index [Process pat False] st) (\<lambda>st. process_set U F conf (Suc index) pats st)"

fun realpath_names :: "file_system \<Rightarrow> glob_conf \<Rightarrow> jsstr list \<Rightarrow> jsstr list \<Rightarrow> js_error + jsstr list" where
  "realpath_names F conf [] acc = Inr acc"
| "realpath_names F conf (p # ps) acc =
     (let p = makeAbs conf p
      in case realpathSync F p of
           Inr real \<Rightarrow> realpath_names F conf ps (add_key real acc)
         | Inl er \<Rightarrow>
             if er_syscall er = ''stat'' then realpath_names F conf ps (add_key (makeAbs conf p) acc)
             else Inl (JsError (er_code er)))"

definition finish_sync ::
  "unicode \<Rightarrow> (jsstr \<Rightarrow> jsstr \<Rightarrow> int) \<Rightarrow> file_system \<Rightarrow> glob_conf \<Rightarrow> glob_caches \<Rightarrow> js_error + glob_caches \<times> jsstr list"
where
  "finish_sync U collate F conf st =
     ebind (if opt (g_flags conf) ''realpath''
            then ebind (emap (\<lambda>ks. case ks of
                     None \<Rightarrow> Inr None
                   | Some ks \<Rightarrow> ebind (realpath_names F conf (own_keys ks) []) (\<lambda>ns. Inr (Some ns))) (g_matches st))
                   (\<lambda>ms. Inr (st\<lparr>g_matches := ms\<rparr>))
            else Inr st)
       (\<lambda>st. Inr (finish U collate conf st))"

text \<open>The names found, or \<open>None\<close> when \<open>noprocess\<close> leaves them undefined.\<close>

definition globSync ::
  "unicode \<Rightarrow> random_texts \<Rightarrow> (jsstr \<Rightarrow> jsstr \<Rightarrow> int) \<Rightarrow> file_system \<Rightarrow> jsstr \<Rightarrow> glob_call \<Rightarrow>
   (js_error + jsstr list option) option"
where
  "globSync U R collate F pat options =
     (if pat = [] then Some (Inl (JsError ''must provide pattern''))
      else rbind (setopts R pat options) (\<lambda>(conf, st).
        if opt (g_flags conf) ''noprocess'' then Some (Inr None)
        else
          let pats = mm_set (g_minimatch conf)
          in rbind (process_set U F conf 0 pats (st\<lparr>g_matches := replicate (length pats) None\<rparr>)) (\<lambda>st.
               Some (ebind (finish_sync U collate F conf st) (\<lambda>(st, found). Inr (Some found))))))"

end
