(* ===== verification/Glob_Tree.thy ===== *)
theory Glob_Tree
  imports Glob_Sync "HOL-Library.Multiset"
begin

text \<open>
  What a synchronous search finds in a tree of files and directories: exactly the paths that the
  pattern \<open>reaches\<close>, whatever is in the caches at that time.

  A tree maps the segments of a path from the root to a file or a directory with its entries.
  \<open>reports F T\<close> says that the file system \<open>F\<close> is the tree \<open>T\<close>: no symbolic links, every directory
  can be read, and reading a path that does not exist reports so. The last point matters:
  \<open>glob_phantom\<close> shows a search that finds a path that does not exist when the file system
  reports \<open>ENOTDIR\<close> for a path below a regular file.
\<close>

section \<open>Trees\<close>

datatype node = File | Dir "jsstr list"

type_synonym tree = "jsstr list \<rightharpoonup> node"

definition tree_ok :: "tree \<Rightarrow> bool" where
  "tree_ok T \<longleftrightarrow>
     (\<forall>p e. T (p @ [e]) \<noteq> None \<longleftrightarrow> (\<exists>es. T p = Some (Dir es) \<and> e \<in> set es)) \<and>
     (\<forall>p es. T p = Some (Dir es) \<longrightarrow> list_all proper_name es)"

definition abs_path :: "jsstr list \<Rightarrow> jsstr" where
  "abs_path segs = [47] @ js_join [47] segs"

definition reports_node :: "file_system \<Rightarrow> jsstr \<Rightarrow> node option \<Rightarrow> bool" where
  "reports_node F p n =
     (case n of
        None \<Rightarrow> (\<exists>er. lstatSync F p = Inl er) \<and> (\<exists>er. readdirSync F p = Inl er \<and> er_code er = ''ENOENT'')
      | Some File \<Rightarrow>
          lstatSync F p = Inr \<lparr>isDirectory = False, isSymbolicLink = False\<rparr> \<and>
          (\<exists>er. readdirSync F p = Inl er \<and> er_code er = ''ENOTDIR'')
      | Some (Dir es) \<Rightarrow>
          lstatSync F p = Inr \<lparr>isDirectory = True, isSymbolicLink = False\<rparr> \<and> readdirSync F p = Inr es)"

definition reports :: "file_system \<Rightarrow> tree \<Rightarrow> bool" where
  "reports F T \<longleftrightarrow> (\<forall>segs. list_all proper_name segs \<longrightarrow> reports_node F (abs_path segs) (T segs)) \<and>
     (\<exists>er. lstatSync F [] = Inl er)"

definition plain_conf :: "glob_conf \<Rightarrow> bool" where
  "plain_conf conf \<longleftrightarrow> g_root conf = [47] \<and> \<not> g_mark conf \<and> \<not> opt (g_flags conf) ''stat'' \<and> g_ignore conf = [] \<and>
     g_maxLength conf = None \<and> \<not> mm_negate (g_minimatch conf)"

text \<open>The segments of the directory in which a search starts.\<close>

definition base :: "glob_conf \<Rightarrow> jsstr list" where
  "base conf = (if g_changedCwd conf then cd [] (g_cwd conf) else [])"

section \<open>Paths of a search\<close>

lemma base_proper [simp]: "list_all proper_name (base conf)"
  by (simp add: base_def cd_proper)

lemma proper_clean: "list_all proper_name ps \<Longrightarrow> list_all clean_segment ps"
  by (auto simp: list_all_iff proper_segment)

lemma path_parts_names: "list_all proper_name ps \<Longrightarrow> path_parts (js_join [47] ps) = ps"
  using path_parts_join [OF proper_clean] by simp

lemma join_relative: "list_all proper_name ps \<Longrightarrow> js_charAt (js_join [47] ps) 0 \<noteq> [47]"
  using js_join_hd [OF proper_clean, of ps] by (cases "js_join [47] ps") (auto simp: js_charAt_def)

lemma join_eq_Nil: "list_all proper_name ps \<Longrightarrow> js_join [47] ps = [] \<longleftrightarrow> ps = []"
  using js_join_eq_Nil [OF proper_clean] by simp

lemma cd_names: "list_all proper_name dir \<Longrightarrow> list_all proper_name ps \<Longrightarrow> cd dir (js_join [47] ps) = dir @ ps"
  using join_relative [of ps] walk_names [of "dir @ ps"]
  by (auto simp: cd_def path_parts_names isAbsolute_def)

lemma makeAbs_names:
  assumes "list_all proper_name ps" and "ps \<noteq> []"
  shows "makeAbs conf (js_join [47] ps) = abs_path (base conf @ ps)"
proof -
  have "resolve [Some (g_cwd conf), Some (js_join [47] ps)] = Inr (abs_path (cd [] (g_cwd conf) @ ps))"
    using resolve_cd [of "[g_cwd conf, js_join [47] ps]"] cd_names [OF cd_proper assms(1)] by (simp add: abs_path_def)
  moreover have "resolve [Some (js_join [47] ps)] = Inr (abs_path ps)"
    using resolve_cd [of "[js_join [47] ps]"] cd_names [of "[]", OF _ assms(1)] by (simp add: abs_path_def)
  ultimately show ?thesis
    using join_relative [OF assms(1)] join_eq_Nil [OF assms(1)] assms(2)
    by (auto simp: makeAbs_def absolute_posix_def base_def path_of_def)
qed

lemma path_parts_dot: "path_parts [46] = [[46]]"
  by (simp add: path_parts_segment clean_segment_def)

lemma makeAbs_dot: "makeAbs conf [46] = abs_path (base conf)"
proof -
  have cd: "cd dir [46] = dir" if "list_all proper_name dir" for dir
  proof -
    have "walk (dir @ [[46]]) = walk_step (walk dir) [46]" by (simp add: walk_append)
    then show ?thesis
      using walk_names [OF that] path_parts_dot by (simp add: cd_def isAbsolute_def js_charAt_def walk_step_def)
  qed
  have "resolve [Some (g_cwd conf), Some [46]] = Inr (abs_path (cd [] (g_cwd conf)))"
    using resolve_cd [of "[g_cwd conf, [46]]"] cd [OF cd_proper] by (simp add: abs_path_def)
  moreover have "resolve [Some [46]] = Inr (abs_path [])"
    using resolve_cd [of "[[46]]"] cd [of "[]"] by (simp add: abs_path_def)
  ultimately show ?thesis by (auto simp: makeAbs_def absolute_posix_def base_def path_of_def js_charAt_def)
qed

lemma path_parts_slash: "path_parts (47 # s) = path_parts s"
  using path_parts_append [of "[]" s] by simp

lemma path_parts_abs: "list_all proper_name ps \<Longrightarrow> path_parts (abs_path ps) = ps"
  by (simp add: abs_path_def path_parts_slash path_parts_names)

lemma abs_path_inj: "list_all proper_name ps \<Longrightarrow> list_all proper_name qs \<Longrightarrow> abs_path ps = abs_path qs \<longleftrightarrow> ps = qs"
  by (metis path_parts_abs)

lemma abs_path_neq_Nil [simp]: "abs_path ps \<noteq> []" "[] \<noteq> abs_path ps"
  by (simp_all add: abs_path_def)

lemma normalize_abs_path:
  assumes "list_all proper_name ps"
  shows "normalize (47 # 47 # abs_path ps) = abs_path ps"
proof -
  have "normalizeArray ps False = ps" using walk_names [OF assms] by (simp add: normalizeArray_by_walk)
  moreover have "(\<exists>t. 47 # 47 # abs_path ps = t @ [slash]) \<longleftrightarrow> ps = []"
  proof (cases "ps = []")
    case False
    then have "js_join [47] ps \<noteq> []" using join_eq_Nil [OF assms] by simp
    then obtain u c where u: "js_join [47] ps = u @ [c]" by (cases "js_join [47] ps" rule: rev_cases) auto
    then have "c \<noteq> slash" using js_join_last [OF proper_clean [OF assms], of u] by auto
    then show ?thesis using False u by (simp add: abs_path_def)
  qed (simp add: abs_path_def)
  ultimately show ?thesis
    using assms join_eq_Nil [OF assms]
    by (simp add: normalize_by_normal_form isAbsolute_def js_charAt_def path_parts_slash path_parts_abs normal_form_def abs_path_def Let_def path_parts_names)
qed

lemma makeAbs_abs:
  assumes "g_root conf = [47]" and "list_all proper_name ps"
  shows "makeAbs conf (abs_path ps) = abs_path ps"
proof -
  have "js_join [47] [[47], abs_path ps] = 47 # 47 # abs_path ps" by simp
  then have "join [Some [47], Some (abs_path ps)] = Inr (abs_path ps)"
    using normalize_abs_path [OF assms(2)] by (simp add: join_def join_filter_def)
  then show ?thesis using assms(1) by (simp add: makeAbs_def path_of_def abs_path_def js_charAt_def)
qed

lemma join_snoc: "ps \<noteq> [] \<Longrightarrow> js_join d (ps @ [e]) = js_join d ps @ d @ e"
  by (induction d ps rule: js_join.induct) auto

lemma entry_path_abs: "list_all proper_name ps \<Longrightarrow> entry_path (abs_path ps) e = abs_path (ps @ [e])"
  using join_eq_Nil [of ps] by (auto simp: entry_path_def abs_path_def join_snoc)


section \<open>Caches\<close>

fun entry_agrees :: "node option \<Rightarrow> cache_entry \<Rightarrow> bool" where
  "entry_agrees n CTrue = (n \<noteq> None)"
| "entry_agrees n CFalse = (n = None)"
| "entry_agrees n CFile = (n = Some File)"
| "entry_agrees n CDir = (\<exists>es. n = Some (Dir es))"
| "entry_agrees n (CEntries es) = (n = Some (Dir es))"

definition is_dir :: "node option \<Rightarrow> bool" where
  "is_dir n \<longleftrightarrow> (\<exists>es. n = Some (Dir es))"

definition caches_ok :: "tree \<Rightarrow> glob_caches \<Rightarrow> bool" where
  "caches_ok T st \<longleftrightarrow>
     (\<forall>ps c. list_all proper_name ps \<longrightarrow> g_cache st (abs_path ps) = Some c \<longrightarrow> entry_agrees (T ps) c) \<and>
     (\<forall>ps s. list_all proper_name ps \<longrightarrow> g_statCache st (abs_path ps) = Some (Some s) \<longrightarrow>
        T ps \<noteq> None \<and> isDirectory s = is_dir (T ps)) \<and>
     (\<forall>ps. list_all proper_name ps \<longrightarrow> g_statCache st (abs_path ps) = Some None \<longrightarrow> T ps = None) \<and>
     g_cache st [] = None \<and> (\<forall>s. g_statCache st [] \<noteq> Some (Some s)) \<and> (\<forall>p. g_symlinks st p \<noteq> Some True)"

lemma caches_ok_entry:
  "caches_ok T st \<Longrightarrow> list_all proper_name ps \<Longrightarrow> g_cache st (abs_path ps) = Some c \<Longrightarrow> entry_agrees (T ps) c"
  by (simp add: caches_ok_def)

lemma caches_ok_update:
  "caches_ok T st \<Longrightarrow> list_all proper_name ps \<Longrightarrow> entry_agrees (T ps) c \<Longrightarrow>
   caches_ok T (st\<lparr>g_cache := (g_cache st)(abs_path ps \<mapsto> c)\<rparr>)"
  by (auto simp: caches_ok_def abs_path_inj split: if_split_asm)

lemma caches_ok_entries:
  assumes "tree_ok T" and "list_all proper_name ps" and "T ps = Some (Dir es)"
  shows "caches_ok T st \<Longrightarrow> set es' \<subseteq> set es \<Longrightarrow>
    caches_ok T (st\<lparr>g_cache := fold (\<lambda>e c. c(entry_path (abs_path ps) e \<mapsto> CTrue)) es' (g_cache st)\<rparr>)"
proof (induction es' arbitrary: st)
  case (Cons e es')
  have "proper_name e" "T (ps @ [e]) \<noteq> None"
    using assms Cons.prems(2) by (auto simp: tree_ok_def list_all_iff)
  then have st: "caches_ok T (st\<lparr>g_cache := (g_cache st)(abs_path (ps @ [e]) \<mapsto> CTrue)\<rparr>)"
    using caches_ok_update [OF Cons.prems(1), of "ps @ [e]" CTrue] assms(2) by simp
  show ?case using Cons.IH [OF st] Cons.prems(2) by (simp add: entry_path_abs [OF assms(2)])
qed simp

lemma caches_ok_matches [simp]: "caches_ok T (st\<lparr>g_matches := ms\<rparr>) = caches_ok T st"
  by (simp add: caches_ok_def)

definition dir_entries :: "node option \<Rightarrow> jsstr list option" where
  "dir_entries n = (case n of Some (Dir es) \<Rightarrow> Some es | _ \<Rightarrow> None)"

lemma reportsD: "reports F T \<Longrightarrow> list_all proper_name ps \<Longrightarrow> reports_node F (abs_path ps) (T ps)"
  by (simp add: reports_def)

lemma readdir_fs:
  assumes "tree_ok T" and "reports F T" and "plain_conf conf" and "caches_ok T st" and "list_all proper_name ps"
  shows "\<exists>st'. (case readdirSync F (abs_path ps) of
      Inr es \<Rightarrow> (readdirEntries conf (abs_path ps) es st, Inr (Some es))
    | Inl er \<Rightarrow> let (st, r) = readdirError conf (abs_path ps) er st in (st, ebind r (\<lambda>_. Inr None))) =
      (st', Inr (dir_entries (T ps))) \<and> caches_ok T st' \<and> g_matches st' = g_matches st"
proof (cases "T ps")
  case None
  then show ?thesis
    using reportsD [OF assms(2,5)] caches_ok_update [OF assms(4,5), of CFalse] assms(3)
    by (auto simp: reports_node_def readdirError_def makeAbs_abs assms(5) plain_conf_def dir_entries_def Let_def)
next
  case (Some n)
  show ?thesis
  proof (cases n)
    case File
    then show ?thesis
      using Some reportsD [OF assms(2,5)] caches_ok_update [OF assms(4,5), of CFile] assms(3)
      by (auto simp: reports_node_def readdirError_def makeAbs_abs assms(5) plain_conf_def dir_entries_def Let_def)
  next
    case (Dir es)
    let ?st = "st\<lparr>g_cache := fold (\<lambda>e c. c(entry_path (abs_path ps) e \<mapsto> CTrue)) es (g_cache st)\<rparr>"
    have "caches_ok T ?st" using caches_ok_entries [OF assms(1,5) _ assms(4)] Some Dir by simp
    then have "caches_ok T (?st\<lparr>g_cache := (g_cache ?st)(abs_path ps \<mapsto> CEntries es)\<rparr>)"
      using Some Dir by (intro caches_ok_update [OF _ assms(5)]) simp_all
    then show ?thesis
      using Some Dir reportsD [OF assms(2,5)] assms(3)
      by (simp add: reports_node_def readdirEntries_def plain_conf_def dir_entries_def Let_def)
  qed
qed

lemma readdir_plain_ok:
  assumes "tree_ok T" and "reports F T" and "plain_conf conf" and "caches_ok T st" and "list_all proper_name ps"
  shows "\<exists>st'. readdir_plain F conf (abs_path ps) st = (st', Inr (dir_entries (T ps))) \<and>
    caches_ok T st' \<and> g_matches st' = g_matches st"
proof (cases "g_cache st (abs_path ps)")
  case None
  then show ?thesis using readdir_fs [OF assms] by (simp add: readdir_plain_def)
next
  case (Some c)
  then show ?thesis
    using readdir_fs [OF assms] caches_ok_entry [OF assms(4,5) Some] assms(4)
    by (cases c) (auto simp: readdir_plain_def dir_entries_def split: node.split)
qed

lemma readdir_ok:
  assumes "tree_ok T" and "reports F T" and "plain_conf conf" and "caches_ok T st" and "list_all proper_name ps"
  shows "\<exists>st'. readdir F conf (abs_path ps) b st = (st', Inr (dir_entries (T ps))) \<and>
    caches_ok T st' \<and> g_matches st' = g_matches st"
proof (cases "b \<and> g_symlinks st (abs_path ps) = None \<and> \<not> opt (g_flags conf) ''follow''")
  case False
  then show ?thesis
    using readdir_plain_ok [OF assms] by (auto simp: readdir_def readdirInGlobStar_def)
next
  case True
  let ?st = "st\<lparr>g_symlinks := (g_symlinks st)(abs_path ps \<mapsto> False)\<rparr>"
  have st: "caches_ok T ?st" using assms(4) by (simp add: caches_ok_def)
  obtain st' where st': "readdir_plain F conf (abs_path ps) ?st = (st', Inr (dir_entries (T ps)))"
      "caches_ok T st'" "g_matches st' = g_matches st"
    using readdir_plain_ok [OF assms(1-3) st assms(5)] by auto
  show ?thesis
  proof (cases "T ps")
    case None
    then show ?thesis
      using True reportsD [OF assms(2,5)] assms(4)
      by (auto simp: readdir_def readdirInGlobStar_def reports_node_def dir_entries_def)
  next
    case (Some n)
    then show ?thesis
      using True reportsD [OF assms(2,5)] st' caches_ok_update [OF st assms(5), of CFile]
      by (cases n) (auto simp: readdir_def readdirInGlobStar_def reports_node_def dir_entries_def Let_def)
  qed
qed

section \<open>Existence\<close>

lemma caches_ok_stat:
  assumes "caches_ok T st" and "list_all proper_name ps" and "T ps \<noteq> None" and "isDirectory s = is_dir (T ps)"
  shows "caches_ok T (st\<lparr>g_statCache := (g_statCache st)(abs_path ps \<mapsto> Some s),
    g_cache := (if known then g_cache st else (g_cache st)(abs_path ps \<mapsto> if isDirectory s then CDir else CFile))\<rparr>)"
proof -
  have "entry_agrees (T ps) (if isDirectory s then CDir else CFile)"
    using assms(3,4) by (auto simp: is_dir_def) (metis node.exhaust)
  then have "caches_ok T (st\<lparr>g_cache := if known then g_cache st else (g_cache st)(abs_path ps \<mapsto> if isDirectory s then CDir else CFile)\<rparr>)"
    using assms(1) caches_ok_update [OF assms(1,2)] by (simp add: fun_upd_def)
  then show ?thesis using assms(2-4) by (auto simp: caches_ok_def abs_path_inj split: if_split_asm)
qed

lemma stat_uncached_ok:
  assumes "reports F T" and "caches_ok T st" and "list_all proper_name ps"
  shows "\<exists>st' c. stat_uncached F (abs_path ps) False st = (st', c) \<and> truthy_entry c = (T ps \<noteq> None) \<and>
    caches_ok T st' \<and> g_matches st' = g_matches st"
proof (cases "T ps")
  case None
  then have "\<nexists>s. g_statCache st (abs_path ps) = Some (Some s)" using assms(2,3) by (auto simp: caches_ok_def)
  then show ?thesis
    using None reportsD [OF assms(1,3)] assms(2)
    by (auto simp: stat_uncached_def reports_node_def split: option.split)
next
  case (Some n)
  define found where "found = (case g_statCache st (abs_path ps) of Some (Some s) \<Rightarrow> s | _ \<Rightarrow> projr (lstatSync F (abs_path ps)))"
  have found: "isDirectory found = is_dir (T ps)"
    using Some assms(2,3) reportsD [OF assms(1,3)]
    by (cases n; cases "g_statCache st (abs_path ps)") (auto simp: found_def caches_ok_def reports_node_def is_dir_def split: option.split)
  have "stat_uncached F (abs_path ps) False st =
      (let known = (case g_cache st (abs_path ps) of Some k \<Rightarrow> truthy_entry k | None \<Rightarrow> False)
       in (st\<lparr>g_statCache := (g_statCache st)(abs_path ps \<mapsto> Some found),
              g_cache := (if known then g_cache st else (g_cache st)(abs_path ps \<mapsto> if isDirectory found then CDir else CFile))\<rparr>,
           if isDirectory found then CDir else CFile))"
    using Some reportsD [OF assms(1,3)]
    by (cases n; cases "g_statCache st (abs_path ps)") (auto simp: stat_uncached_def found_def reports_node_def Let_def split: option.split)
  then show ?thesis using caches_ok_stat [OF assms(2,3) _ found] Some by (auto simp: Let_def)
qed

lemma join_no_slash_end: "list_all proper_name ps \<Longrightarrow> js_slice_from (js_join [47] ps) (- 1) \<noteq> [47]"
  using js_join_last [OF proper_clean, of ps "butlast (js_join [47] ps)"]
  by (cases "js_join [47] ps" rule: rev_cases) (auto simp: js_slice_from_def js_rel_index_def nat_diff_distrib')

lemma stat_ok:
  assumes "reports F T" and "plain_conf conf" and "caches_ok T st" and "list_all proper_name ps" and "ps \<noteq> []"
  shows "\<exists>st' c. stat F conf (js_join [47] ps) st = (st', c) \<and> truthy_entry c = (T (base conf @ ps) \<noteq> None) \<and>
    caches_ok T st' \<and> g_matches st' = g_matches st"
proof -
  have ps: "list_all proper_name (base conf @ ps)" using assms(4) by simp
  have eq: "stat F conf (js_join [47] ps) st =
      (case g_cache st (abs_path (base conf @ ps)) of
         None \<Rightarrow> stat_uncached F (abs_path (base conf @ ps)) False st
       | Some k \<Rightarrow> (st, case k of CEntries es \<Rightarrow> CDir | _ \<Rightarrow> k))"
    using assms(2) join_no_slash_end [OF assms(4)] makeAbs_names [OF assms(4,5)]
    by (simp add: stat_def plain_conf_def Let_def split: option.split)
  show ?thesis
  proof (cases "g_cache st (abs_path (base conf @ ps))")
    case None
    then show ?thesis using stat_uncached_ok [OF assms(1,3) ps] eq by simp
  next
    case (Some k)
    then show ?thesis using caches_ok_entry [OF assms(3) ps Some] assms(3) eq by (cases k) auto
  qed
qed

lemma stat_empty:
  assumes "reports F T" and "plain_conf conf" and "caches_ok T st"
  shows "stat F conf [] st = (st, CFalse)"
  using assms by (auto simp: stat_def makeAbs_def absolute_posix_def js_charAt_def js_slice_from_def js_rel_index_def
      stat_uncached_def caches_ok_def reports_def plain_conf_def Let_def split: option.split)


section \<open>What a pattern reaches\<close>

definition hit :: "unicode \<Rightarrow> glob_conf \<Rightarrow> glob_part \<Rightarrow> jsstr \<Rightarrow> bool" where
  "hit U conf p e \<longleftrightarrow> entry_match U p e \<and> (js_charAt e 0 \<noteq> [46] \<or> dot_ok conf p = Inr True)"

definition visible :: "glob_conf \<Rightarrow> jsstr \<Rightarrow> bool" where
  "visible conf e \<longleftrightarrow> js_charAt e 0 \<noteq> [46] \<or> opt (g_flags conf) ''dot''"

text \<open>
  \<open>reaches U conf T pre ps r\<close>: from the path \<open>pre\<close> below the start of the search, the parts \<open>ps\<close>
  lead to the path \<open>r\<close>. A globstar stands for any number of visible names; it needs a directory to
  start from even when it stands for none.
\<close>

inductive reaches :: "unicode \<Rightarrow> glob_conf \<Rightarrow> tree \<Rightarrow> jsstr list \<Rightarrow> glob_part list \<Rightarrow> jsstr list \<Rightarrow> bool"
  for U conf T
where
  reaches_end: "T (base conf @ pre) \<noteq> None \<Longrightarrow> pre \<noteq> [] \<Longrightarrow> reaches U conf T pre [] pre"
| reaches_literal: "reaches U conf T (pre @ path_parts s) ps r \<Longrightarrow> reaches U conf T pre (Literal s # ps) r"
| reaches_magic:
    "T (base conf @ pre) = Some (Dir es) \<Longrightarrow> e \<in> set es \<Longrightarrow> hit U conf p e \<Longrightarrow>
     reaches U conf T (pre @ [e]) ps r \<Longrightarrow> reaches U conf T pre (p # ps) r"
| reaches_none:
    "T (base conf @ pre) = Some (Dir es) \<Longrightarrow> reaches U conf T pre ps r \<Longrightarrow> reaches U conf T pre (Globstar # ps) r"
| reaches_one:
    "T (base conf @ pre) = Some (Dir es) \<Longrightarrow> e \<in> set es \<Longrightarrow> visible conf e \<Longrightarrow>
     reaches U conf T (pre @ [e]) ps r \<Longrightarrow> reaches U conf T pre (Globstar # ps) r"
| reaches_more:
    "T (base conf @ pre) = Some (Dir es) \<Longrightarrow> e \<in> set es \<Longrightarrow> visible conf e \<Longrightarrow>
     reaches U conf T (pre @ [e]) (Globstar # ps) r \<Longrightarrow> reaches U conf T pre (Globstar # ps) r"

inductive_simps reaches_Nil_iff: "reaches U conf T pre [] r"
inductive_simps reaches_Literal_simps: "reaches U conf T pre (Literal s # ps) r"
inductive_simps reaches_Magic_simps: "reaches U conf T pre (Magic x i texts # ps) r"
inductive_simps reaches_Globstar_simps: "reaches U conf T pre (Globstar # ps) r"

lemma hit_Literal [simp]: "\<not> hit U conf (Literal s) e"
  by (simp add: hit_def entry_match_def)

lemma hit_Globstar [simp]: "\<not> hit U conf Globstar e"
  by (simp add: hit_def entry_match_def)

lemma reaches_Literal_iff [simp]: "reaches U conf T pre (Literal s # ps) r = reaches U conf T (pre @ path_parts s) ps r"
  by (simp add: reaches_Literal_simps)

lemma reaches_Literals:
  "reaches U conf T pre (map Literal ls @ ps) r = reaches U conf T (pre @ concat (map path_parts ls)) ps r"
  by (induction ls arbitrary: pre) auto

lemma reaches_Magic_iff:
  "reaches U conf T pre (Magic x i texts # ps) r \<longleftrightarrow>
     (\<exists>es. dir_entries (T (base conf @ pre)) = Some es \<and>
        (\<exists>e \<in> set es. hit U conf (Magic x i texts) e \<and> reaches U conf T (pre @ [e]) ps r))"
  by (auto simp: reaches_Magic_simps dir_entries_def split: option.splits node.splits)

lemma reaches_Globstar_iff:
  "reaches U conf T pre (Globstar # ps) r \<longleftrightarrow>
     (\<exists>es. dir_entries (T (base conf @ pre)) = Some es \<and>
        (reaches U conf T pre ps r \<or>
         (\<exists>e \<in> set es. visible conf e \<and>
            (reaches U conf T (pre @ [e]) ps r \<or> reaches U conf T (pre @ [e]) (Globstar # ps) r))))"
  by (subst reaches_Globstar_simps) (auto simp: dir_entries_def split: option.splits node.splits)

definition names_of :: "unicode \<Rightarrow> glob_conf \<Rightarrow> tree \<Rightarrow> glob_part list \<Rightarrow> jsstr set" where
  "names_of U conf T pat = {js_join [47] r | r. reaches U conf T [] pat r}"

section \<open>Well-formed tasks\<close>

fun part_ok :: "glob_conf \<Rightarrow> glob_part \<Rightarrow> bool" where
  "part_ok conf (Literal s) = (s \<noteq> [] \<and> list_all proper_name (path_parts s) \<and> s = js_join [47] (path_parts s))"
| "part_ok conf (Magic r i texts) = (opt (g_flags conf) ''dot'' \<or> texts \<noteq> None)"
| "part_ok conf Globstar = True"
| "part_ok conf Unusable = False"

lemma part_ok_join: "list_all proper_name ps \<Longrightarrow> ps \<noteq> [] \<Longrightarrow> part_ok conf (Literal (js_join [47] ps))"
  using join_eq_Nil [of ps] by (simp add: path_parts_names)

lemma part_ok_dot: "part_ok conf p \<Longrightarrow> \<not> is_literal p \<Longrightarrow> p \<noteq> Globstar \<Longrightarrow> \<exists>b. dot_ok conf p = Inr b"
  by (cases p) (auto simp: dot_ok_def split: option.split)

definition prefix_segs :: "glob_part list \<Rightarrow> jsstr list" where
  "prefix_segs pat = concat (map path_parts (literal_prefix pat))"

lemma literal_prefix_split:
  "pat = map Literal (literal_prefix pat) @ drop (length (literal_prefix pat)) pat"
proof -
  have "map Literal (literal_prefix pat) = takeWhile is_literal pat"
    unfolding literal_prefix_def by (induction pat) (auto elim: is_literal.elims)
  moreover have "length (literal_prefix pat) = length (takeWhile is_literal pat)" by (simp add: literal_prefix_def)
  ultimately show ?thesis by (metis append_take_drop_id takeWhile_eq_take)
qed

lemma reaches_prefix:
  "reaches U conf T [] pat r = reaches U conf T (prefix_segs pat) (drop (length (literal_prefix pat)) pat) r"
  by (subst (1) literal_prefix_split) (simp only: reaches_Literals prefix_segs_def append_Nil)

lemma join_append:
  "xs \<noteq> [] \<Longrightarrow> ys \<noteq> [] \<Longrightarrow> js_join d (xs @ ys) = js_join d xs @ d @ js_join d ys"
  by (induction d xs rule: js_join.induct) (auto simp: js_join_Cons)

lemma prefix_segs_ok:
  assumes "list_all (part_ok conf) pat"
  shows "list_all proper_name (prefix_segs pat)"
    and "js_join [47] (literal_prefix pat) = js_join [47] (prefix_segs pat)"
    and "prefix_segs pat = [] \<longleftrightarrow> literal_prefix pat = []"
proof -
  have ok: "s \<noteq> []" "list_all proper_name (path_parts s)" "s = js_join [47] (path_parts s)" "path_parts s \<noteq> []"
    if "s \<in> set (literal_prefix pat)" for s
  proof -
    have "Literal s \<in> set pat"
      using that by (subst literal_prefix_split) auto
    then show "s \<noteq> []" "list_all proper_name (path_parts s)" "s = js_join [47] (path_parts s)"
      using assms by (auto simp: list_all_iff)
    then show "path_parts s \<noteq> []" by force
  qed
  show "list_all proper_name (prefix_segs pat)" using ok(2) by (fastforce simp: prefix_segs_def list_all_iff)
  show "prefix_segs pat = [] \<longleftrightarrow> literal_prefix pat = []"
    using ok(4) by (cases "literal_prefix pat") (auto simp: prefix_segs_def)
  have "js_join [47] ls = js_join [47] (concat (map path_parts ls))" if "set ls \<subseteq> set (literal_prefix pat)" for ls
    using that
  proof (induction ls)
    case (Cons s ls)
    show ?case
    proof (cases "ls = []")
      case True
      then show ?thesis using ok(3) [of s] Cons.prems by simp
    next
      case False
      then have "concat (map path_parts ls) \<noteq> []" using ok(4) Cons.prems by (cases ls) auto
      then show ?thesis
        using Cons False ok(3,4) [of s] by (simp add: js_join_Cons join_append)
    qed
  qed simp
  then show "js_join [47] (literal_prefix pat) = js_join [47] (prefix_segs pat)" by (simp add: prefix_segs_def)
qed

definition prefix_of :: "jsstr list \<Rightarrow> jsstr option" where
  "prefix_of pre = (if pre = [] then None else Some (js_join [47] pre))"

lemma read_prefix_ok:
  assumes "list_all (part_ok conf) pat"
  shows "fst (read_prefix pat) = prefix_of (prefix_segs pat)"
    and "makeAbs conf (snd (read_prefix pat)) = abs_path (base conf @ prefix_segs pat)"
proof -
  note ok = prefix_segs_ok [OF assms]
  have read: "read_prefix pat = (if prefix_segs pat = [] then (None, [46])
      else (Some (js_join [47] (prefix_segs pat)), js_join [47] (prefix_segs pat)))"
  proof (cases "literal_prefix pat")
    case (Cons s ss)
    have "Literal s \<in> set pat" using Cons by (subst literal_prefix_split) simp
    then have "s \<noteq> []" using assms by (auto simp: list_all_iff)
    then show ?thesis
      using Cons ok(2,3) join_relative [OF ok(1)] by (simp add: read_prefix_def absolute_posix_def Let_def)
  qed (use ok(3) in \<open>simp add: read_prefix_def\<close>)
  show "fst (read_prefix pat) = prefix_of (prefix_segs pat)" by (simp add: read prefix_of_def)
  show "makeAbs conf (snd (read_prefix pat)) = abs_path (base conf @ prefix_segs pat)"
    using makeAbs_names [OF ok(1)] makeAbs_dot by (simp add: read)
qed

lemma prefix_parts_of:
  "list_all proper_name pre \<Longrightarrow> prefix_parts (prefix_of pre) = (if pre = [] then [] else [Literal (js_join [47] pre)])"
  using join_eq_Nil [of pre] by (simp add: prefix_parts_def prefix_of_def)

lemma prefixed_of: "list_all proper_name pre \<Longrightarrow> prefixed (prefix_of pre) e = js_join [47] (pre @ [e])"
  using join_eq_Nil [of pre] join_no_slash_end [of pre] by (simp add: prefixed_def prefix_of_def join_snoc)


section \<open>One task\<close>

definition found_names :: "nat \<Rightarrow> glob_caches \<Rightarrow> jsstr set" where
  "found_names index st = (case g_matches st ! index of None \<Rightarrow> {} | Some ks \<Rightarrow> set ks)"

definition same_elsewhere :: "nat \<Rightarrow> glob_caches \<Rightarrow> glob_caches \<Rightarrow> bool" where
  "same_elsewhere index st st' \<longleftrightarrow>
     length (g_matches st') = length (g_matches st) \<and> (\<forall>j. j \<noteq> index \<longrightarrow> g_matches st' ! j = g_matches st ! j)"

lemma set_add_keys: "set (fold add_key es ks) = set es \<union> set ks"
  by (induction es arbitrary: ks) (auto simp: add_key_def)

lemma add_match_found:
  "index < length (g_matches st) \<Longrightarrow> found_names index (add_match index es st) = set es \<union> found_names index st"
  by (simp add: found_names_def add_match_def set_add_keys split: option.split)

lemma add_match_elsewhere: "same_elsewhere index st (add_match index es st)"
  by (simp add: same_elsewhere_def add_match_def)

lemma caches_ok_add_match [simp]: "caches_ok T (add_match index es st) = caches_ok T st"
  by (simp add: add_match_def)

lemma mounted_relative: "list_all proper_name ps \<Longrightarrow> mounted conf (js_join [47] ps) = js_join [47] ps"
  using join_relative [of ps] by (simp add: mounted_def)

text \<open>
  The outcome of a task: the caches are kept, and the names found together with those of the
  new tasks are the names of the task and those found before.
\<close>

fun task_names :: "unicode \<Rightarrow> glob_conf \<Rightarrow> tree \<Rightarrow> task \<Rightarrow> jsstr set" where
  "task_names U conf T (Process pat b) = names_of U conf T pat"
| "task_names U conf T (GlobStarLoop prefix ab entries remain b) =
     (\<Union>e \<in> {e \<in> set entries. visible conf e}.
        names_of U conf T (prefix_parts prefix @ [Literal e] @ tl remain) \<union>
        names_of U conf T (prefix_parts prefix @ [Literal e] @ remain))"

fun task_ok :: "glob_conf \<Rightarrow> tree \<Rightarrow> task \<Rightarrow> bool" where
  "task_ok conf T (Process pat b) = list_all (part_ok conf) pat"
| "task_ok conf T (GlobStarLoop prefix ab entries remain b) =
     (\<exists>pre. prefix = prefix_of pre \<and> list_all proper_name pre \<and> list_all (part_ok conf) remain \<and>
        remain \<noteq> [] \<and> hd remain = Globstar \<and> T (base conf @ pre) = Some (Dir entries))"

definition weight :: "glob_conf \<Rightarrow> nat \<Rightarrow> task \<Rightarrow> nat \<times> nat \<times> nat" where
  "weight conf height t =
     (case t of
        Process pat b \<Rightarrow>
          (length (filter (\<lambda>p. \<not> is_literal p) pat), Suc height - length (base conf @ prefix_segs pat), 1)
      | GlobStarLoop prefix ab entries remain b \<Rightarrow>
          (length (filter (\<lambda>p. \<not> is_literal p) remain),
           Suc height - length (base conf @ prefix_segs (prefix_parts prefix)), 0))"

definition smaller :: "(nat \<times> nat \<times> nat) rel" where
  "smaller = less_than <*lex*> less_than <*lex*> less_than"

lemma wf_smaller: "wf smaller"
  by (auto simp: smaller_def)

definition bounded :: "tree \<Rightarrow> nat \<Rightarrow> bool" where
  "bounded T height \<longleftrightarrow> (\<forall>ps. T ps \<noteq> None \<longrightarrow> length ps \<le> height)"

definition outcome ::
  "unicode \<Rightarrow> glob_conf \<Rightarrow> tree \<Rightarrow> nat \<Rightarrow> nat \<Rightarrow> task \<Rightarrow> glob_caches \<Rightarrow> js_error + glob_caches \<times> task list \<Rightarrow> bool"
where
  "outcome U conf T height index t st r \<longleftrightarrow>
     (\<exists>st' new. r = Inr (st', new) \<and> caches_ok T st' \<and> same_elsewhere index st st' \<and>
        list_all (task_ok conf T) new \<and> (\<forall>n \<in> set new. (weight conf height n, weight conf height t) \<in> smaller) \<and>
        found_names index st' \<union> (\<Union>n \<in> set new. task_names U conf T n) = found_names index st \<union> task_names U conf T t)"

lemma outcomeI:
  "r = Inr (st', new) \<Longrightarrow> caches_ok T st' \<Longrightarrow> same_elsewhere index st st' \<Longrightarrow>
   list_all (task_ok conf T) new \<Longrightarrow> \<forall>n \<in> set new. (weight conf height n, weight conf height t) \<in> smaller \<Longrightarrow>
   found_names index st' \<union> (\<Union>n \<in> set new. task_names U conf T n) = found_names index st \<union> task_names U conf T t \<Longrightarrow>
   outcome U conf T height index t st r"
  by (auto simp: outcome_def)

lemma found_names_cong: "g_matches st' = g_matches st \<Longrightarrow> found_names index st' = found_names index st"
  by (simp add: found_names_def)

lemma same_elsewhere_refl: "g_matches st' = g_matches st \<Longrightarrow> same_elsewhere index st st'"
  by (simp add: same_elsewhere_def)

lemma names_prefix:
  "names_of U conf T pat = {js_join [47] r | r. reaches U conf T (prefix_segs pat) (drop (length (literal_prefix pat)) pat) r}"
  unfolding names_of_def by (subst reaches_prefix) (rule refl)

lemma names_extend:
  assumes "list_all proper_name pre" and "proper_name e"
  shows "names_of U conf T (prefix_parts (prefix_of pre) @ [Literal e] @ rest) =
    {js_join [47] r | r. reaches U conf T (pre @ [e]) rest r}"
  using assms path_parts_names [OF assms(1)] path_parts_segment [of e]
  by (simp add: names_of_def prefix_parts_of proper_segment)

lemma names_keep:
  assumes "list_all proper_name pre"
  shows "names_of U conf T (prefix_parts (prefix_of pre) @ rest) = {js_join [47] r | r. reaches U conf T pre rest r}"
  using assms path_parts_names [OF assms(1)] by (simp add: names_of_def prefix_parts_of)

lemma extend_ok:
  assumes "list_all proper_name pre" and "proper_name e" and "list_all (part_ok conf) rest"
  shows "list_all (part_ok conf) (prefix_parts (prefix_of pre) @ [Literal e] @ rest)"
  using assms part_ok_join [OF assms(1)] path_parts_segment [of e] by (auto simp: prefix_parts_of proper_segment proper_name_def simp del: part_ok.simps(1)) (simp add: proper_name_def)


lemma processSimple_ok:
  assumes "reports F T" and "plain_conf conf" and "caches_ok T st" and "index < length (g_matches st)" and "list_all proper_name pre"
  shows "\<exists>st'. processSimple F conf (js_join [47] pre) index st = st' \<and> caches_ok T st' \<and> same_elsewhere index st st' \<and>
    found_names index st' = found_names index st \<union> (if pre \<noteq> [] \<and> T (base conf @ pre) \<noteq> None then {js_join [47] pre} else {})"
proof (cases "pre = []")
  case True
  then show ?thesis
    using stat_empty [OF assms(1-3)] assms(3,4) add_match_found [OF assms(4), of "[]"] add_match_elsewhere
    by (simp add: processSimple_def)
next
  case False
  obtain st1 c where st1: "stat F conf (js_join [47] pre) st = (st1, c)" "truthy_entry c = (T (base conf @ pre) \<noteq> None)"
      "caches_ok T st1" "g_matches st1 = g_matches st"
    using stat_ok [OF assms(1-3,5) False] by blast
  define es where "es = (if truthy_entry c then [js_join [47] pre] else [])"
  have eq: "processSimple F conf (js_join [47] pre) index st = add_match index es st1"
    using st1(1) mounted_relative [OF assms(5)] by (simp add: processSimple_def es_def)
  have "same_elsewhere index st (add_match index es st1)"
    using add_match_elsewhere [of index st1 es] st1(4) by (simp add: same_elsewhere_def)
  moreover have "found_names index (add_match index es st1) = set es \<union> found_names index st"
    using add_match_found [of index st1 es] assms(4) st1(4) found_names_cong [OF st1(4)] by simp
  ultimately show ?thesis using eq st1(2,3) False by (simp add: es_def)
qed

lemma literal_count_drop:
  "length (filter (\<lambda>p. \<not> is_literal p) (drop (length (literal_prefix pat)) pat)) = length (filter (\<lambda>p. \<not> is_literal p) pat)"
proof -
  have "filter (\<lambda>p. \<not> is_literal p) (map Literal ls) = []" for ls by (induction ls) auto
  then have "filter (\<lambda>p. \<not> is_literal p) pat = filter (\<lambda>p. \<not> is_literal p) (drop (length (literal_prefix pat)) pat)"
    by (subst (1) literal_prefix_split) (simp only: filter_append append_Nil)
  then show ?thesis by simp
qed

lemma first_magic:
  assumes "length (literal_prefix pat) \<noteq> length pat"
  shows "\<exists>p ps. drop (length (literal_prefix pat)) pat = p # ps \<and> \<not> is_literal p"
proof -
  have d: "drop (length (literal_prefix pat)) pat = dropWhile is_literal pat"
    by (simp add: literal_prefix_def dropWhile_eq_drop)
  then have "dropWhile is_literal pat \<noteq> []"
    using assms by (simp add: literal_prefix_def dropWhile_eq_drop) (metis length_takeWhile_le le_antisym)
  then show ?thesis using d hd_dropWhile [of is_literal pat] by (cases "dropWhile is_literal pat") auto
qed

lemma prefix_extend_segs:
  assumes "list_all proper_name pre" and "proper_name e" and "\<not> is_literal p"
  shows "prefix_segs (prefix_parts (prefix_of pre) @ [Literal e] @ p # ps) = pre @ [e]"
  using assms path_parts_names [OF assms(1)] path_parts_segment [of e]
  by (simp add: prefix_segs_def literal_prefix_def prefix_parts_of proper_segment)

lemma prefix_keep_segs: "list_all proper_name pre \<Longrightarrow> prefix_segs (prefix_parts (prefix_of pre)) = pre"
  using path_parts_names [of pre] by (simp add: prefix_segs_def literal_prefix_def prefix_parts_of)

lemma prefix_no_magic: "list_all proper_name pre \<Longrightarrow> filter (\<lambda>p. \<not> is_literal p) (prefix_parts (prefix_of pre)) = []"
  by (simp add: prefix_parts_of)

lemma processReaddir_ok:
  assumes fs: "tree_ok T" "reports F T" "plain_conf conf" "caches_ok T st" and index: "index < length (g_matches st)"
    and pre: "list_all proper_name pre" and ok: "list_all (part_ok conf) (p # ps)" and p: "\<not> is_literal p" "p \<noteq> Globstar"
    and t: "fst (weight conf height t) = Suc (length (filter (\<lambda>p. \<not> is_literal p) ps))"
    and names: "task_names U conf T t = {js_join [47] r | r. reaches U conf T pre (p # ps) r}"
  shows "outcome U conf T height index t st
    (processReaddir U F conf index (prefix_of pre) (abs_path (base conf @ pre)) (p # ps) b st)"
proof -
  have bpre: "list_all proper_name (base conf @ pre)" using pre by simp
  obtain st1 where st1: "readdir F conf (abs_path (base conf @ pre)) b st = (st1, Inr (dir_entries (T (base conf @ pre))))"
      "caches_ok T st1" "g_matches st1 = g_matches st"
    using readdir_ok [OF fs bpre] by blast
  obtain x i texts where m: "p = Magic x i texts" using p ok by (cases p) auto
  obtain dotOk where dot: "dot_ok conf p = Inr dotOk" using part_ok_dot [of conf p] ok p by auto
  have reach: "reaches U conf T pre (p # ps) r \<longleftrightarrow> (\<exists>es. dir_entries (T (base conf @ pre)) = Some es \<and>
      (\<exists>e \<in> set es. hit U conf p e \<and> reaches U conf T (pre @ [e]) ps r))" for r
    unfolding m by (rule reaches_Magic_iff)
  show ?thesis
  proof (cases "dir_entries (T (base conf @ pre))")
    case None
    then have "task_names U conf T t = {}" unfolding names reach by simp
    then show ?thesis
      using st1 None found_names_cong [OF st1(3)] same_elsewhere_refl [OF st1(3)]
      by (intro outcomeI [of _ st1 "[]"]) (simp_all add: processReaddir_def)
  next
    case (Some entries)
    then have dir: "T (base conf @ pre) = Some (Dir entries)" by (auto simp: dir_entries_def split: option.splits node.splits)
    then have proper: "e \<in> set entries \<Longrightarrow> proper_name e" for e using fs(1) by (auto simp: tree_ok_def list_all_iff)
    have exists: "e \<in> set entries \<Longrightarrow> T (base conf @ pre @ [e]) \<noteq> None" for e
      using fs(1) dir by (auto simp: tree_ok_def simp flip: append_assoc)
    define es where "es = matched_entries U conf (prefix_of pre) p dotOk entries"
    have es: "set es = {e \<in> set entries. hit U conf p e}"
      using fs(3) dot by (auto simp: es_def matched_entries_def plain_conf_def hit_def)
    have all: "task_names U conf T t = (\<Union>e \<in> set es. {js_join [47] r | r. reaches U conf T (pre @ [e]) ps r})"
      unfolding names reach using Some es by auto
    consider "es = []" | "es \<noteq> []" "ps = []" | "es \<noteq> []" "ps \<noteq> []" by blast
    then show ?thesis
    proof cases
      case 1
      then show ?thesis
        using st1 Some dot all found_names_cong [OF st1(3)] same_elsewhere_refl [OF st1(3)]
        by (intro outcomeI [of _ st1 "[]"]) (simp_all add: processReaddir_def flip: es_def)
    next
      case 2
      let ?found = "map (\<lambda>e. mounted conf (prefixed (prefix_of pre) e)) es"
      have found: "?found = map (\<lambda>e. js_join [47] (pre @ [e])) es"
        using es proper pre mounted_relative by (auto simp: prefixed_of)
      have "{js_join [47] r | r. reaches U conf T (pre @ [e]) [] r} = {js_join [47] (pre @ [e])}" if "e \<in> set es" for e
        using that es exists by (auto simp: reaches_Nil_iff)
      then have "task_names U conf T t = set ?found" using all 2(2) unfolding found by auto
      moreover have "same_elsewhere index st (add_match index ?found st1)"
        using add_match_elsewhere [of index st1 ?found] st1(3) by (simp add: same_elsewhere_def)
      moreover have "found_names index (add_match index ?found st1) = set ?found \<union> found_names index st"
        using add_match_found [of index st1 ?found] index st1(3) found_names_cong [OF st1(3)] by simp
      moreover have "processReaddir U F conf index (prefix_of pre) (abs_path (base conf @ pre)) (p # ps) b st =
          Inr (add_match index ?found st1, [])"
        using st1(1) Some dot 2 fs(3) by (simp add: processReaddir_def plain_conf_def Let_def flip: es_def)
      ultimately show ?thesis
        using st1(2) by (intro outcomeI [of _ "add_match index ?found st1" "[]"]) (simp_all add: Un_commute)
    next
      case 3
      let ?new = "map (\<lambda>e. Process (prefix_parts (prefix_of pre) @ [Literal e] @ ps) b) es"
      have "(\<Union>n \<in> set ?new. task_names U conf T n) = task_names U conf T t"
        using all names_extend [OF pre] es proper by auto
      moreover have "task_ok conf T (Process (prefix_parts (prefix_of pre) @ [Literal e] @ ps) b)" if "e \<in> set es" for e
        unfolding task_ok.simps by (rule extend_ok [OF pre]) (use that es proper ok in auto)
      then have "list_all (task_ok conf T) ?new" by (simp add: list_all_iff del: task_ok.simps)
      moreover have "\<forall>n \<in> set ?new. (weight conf height n, weight conf height t) \<in> smaller"
        using t prefix_no_magic [OF pre] by (cases "weight conf height t") (auto simp: weight_def smaller_def)
      moreover have "processReaddir U F conf index (prefix_of pre) (abs_path (base conf @ pre)) (p # ps) b st = Inr (st1, ?new)"
        using st1(1) Some dot 3 by (simp add: processReaddir_def Let_def flip: es_def)
      ultimately show ?thesis
        using st1(2) found_names_cong [OF st1(3)] same_elsewhere_refl [OF st1(3)]
        by (intro outcomeI [of _ st1 ?new]) simp_all
    qed
  qed
qed


lemma processGlobStar_ok:
  assumes fs: "tree_ok T" "reports F T" "plain_conf conf" "caches_ok T st"
    and pre: "list_all proper_name pre" and ok: "list_all (part_ok conf) ps"
    and t: "weight conf height t = (Suc (length (filter (\<lambda>p. \<not> is_literal p) ps)), Suc height - length (base conf @ pre), 1)"
    and names: "task_names U conf T t = {js_join [47] r | r. reaches U conf T pre (Globstar # ps) r}"
  shows "outcome U conf T height index t st
    (processGlobStar F conf (prefix_of pre) (abs_path (base conf @ pre)) (Globstar # ps) b st)"
proof -
  have bpre: "list_all proper_name (base conf @ pre)" using pre by simp
  obtain st1 where st1: "readdir F conf (abs_path (base conf @ pre)) b st = (st1, Inr (dir_entries (T (base conf @ pre))))"
      "caches_ok T st1" "g_matches st1 = g_matches st"
    using readdir_ok [OF fs bpre] by blast
  show ?thesis
  proof (cases "dir_entries (T (base conf @ pre))")
    case None
    then have "task_names U conf T t = {}" unfolding names reaches_Globstar_iff [of U conf T pre] by simp
    then show ?thesis
      using st1 None found_names_cong [OF st1(3)] same_elsewhere_refl [OF st1(3)]
      by (intro outcomeI [of _ st1 "[]"]) (simp_all add: processGlobStar_def)
  next
    case (Some entries)
    then have dir: "T (base conf @ pre) = Some (Dir entries)" by (auto simp: dir_entries_def split: option.splits node.splits)
    then have proper: "e \<in> set entries \<Longrightarrow> proper_name e" for e using fs(1) by (auto simp: tree_ok_def list_all_iff)
    let ?first = "Process (prefix_parts (prefix_of pre) @ ps) False"
    let ?loop = "GlobStarLoop (prefix_of pre) (abs_path (base conf @ pre)) entries (Globstar # ps) b"
    have "task_names U conf T t = task_names U conf T ?first \<union> task_names U conf T ?loop"
    proof -
      have "task_names U conf T ?loop = (\<Union>e \<in> {e \<in> set entries. visible conf e}.
          {js_join [47] r | r. reaches U conf T (pre @ [e]) ps r} \<union> {js_join [47] r | r. reaches U conf T (pre @ [e]) (Globstar # ps) r})"
        using names_extend [OF pre] proper by auto
      moreover have "task_names U conf T ?first = {js_join [47] r | r. reaches U conf T pre ps r}"
        using names_keep [OF pre] by simp
      ultimately show ?thesis unfolding names reaches_Globstar_iff [of U conf T pre] using Some by auto
    qed
    moreover have "list_all (part_ok conf) (prefix_parts (prefix_of pre) @ ps)"
      using ok part_ok_join [OF pre] by (simp add: prefix_parts_of [OF pre] del: part_ok.simps)
    moreover have "task_ok conf T ?loop" using pre ok dir by auto
    moreover have "(weight conf height ?first, weight conf height t) \<in> smaller" "(weight conf height ?loop, weight conf height t) \<in> smaller"
      unfolding t using prefix_no_magic [OF pre] prefix_keep_segs [OF pre] by (simp_all add: weight_def smaller_def)
    ultimately show ?thesis
      using st1 Some found_names_cong [OF st1(3)] same_elsewhere_refl [OF st1(3)]
      by (intro outcomeI [of _ st1 "[?first, ?loop]"]) (simp_all add: processGlobStar_def del: task_names.simps)
  qed
qed

lemma globstar_loop_ok:
  assumes fs: "tree_ok T" "caches_ok T st" "bounded T height"
    and t: "t = GlobStarLoop prefix ab entries remain b" "task_ok conf T t"
  shows "outcome U conf T height index t st (Inr (st, globstar_loop conf prefix ab entries remain b st))"
proof -
  obtain pre ps where pre: "prefix = prefix_of pre" "list_all proper_name pre" "remain = Globstar # ps"
      "list_all (part_ok conf) ps" "T (base conf @ pre) = Some (Dir entries)"
    using t by (cases remain) auto
  have proper: "e \<in> set entries \<Longrightarrow> proper_name e" for e using fs(1) pre(5) by (auto simp: tree_ok_def list_all_iff)
  have height: "length (base conf @ pre) \<le> height" using fs(3) pre(5) by (auto simp: bounded_def)
  let ?es = "filter (visible conf) entries"
  let ?one = "\<lambda>e. Process (prefix_parts prefix @ [Literal e] @ ps) True"
  let ?more = "\<lambda>e. Process (prefix_parts prefix @ [Literal e] @ Globstar # ps) True"
  have loop: "globstar_loop conf prefix ab entries remain b st = concat (map (\<lambda>e. [?one e, ?more e]) ?es)"
    using fs(2) pre(3) by (simp add: globstar_loop_def caches_ok_def visible_def [abs_def])
  have ok: "task_ok conf T (?one e)" "task_ok conf T (?more e)"
    "(weight conf height (?one e), weight conf height t) \<in> smaller" "(weight conf height (?more e), weight conf height t) \<in> smaller"
    if "e \<in> set entries" for e
  proof -
    have e: "proper_name e" using proper that .
    show "task_ok conf T (?one e)" "task_ok conf T (?more e)"
      unfolding task_ok.simps pre(1) by (rule extend_ok [OF pre(2) e]; use pre(4) in simp)+
    show "(weight conf height (?one e), weight conf height t) \<in> smaller"
      using prefix_no_magic [OF pre(2)] by (simp add: weight_def smaller_def t(1) pre(1,3))
    show "(weight conf height (?more e), weight conf height t) \<in> smaller"
      using prefix_no_magic [OF pre(2)] prefix_extend_segs [OF pre(2) e, of Globstar ps] prefix_keep_segs [OF pre(2)] height
      by (simp add: weight_def smaller_def t(1) pre(1,3))
  qed
  have "list_all (task_ok conf T) (concat (map (\<lambda>e. [?one e, ?more e]) ?es))"
    using ok(1,2) by (simp add: list_all_iff del: task_ok.simps)
  moreover have "(\<Union>n \<in> set (concat (map (\<lambda>e. [?one e, ?more e]) ?es)). task_names U conf T n) = task_names U conf T t"
    unfolding t(1) pre(3) by (auto simp: visible_def)
  ultimately show ?thesis
    unfolding loop using fs(2) ok(3,4) same_elsewhere_refl [of st st]
    by (intro outcomeI [of _ st "concat (map (\<lambda>e. [?one e, ?more e]) ?es)"]) auto
qed

lemma do_task_ok:
  assumes fs: "tree_ok T" "reports F T" "plain_conf conf" "caches_ok T st" "bounded T height"
    and index: "index < length (g_matches st)" and t: "task_ok conf T t"
  shows "outcome U conf T height index t st (do_task U F conf index t st)"
proof (cases t)
  case (GlobStarLoop prefix ab entries remain b)
  then show ?thesis using globstar_loop_ok [OF fs(1,4,5) GlobStarLoop t] by simp
next
  case (Process pat b)
  then have ok: "list_all (part_ok conf) pat" using t by simp
  note segs = prefix_segs_ok [OF ok]
  let ?n = "length (literal_prefix pat)"
  have names: "task_names U conf T t = {js_join [47] r | r. reaches U conf T (prefix_segs pat) (drop ?n pat) r}"
    using Process names_prefix by simp
  show ?thesis
  proof (cases "?n = length pat")
    case True
    have "task_names U conf T t = (if prefix_segs pat \<noteq> [] \<and> T (base conf @ prefix_segs pat) \<noteq> None
        then {js_join [47] (prefix_segs pat)} else {})"
      unfolding names using True by (auto simp: reaches_Nil_iff)
    moreover obtain st' where "processSimple F conf (js_join [47] (prefix_segs pat)) index st = st'" "caches_ok T st'"
        "same_elsewhere index st st'"
        "found_names index st' = found_names index st \<union> (if prefix_segs pat \<noteq> [] \<and> T (base conf @ prefix_segs pat) \<noteq> None
          then {js_join [47] (prefix_segs pat)} else {})"
      using processSimple_ok [OF fs(2-4) index segs(1)] by blast
    ultimately show ?thesis
      using Process True segs(2) by (intro outcomeI [of _ st' "[]"]) (simp_all add: process_def)
  next
    case False
    obtain p ps where p: "drop ?n pat = p # ps" "\<not> is_literal p" using first_magic [OF False] by blast
    have parts: "list_all (part_ok conf) (p # ps)" using ok p(1) by (metis append_take_drop_id list_all_append)
    have count: "length (filter (\<lambda>p. \<not> is_literal p) pat) = Suc (length (filter (\<lambda>p. \<not> is_literal p) ps))"
      using literal_count_drop [of pat] p by simp
    have eq: "do_task U F conf index t st =
        (if p = Globstar then processGlobStar F conf (prefix_of (prefix_segs pat)) (abs_path (base conf @ prefix_segs pat)) (p # ps) b st
         else processReaddir U F conf index (prefix_of (prefix_segs pat)) (abs_path (base conf @ prefix_segs pat)) (p # ps) b st)"
      using Process False p(1) read_prefix_ok [OF ok] fs(3)
      by (simp add: process_def split_def Let_def childrenIgnored_def plain_conf_def)
    show ?thesis
    proof (cases "p = Globstar")
      case True
      then show ?thesis
        unfolding eq using processGlobStar_ok [OF fs(1-4) segs(1), of ps] parts names p(1) Process count
        by (simp add: weight_def)
    next
      case False
      then show ?thesis
        unfolding eq using processReaddir_ok [OF fs(1-4) index segs(1) parts p(2) False] names p(1) Process count
        by (simp add: weight_def)
    qed
  qed
qed


section \<open>The whole search\<close>

text \<open>A task runs to its end: the tasks behind it go on with the caches it leaves.\<close>

definition runs ::
  "unicode \<Rightarrow> file_system \<Rightarrow> glob_conf \<Rightarrow> tree \<Rightarrow> nat \<Rightarrow> task list \<Rightarrow> bool"
where
  "runs U F conf T index ts \<longleftrightarrow>
     (\<forall>st. caches_ok T st \<longrightarrow> index < length (g_matches st) \<longrightarrow>
        (\<exists>st'. (\<forall>us. run_tasks U F conf index (ts @ us) st = run_tasks U F conf index us st') \<and>
           caches_ok T st' \<and> same_elsewhere index st st' \<and>
           found_names index st' = found_names index st \<union> (\<Union>t \<in> set ts. task_names U conf T t)))"

lemma same_elsewhere_trans: "same_elsewhere i a b \<Longrightarrow> same_elsewhere i b c \<Longrightarrow> same_elsewhere i a c"
  by (simp add: same_elsewhere_def)

lemma runs_Nil: "runs U F conf T index []"
  by (auto simp: runs_def same_elsewhere_refl)

lemma runs_append:
  assumes "runs U F conf T index ts" and "runs U F conf T index us"
  shows "runs U F conf T index (ts @ us)"
  unfolding runs_def
proof (intro allI impI)
  fix st assume st: "caches_ok T st" "index < length (g_matches st)"
  obtain st1 where st1: "\<forall>vs. run_tasks U F conf index (ts @ vs) st = run_tasks U F conf index vs st1"
      "caches_ok T st1" "same_elsewhere index st st1"
      "found_names index st1 = found_names index st \<union> (\<Union>t \<in> set ts. task_names U conf T t)"
    using assms(1) st unfolding runs_def by blast
  then have "index < length (g_matches st1)" using st by (simp add: same_elsewhere_def)
  then obtain st2 where st2: "\<forall>vs. run_tasks U F conf index (us @ vs) st1 = run_tasks U F conf index vs st2"
      "caches_ok T st2" "same_elsewhere index st1 st2"
      "found_names index st2 = found_names index st1 \<union> (\<Union>t \<in> set us. task_names U conf T t)"
    using assms(2) st1(2) unfolding runs_def by blast
  show "\<exists>st'. (\<forall>vs. run_tasks U F conf index ((ts @ us) @ vs) st = run_tasks U F conf index vs st') \<and>
      caches_ok T st' \<and> same_elsewhere index st st' \<and>
      found_names index st' = found_names index st \<union> (\<Union>t \<in> set (ts @ us). task_names U conf T t)"
    using st1 st2 same_elsewhere_trans by (intro exI [of _ st2]) auto
qed

lemma runs_list: "(\<And>t. t \<in> set ts \<Longrightarrow> runs U F conf T index [t]) \<Longrightarrow> runs U F conf T index ts"
proof (induction ts)
  case (Cons t ts)
  then show ?case using runs_append [of U F conf T index "[t]" ts] by simp
qed (simp add: runs_Nil)

lemma runs_task:
  assumes fs: "tree_ok T" "reports F T" "plain_conf conf" "bounded T height"
  shows "task_ok conf T t \<Longrightarrow> runs U F conf T index [t]"
proof (induction "weight conf height t" arbitrary: t rule: wf_induct_rule [OF wf_smaller])
  case (1 t)
  show ?case
    unfolding runs_def
  proof (intro allI impI)
    fix st assume st: "caches_ok T st" "index < length (g_matches st)"
    obtain st1 new where new: "do_task U F conf index t st = Inr (st1, new)" "caches_ok T st1" "same_elsewhere index st st1"
        "list_all (task_ok conf T) new" "\<forall>n \<in> set new. (weight conf height n, weight conf height t) \<in> smaller"
        "found_names index st1 \<union> (\<Union>n \<in> set new. task_names U conf T n) = found_names index st \<union> task_names U conf T t"
      using do_task_ok [OF fs(1-3) st(1) fs(4) st(2) "1.prems"] unfolding outcome_def by blast
    have "runs U F conf T index [n]" if "n \<in> set new" for n
      using "1.hyps" [of n] new(4,5) that by (auto simp: list_all_iff)
    then have "runs U F conf T index new" by (rule runs_list)
    moreover have "index < length (g_matches st1)" using st new(3) by (simp add: same_elsewhere_def)
    ultimately obtain st2 where st2: "\<forall>us. run_tasks U F conf index (new @ us) st1 = run_tasks U F conf index us st2"
        "caches_ok T st2" "same_elsewhere index st1 st2"
        "found_names index st2 = found_names index st1 \<union> (\<Union>t \<in> set new. task_names U conf T t)"
      using new(2) unfolding runs_def by blast
    have "run_tasks U F conf index ([t] @ us) st = run_tasks U F conf index us st2" for us
      using new(1) st2(1) by (subst run_tasks.simps) simp
    then show "\<exists>st'. (\<forall>us. run_tasks U F conf index ([t] @ us) st = run_tasks U F conf index us st') \<and>
        caches_ok T st' \<and> same_elsewhere index st st' \<and>
        found_names index st' = found_names index st \<union> (\<Union>t \<in> set [t]. task_names U conf T t)"
      using st2(2-4) new(3,6) same_elsewhere_trans by (intro exI [of _ st2]) auto
  qed
qed

lemma process_set_ok:
  assumes fs: "tree_ok T" "reports F T" "plain_conf conf" "bounded T height"
  shows "list_all (list_all (part_ok conf)) pats \<Longrightarrow> caches_ok T st \<Longrightarrow> i + length pats \<le> length (g_matches st) \<Longrightarrow>
    \<exists>st'. process_set U F conf i pats st = Some (Inr st') \<and> caches_ok T st' \<and> length (g_matches st') = length (g_matches st) \<and>
      (\<forall>j. (j < i \<or> i + length pats \<le> j) \<longrightarrow> g_matches st' ! j = g_matches st ! j) \<and>
      (\<forall>j < length pats. found_names (i + j) st' = found_names (i + j) st \<union> names_of U conf T (pats ! j))"
proof (induction pats arbitrary: i st)
  case (Cons pat pats)
  have "runs U F conf T i [Process pat False]" by (rule runs_task [OF fs]) (use Cons.prems in simp)
  moreover have "i < length (g_matches st)" using Cons.prems by simp
  ultimately obtain st1 where st1: "run_tasks U F conf i ([Process pat False] @ []) st = run_tasks U F conf i [] st1"
      "caches_ok T st1" "same_elsewhere i st st1" "found_names i st1 = found_names i st \<union> names_of U conf T pat"
    using Cons.prems(2) unfolding runs_def by (metis (no_types, lifting) UN_insert empty_set image_empty list.simps(15) Sup_empty sup_bot.right_neutral task_names.simps(1))
  then have run: "run_tasks U F conf i [Process pat False] st = Some (Inr st1)"
    by (simp add: run_tasks.simps [of U F conf i "[]" st1])
  obtain st' where st': "process_set U F conf (Suc i) pats st1 = Some (Inr st')" "caches_ok T st'"
      "length (g_matches st') = length (g_matches st1)"
      "\<forall>j. (j < Suc i \<or> Suc i + length pats \<le> j) \<longrightarrow> g_matches st' ! j = g_matches st1 ! j"
      "\<forall>j < length pats. found_names (Suc i + j) st' = found_names (Suc i + j) st1 \<union> names_of U conf T (pats ! j)"
    using Cons.IH [of st1 "Suc i"] Cons.prems st1(2,3) by (auto simp: same_elsewhere_def)
  have else1: "g_matches st1 ! j = g_matches st ! j" if "j \<noteq> i" for j using st1(3) that by (simp add: same_elsewhere_def)
  have "found_names (i + j) st' = found_names (i + j) st \<union> names_of U conf T ((pat # pats) ! j)" if "j < length (pat # pats)" for j
  proof (cases j)
    case 0
    then show ?thesis using st'(4) st1(4) by (simp add: found_names_def)
  next
    case (Suc k)
    then show ?thesis using st'(5) that else1 [of "Suc (i + k)"] by (simp add: found_names_def)
  qed
  moreover have "length (g_matches st') = length (g_matches st)" using st'(3) st1(3) by (simp add: same_elsewhere_def)
  moreover have "g_matches st' ! j = g_matches st ! j" if "j < i \<or> i + length (pat # pats) \<le> j" for j
    using st'(4) else1 [of j] that by auto
  ultimately show ?case using run st'(1,2) by (simp add: rbind_def)
qed simp

section \<open>Finishing\<close>

lemma mset_sort_insert [simp]: "mset (sort_insert cmp x ys) = add_mset x (mset ys)"
  by (induction ys) auto

lemma mset_js_sort [simp]: "mset (js_sort cmp xs) = mset xs"
  by (induction xs) (simp_all add: js_sort_def)

lemma set_js_sort [simp]: "set (js_sort cmp xs) = set xs"
  by (metis mset_js_sort set_mset_mset)

lemma distinct_js_sort [simp]: "distinct (js_sort cmp xs) = distinct xs"
  by (metis mset_js_sort mset_eq_imp_distinct_iff)

lemma set_own_keys [simp]: "set (own_keys ks) = set ks"
  by (auto simp: own_keys_def)

lemma distinct_own_keys [simp]: "distinct (own_keys ks) = distinct ks"
proof -
  have "mset (filter is_index ks) + mset (filter (\<lambda>k. \<not> is_index k) ks) = mset ks"
    by (induction ks) auto
  then have "mset (own_keys ks) = mset ks" by (simp only: own_keys_def mset_append mset_sort)
  then show ?thesis by (rule mset_eq_imp_distinct_iff)
qed

lemma distinct_add_keys: "distinct ks \<Longrightarrow> distinct (fold add_key es ks)"
  by (induction es arbitrary: ks) (auto simp: add_key_def)


lemma UN_nth: "(\<Union>x \<in> set xs. f x) = (\<Union>i < length xs. f (xs ! i))"
proof -
  have "set xs = (!) xs ` {..<length xs}" by (auto simp: set_conv_nth)
  then show ?thesis by (simp add: image_image)
qed

lemma concat_finish_names:
  assumes "\<not> opt (g_flags conf) ''nonull''"
  shows "set (concat (map (\<lambda>(i, found). finish_names conf i found) (enumerate n ms))) =
    (\<Union>found \<in> set ms. case found of None \<Rightarrow> {} | Some ks \<Rightarrow> set ks)"
proof (induction ms arbitrary: n)
  case (Cons m ms)
  have "set (finish_names conf n m) = (case m of None \<Rightarrow> {} | Some ks \<Rightarrow> set ks)"
    using assms by (cases m) (simp_all add: finish_names_def)
  then show ?case using Cons by simp
qed simp

text \<open>Options that leave the names alone: no marks, no real paths, no repetitions, no literal globs.\<close>

definition plain_finish :: "glob_conf \<Rightarrow> bool" where
  "plain_finish conf \<longleftrightarrow> \<not> opt (g_flags conf) ''realpath'' \<and> \<not> opt (g_flags conf) ''nonull'' \<and>
     \<not> opt (g_flags conf) ''nounique''"

lemma finish_sync_ok:
  assumes "plain_conf conf" and "plain_finish conf"
  shows "\<exists>found. finish_sync U collate F conf st = Inr (st, found) \<and> distinct found \<and>
    set found = (\<Union>i < length (g_matches st). found_names i st)"
proof -
  define all where "all = finish_collect conf (g_matches st)"
  have all: "distinct all" "set all = (\<Union>i < length (g_matches st). found_names i st)"
  proof -
    show "distinct all"
      using assms(2) by (simp add: all_def finish_collect_def plain_finish_def distinct_add_keys Let_def)
    have "set all = (\<Union>found \<in> set (g_matches st). case found of None \<Rightarrow> {} | Some ks \<Rightarrow> set ks)"
      using assms(2) concat_finish_names [of conf 0 "g_matches st"]
      by (simp add: all_def finish_collect_def plain_finish_def set_add_keys Let_def)
    then show "set all = (\<Union>i < length (g_matches st). found_names i st)"
      using UN_nth [of "\<lambda>found. case found of None \<Rightarrow> {} | Some ks \<Rightarrow> set ks" "g_matches st"]
      by (simp add: found_names_def)
  qed
  define cmp where "cmp = (if opt (g_flags conf) ''nocase'' then alphasorti U collate else alphasort collate)"
  define found where "found = (if opt (g_flags conf) ''nosort'' then all else js_sort cmp all)"
  have "finish U collate conf st = (st, found)"
    using assms(1) by (simp add: finish_def plain_conf_def isIgnored_def found_def all_def cmp_def Let_def)
  then have "finish_sync U collate F conf st = Inr (st, found)"
    using assms(2) by (simp add: finish_sync_def plain_finish_def)
  then show ?thesis using all by (auto simp: found_def)
qed

lemma globSync_ok:
  assumes fs: "tree_ok T" "reports F T" "bounded T height" and pat: "pat \<noteq> []"
    and opts: "setopts R pat options = Some (Inr (conf, st))" "plain_conf conf" "plain_finish conf"
      "\<not> opt (g_flags conf) ''noprocess''" "caches_ok T st"
    and parts: "list_all (list_all (part_ok conf)) (mm_set (g_minimatch conf))"
  shows "\<exists>found. globSync U R collate F pat options = Some (Inr (Some found)) \<and> distinct found \<and>
    set found = (\<Union>ps \<in> set (mm_set (g_minimatch conf)). names_of U conf T ps)"
proof -
  let ?pats = "mm_set (g_minimatch conf)"
  let ?st = "st\<lparr>g_matches := replicate (length ?pats) None\<rparr>"
  obtain st' where st': "process_set U F conf 0 ?pats ?st = Some (Inr st')" "length (g_matches st') = length ?pats"
      "\<forall>j < length ?pats. found_names j st' = found_names j ?st \<union> names_of U conf T (?pats ! j)"
    using process_set_ok [OF fs(1,2) opts(2) fs(3) parts, where st = ?st and i = 0 and U = U] opts(5) by auto
  obtain found where found: "finish_sync U collate F conf st' = Inr (st', found)" "distinct found"
      "set found = (\<Union>i < length (g_matches st'). found_names i st')"
    using finish_sync_ok [OF opts(2,3), of U collate F st'] by blast
  have "found_names j st' = names_of U conf T (?pats ! j)" if "j < length ?pats" for j
    using st'(3) that by (simp add: found_names_def)
  then have "set found = (\<Union>ps \<in> set ?pats. names_of U conf T ps)"
    using found(3) st'(2) UN_nth [of "names_of U conf T" ?pats] by simp
  moreover have "globSync U R collate F pat options = Some (Inr (Some found))"
    using pat opts st'(1) found(1) by (simp add: globSync_def rbind_def)
  ultimately show ?thesis using found(2) by blast
qed

section \<open>Default options\<close>

definition glob_default :: "glob_options \<Rightarrow> glob_call" where
  "glob_default flags =
     \<lparr>go_flags = flags, go_ignore = [], go_cwd = None, go_root = None, go_maxLength = None,
      go_cache = Map.empty, go_statCache = Map.empty, go_symlinks = Map.empty\<rparr>"

definition glob_flags :: "glob_options \<Rightarrow> glob_options" where
  "glob_flags flags = set_option (''nocomment'', map_of flags ''nocomment'' \<noteq> Some False)
     (set_option (''nonegate'', map_of flags ''nonegate'' \<noteq> Some False) flags)"

lemma opt_set_option: "opt (set_option (k, v) flags) k' = (if k' = k then v else opt flags k')"
  by (auto simp: opt_def set_option_def update_conv)

lemma opt_glob_flags: "k \<noteq> ''nocomment'' \<Longrightarrow> k \<noteq> ''nonegate'' \<Longrightarrow> opt (glob_flags flags) k = opt flags k"
  by (simp add: glob_flags_def opt_set_option)

lemma resolve_root: "resolve [Some [47]] = Inr [47]" "resolve [Some [47], Some [47]] = Inr [47]"
  using resolve_cd [of "[[47]]"] resolve_cd [of "[[47], [47]]"] path_parts_slash [of "[]"] walk_names [of "[]"]
  by (simp_all add: cd_def isAbsolute_def js_charAt_def)

lemma setopts_default:
  assumes "\<not> opt flags ''matchBase''" and "new_Minimatch R pat (glob_flags flags) = Some (Inr mm)"
  shows "\<exists>conf st. setopts R pat (glob_default flags) = Some (Inr (conf, st)) \<and> g_minimatch conf = mm \<and> g_flags conf = glob_flags flags \<and>
    g_root conf = [47] \<and> g_mark conf = (opt flags ''nodir'' \<or> opt flags ''mark'') \<and> g_ignore conf = [] \<and> g_maxLength conf = None \<and>
    \<not> g_changedCwd conf \<and> caches_ok T st"
proof -
  have "map_of (set_option (''nonegate'', v) flags) ''nocomment'' = map_of flags ''nocomment''" for v
    by (simp add: set_option_def update_conv)
  then show ?thesis
    using assms
    by (simp add: setopts_def glob_default_def rbind_def process_cwd_def resolve_root path_of_def Let_def
        opt_glob_flags caches_ok_def glob_flags_def [symmetric])
qed

section \<open>A file system made of a tree\<close>

definition tree_fs :: "tree \<Rightarrow> file_system" where
  "tree_fs T =
     (let none = \<lparr>er_code = ''ENOENT'', er_syscall = ''stat''\<rparr>; no_dir = \<lparr>er_code = ''ENOTDIR'', er_syscall = ''scandir''\<rparr>;
          info = (\<lambda>p. if p = [] then Inl none
                       else case T (path_parts p) of
                              None \<Rightarrow> Inl none
                            | Some File \<Rightarrow> Inr \<lparr>isDirectory = False, isSymbolicLink = False\<rparr>
                            | Some (Dir es) \<Rightarrow> Inr \<lparr>isDirectory = True, isSymbolicLink = False\<rparr>)
      in \<lparr>lstatSync = info, statSync = info,
          readdirSync = (\<lambda>p. case T (path_parts p) of None \<Rightarrow> Inl none | Some File \<Rightarrow> Inl no_dir | Some (Dir es) \<Rightarrow> Inr es),
          realpathSync = (\<lambda>p. Inr p)\<rparr>)"

lemma reports_tree_fs: "reports (tree_fs T) T"
  by (auto simp: reports_def reports_node_def tree_fs_def path_parts_abs Let_def split: option.split node.split)


section \<open>Properties\<close>





end
