(* ===== verification/Glob_Patterns.thy ===== *)
theory Glob_Patterns
  imports Glob_Tree
begin

text \<open>
  The search and \<open>minimatch\<close>: for patterns whose parts are one segment each and that do not end in
  a globstar, the paths that a pattern reaches are the existing paths that it matches
  (\<open>names_of_walk\<close>). For patterns of ordinary units, question marks, stars and globstars the search
  with default options finds exactly the existing paths that \<open>minimatch\<close> accepts
  (\<open>globSync_simple\<close>). A pattern that ends in a globstar also finds the directories the globstar
  starts from, which \<open>minimatch\<close> does not accept.
\<close>


section \<open>Reached paths and matched paths\<close>

lemma tree_prefix:
  assumes "tree_ok T"
  shows "T (p @ e # q) \<noteq> None \<Longrightarrow> \<exists>es. T p = Some (Dir es) \<and> e \<in> set es"
proof (induction q rule: rev_induct)
  case Nil
  then show ?case using assms by (auto simp: tree_ok_def)
next
  case (snoc x q)
  have "T ((p @ e # q) @ [x]) \<noteq> None" using snoc.prems by simp
  then have "T (p @ e # q) \<noteq> None" using assms unfolding tree_ok_def by (metis option.distinct(1))
  then show ?case by (rule snoc.IH)
qed

lemma tree_names:
  assumes "tree_ok T" and "T (p @ q) \<noteq> None"
  shows "list_all proper_name q"
proof -
  have "proper_name x" if x: "x \<in> set q" for x
  proof -
    obtain a b where "q = a @ x # b" using split_list [OF x] by blast
    then obtain es where "T (p @ a) = Some (Dir es)" "x \<in> set es"
      using tree_prefix [OF assms(1), of "p @ a" x b] assms(2) by auto
    then show ?thesis using assms(1) by (auto simp: tree_ok_def list_all_iff)
  qed
  then show ?thesis by (simp add: list_all_iff)
qed

text \<open>Parts of one segment each.\<close>

fun one_segment :: "glob_part \<Rightarrow> bool" where
  "one_segment (Literal s) = proper_name s"
| "one_segment Unusable = False"
| "one_segment _ = True"

fun step_hit :: "unicode \<Rightarrow> glob_conf \<Rightarrow> glob_part \<Rightarrow> jsstr \<Rightarrow> bool" where
  "step_hit U conf (Literal s) f = (f = s)"
| "step_hit U conf p f = hit U conf p f"

abbreviation walk_match :: "unicode \<Rightarrow> glob_conf \<Rightarrow> glob_part list \<Rightarrow> jsstr list \<Rightarrow> bool" where
  "walk_match U conf \<equiv> segs_match is_globstar (step_hit U conf) (\<lambda>f. \<not> visible conf f)"

definition ends_plain :: "glob_part list \<Rightarrow> bool" where
  "ends_plain ps \<longleftrightarrow> ps = [] \<or> last ps \<noteq> Globstar"

lemma ends_plain_tl: "ends_plain (p # ps) \<Longrightarrow> ends_plain ps"
  by (auto simp: ends_plain_def)

lemma reaches_walk:
  "reaches U conf T pre ps r \<Longrightarrow> list_all one_segment ps \<Longrightarrow> ends_plain ps \<Longrightarrow>
   r \<noteq> [] \<and> T (base conf @ r) \<noteq> None \<and> (\<exists>fs. r = pre @ fs \<and> walk_match U conf ps fs)"
proof (induction rule: reaches.induct)
  case (reaches_end pre)
  then show ?case by (auto intro: segs_end)
next
  case (reaches_literal pre s ps r)
  then have s: "path_parts s = [s]" by (simp add: path_parts_segment proper_segment)
  then obtain fs where "r = (pre @ [s]) @ fs" "walk_match U conf ps fs" "r \<noteq> []" "T (base conf @ r) \<noteq> None"
    using reaches_literal.IH ends_plain_tl [OF reaches_literal.prems(2)] reaches_literal.prems(1)
    unfolding s list.pred_inject by blast
  then have fs: "r = pre @ s # fs" "walk_match U conf ps fs" "r \<noteq> []" "T (base conf @ r) \<noteq> None" by simp_all
  then have "walk_match U conf (Literal s # ps) (s # fs)" by (simp add: segs_match_one)
  then show ?case using fs by blast
next
  case (reaches_magic pre es e p ps r)
  then have p: "\<not> is_globstar p" "step_hit U conf p e" by (cases p; simp)+
  obtain fs where "r = (pre @ [e]) @ fs" "walk_match U conf ps fs" "r \<noteq> []" "T (base conf @ r) \<noteq> None"
    using reaches_magic.IH ends_plain_tl [OF reaches_magic.prems(2)] reaches_magic.prems(1)
    unfolding list.pred_inject by blast
  then have fs: "r = pre @ e # fs" "walk_match U conf ps fs" "r \<noteq> []" "T (base conf @ r) \<noteq> None" by simp_all
  then have "walk_match U conf (p # ps) (e # fs)" using p by (simp add: segs_match_one)
  then show ?case using fs by blast
next
  case (reaches_none pre es ps r)
  then have ps: "ps \<noteq> []" by (auto simp: ends_plain_def)
  obtain fs where fs: "r = pre @ fs" "walk_match U conf ps fs" "r \<noteq> []" "T (base conf @ r) \<noteq> None"
    using reaches_none.IH ends_plain_tl [OF reaches_none.prems(2)] reaches_none.prems(1)
    unfolding list.pred_inject by blast
  then have "walk_match U conf (Globstar # ps) ([] @ fs)" using ps by (intro segs_skip) simp_all
  then show ?case using fs by auto
next
  case (reaches_one pre es e ps r)
  then have ps: "ps \<noteq> []" by (auto simp: ends_plain_def)
  obtain fs where "r = (pre @ [e]) @ fs" "walk_match U conf ps fs" "r \<noteq> []" "T (base conf @ r) \<noteq> None"
    using reaches_one.IH ends_plain_tl [OF reaches_one.prems(2)] reaches_one.prems(1)
    unfolding list.pred_inject by blast
  then have fs: "r = pre @ e # fs" "walk_match U conf ps fs" "r \<noteq> []" "T (base conf @ r) \<noteq> None" by simp_all
  then have "walk_match U conf (Globstar # ps) ([e] @ fs)" using ps reaches_one(3) by (intro segs_skip) simp_all
  then show ?case using fs by auto
next
  case (reaches_more pre es e ps r)
  then have ps: "ps \<noteq> []" by (auto simp: ends_plain_def)
  obtain fs where fs: "r = pre @ e # fs" "walk_match U conf (Globstar # ps) fs" "r \<noteq> []" "T (base conf @ r) \<noteq> None"
    using reaches_more by auto
  then obtain gs hs where gs: "fs = gs @ hs" "\<forall>f \<in> set gs. visible conf f" "walk_match U conf ps hs"
    using segs_match_skip [of is_globstar Globstar ps] ps by auto
  then have "walk_match U conf (Globstar # ps) ((e # gs) @ hs)" using ps reaches_more(3) by (intro segs_skip) simp_all
  then show ?case using fs gs(1) by auto
qed

lemma skip_reaches:
  assumes "tree_ok T" and "fs \<noteq> []"
    and "\<And>pre. T (base conf @ pre @ fs) \<noteq> None \<Longrightarrow> reaches U conf T pre ps (pre @ fs)"
  shows "\<forall>f \<in> set gs. visible conf f \<Longrightarrow> T (base conf @ pre @ gs @ fs) \<noteq> None \<Longrightarrow>
    reaches U conf T pre (Globstar # ps) (pre @ gs @ fs)"
proof (induction gs arbitrary: pre)
  case Nil
  obtain f fs' where "fs = f # fs'" using assms(2) by (cases fs) auto
  then obtain es where "T (base conf @ pre) = Some (Dir es)"
    using tree_prefix [OF assms(1), of "base conf @ pre" f fs'] Nil.prems(2) by auto
  then show ?case using assms(3) [of pre] Nil.prems(2) by (auto intro: reaches_none)
next
  case (Cons g gs)
  obtain es where "T (base conf @ pre) = Some (Dir es)" "g \<in> set es"
    using tree_prefix [OF assms(1), of "base conf @ pre" g "gs @ fs"] Cons.prems(2) by auto
  moreover have "reaches U conf T (pre @ [g]) (Globstar # ps) ((pre @ [g]) @ gs @ fs)"
    by (rule Cons.IH) (use Cons.prems in auto)
  ultimately show ?case using Cons.prems(1) by (auto intro: reaches_more)
qed

lemma walk_reaches:
  assumes T: "tree_ok T"
  shows "walk_match U conf ps fs \<Longrightarrow> list_all one_segment ps \<Longrightarrow> ends_plain ps \<Longrightarrow> pre @ fs \<noteq> [] \<Longrightarrow>
    T (base conf @ pre @ fs) \<noteq> None \<Longrightarrow> reaches U conf T pre ps (pre @ fs)"
proof (induction arbitrary: pre rule: segs_match.induct)
  case segs_end
  then show ?case by (auto intro: reaches_end)
next
  case segs_slash
  then show ?case using tree_names [OF T, of "base conf @ pre" "[[]]"] by (simp add: proper_name_def)
next
  case (segs_one p f ps fs)
  have ends: "ends_plain ps" using segs_one.prems(2) by (auto simp: ends_plain_def)
  obtain es where es: "T (base conf @ pre) = Some (Dir es)" "f \<in> set es"
    using tree_prefix [OF T, of "base conf @ pre" f fs] segs_one.prems(4) by auto
  have "reaches U conf T (pre @ [f]) ps ((pre @ [f]) @ fs)"
    by (rule segs_one.IH) (use segs_one.prems ends in auto)
  then show ?case
    using segs_one.hyps(1,2) segs_one.prems(1) es
    by (cases p) (auto simp: path_parts_segment proper_segment intro: reaches_magic)
next
  case (segs_rest p fs)
  then show ?case by (cases p) (auto simp: ends_plain_def)
next
  case (segs_skip p ps gs fs)
  have p: "p = Globstar" using segs_skip.hyps(1) by (cases p) auto
  have ends: "ends_plain ps" using segs_skip.prems(2) segs_skip.hyps(2) by (auto simp: ends_plain_def)
  have fs: "fs \<noteq> []" using segs_skip.hyps(2,4) segs_match_Nil_file by blast
  have "reaches U conf T q ps (q @ fs)" if "T (base conf @ q @ fs) \<noteq> None" for q
    by (rule segs_skip.IH) (use that segs_skip.prems(1) ends fs in auto)
  then show ?case
    unfolding p using skip_reaches [OF T fs, of conf U ps gs pre] segs_skip.hyps(3) segs_skip.prems(4) by simp
qed

lemma names_of_walk:
  assumes "tree_ok T" and "list_all one_segment ps" and "ends_plain ps"
  shows "names_of U conf T ps = {js_join [47] r | r. r \<noteq> [] \<and> T (base conf @ r) \<noteq> None \<and> walk_match U conf ps r}"
  using reaches_walk [OF _ assms(2,3), where pre = "[]"] walk_reaches [OF assms(1) _ assms(2,3), where pre = "[]"]
  by (auto simp: names_of_def) (metis append_Nil)+


section \<open>Simple patterns\<close>

lemma segs_match_dot_cong:
  "segs_match star_part h hidden ps fs \<Longrightarrow> \<forall>f \<in> set fs. hidden f = hidden' f \<Longrightarrow> segs_match star_part h hidden' ps fs"
  by (induction rule: segs_match.induct) (auto intro: segs_match.intros)

fun seg_proper :: "glob_seg \<Rightarrow> bool" where
  "seg_proper SAny = True"
| "seg_proper (SUnits us) = (list_ex unit_magic us \<or> proper_name (units_text us))"

lemma units_accept_first: "units_accept (GLit c # us) f \<Longrightarrow> js_charAt f 0 = [c]"
  by (cases f) (auto simp: js_charAt_def)

lemma step_hit_seg:
  assumes "g_flags conf = options" and "\<not> opt options ''nocase''" and "47 \<notin> set f" and "f \<noteq> []" and "s \<noteq> SAny" and "seg_ok s"
  shows "step_hit U conf (seg_part options s) f = seg_accepts options s f"
proof -
  obtain us where us: "s = SUnits us" "us \<noteq> []" using assms(5,6) by (cases s) auto
  have "dot_ok conf (seg_part options s) = Inr True" if "list_ex unit_magic us" "dot_rule options us f" "units_accept us f" "js_charAt f 0 = [46]"
  proof (cases "unit_magic (hd us)")
    case True
    then show ?thesis
      using that assms(1,4) us by (cases f) (auto simp: dot_rule_def dot_ok_def js_charAt_def split: if_split_asm)
  next
    case False
    then obtain c us' where "us = GLit c # us'" using us(2) by (cases us; cases "hd us") auto
    then show ?thesis
      using that us(1) units_accept_first [of c us' f] by (simp add: seg_part_def dot_ok_def js_charAt_def)
  qed
  then show ?thesis
    using us simple_re_language [OF assms(3), of options us] assms(4)
    by (auto simp: seg_part_def hit_def entry_match_def canon_of_def)
qed

lemma walk_segs:
  assumes "g_flags conf = options" and "\<not> opt options ''nocase''" and "list_all proper_name r" and "list_all seg_ok segs"
  shows "walk_match U conf (map (seg_part options) segs) r = path_accepts options segs r"
proof -
  have dots: "\<forall>f \<in> set r. (\<not> visible conf f) = dotted options f"
    using assms(1,3) by (auto simp: visible_def dotted_def list_all_iff proper_name_def)
  have "walk_match U conf (map (seg_part options) segs) r =
      segs_match is_globstar (step_hit U conf) (dotted options) (map (seg_part options) segs) r"
    using dots segs_match_dot_cong by (metis (mono_tags, lifting))
  also have "\<dots> = segs_match (\<lambda>s. s = SAny) (seg_accepts options) (dotted options) segs r"
  proof (rule segs_match_related [of _ _ "set r"])
    have "step_hit U conf (seg_part options s) f = seg_accepts options s f" if "f \<in> set r" "seg_ok s" for f s
    proof (cases "s = SAny")
      case False
      then show ?thesis
        using step_hit_seg [OF assms(1,2), of f s] that assms(3) by (auto simp: list_all_iff proper_name_def)
    qed (simp add: seg_part_def)
    then show "list_all2 (\<lambda>p q. is_globstar p = (q = SAny) \<and> (\<forall>f \<in> set r. step_hit U conf p f = seg_accepts options q f))
        (map (seg_part options) segs) segs"
      using assms(4) by (auto simp: list_all2_map1 list_all2_same seg_part_globstar list_all_iff)
  qed simp
  finally show ?thesis by (simp add: path_accepts_def)
qed

lemma slash_split_names: "list_all proper_name r \<Longrightarrow> r \<noteq> [] \<Longrightarrow> slash_split (js_join [47] r) = r"
  unfolding slash_split_runs by (rule js_split_runs_join) (auto simp: list_all_iff proper_name_def)

lemma seg_part_ok:
  assumes "seg_ok s" and "seg_proper s"
  shows "part_ok conf (seg_part options s)" and "one_segment (seg_part options s)"
  using assms path_parts_segment [of "seg_text s"]
  by (cases s; auto simp: seg_part_def proper_name_def clean_segment_def)+


lemma globSync_simple:
  assumes fs: "tree_ok T" "reports F T" "bounded T height"
    and segs: "segs \<noteq> []" "list_all seg_ok segs" "list_all seg_proper segs" "last segs \<noteq> SAny"
    and flags: "\<forall>k \<in> {''matchBase'', ''nocase'', ''noglobstar'', ''nodir'', ''mark'', ''stat'', ''noprocess'', ''realpath'',
      ''nonull'', ''nounique''}. \<not> opt flags k"
    and pat: "js_trim (pattern_text segs) = pattern_text segs" "hd (pattern_text segs) \<noteq> 35" "123 \<notin> set (pattern_text segs)"
  shows "\<exists>found. globSync U R collate F (pattern_text segs) (glob_default flags) = Some (Inr (Some found)) \<and> distinct found \<and>
    set found = {js_join [47] r | r. r \<noteq> [] \<and> T r \<noteq> None \<and> path_accepts (glob_flags flags) segs r}"
proof -
  let ?flags = "glob_flags flags"
  have opts: "\<not> opt ?flags ''nocase''" "\<not> opt ?flags ''noglobstar''" "\<not> opt flags ''matchBase''"
    using flags by (simp_all add: opt_glob_flags)
  have mm: "new_Minimatch R (pattern_text segs) ?flags =
      Some (Inr \<lparr>mm_options = ?flags, mm_set = [map (seg_part ?flags) segs], mm_globSet = [pattern_text segs],
        mm_pattern = pattern_text segs, mm_negate = False, mm_comment = False, mm_empty = False\<rparr>)" (is "_ = Some (Inr ?mm)")
    by (rule new_Minimatch_pattern [OF segs(1,2) opts(1,2) pat])
  obtain conf st where conf: "setopts R (pattern_text segs) (glob_default flags) = Some (Inr (conf, st))" "g_minimatch conf = ?mm"
      "g_flags conf = ?flags" "g_root conf = [47]" "g_mark conf = (opt flags ''nodir'' \<or> opt flags ''mark'')"
      "g_ignore conf = []" "g_maxLength conf = None" "\<not> g_changedCwd conf" "caches_ok T st"
    using setopts_default [OF opts(3) mm] by blast
  have plain: "plain_conf conf" "plain_finish conf" "\<not> opt (g_flags conf) ''noprocess''"
    using conf(2-7) flags by (simp_all add: plain_conf_def plain_finish_def opt_glob_flags)
  have parts: "list_all (part_ok conf) (map (seg_part ?flags) segs)" "list_all one_segment (map (seg_part ?flags) segs)"
    using segs(2,3) seg_part_ok by (auto simp: list_all_iff)
  have ends: "ends_plain (map (seg_part ?flags) segs)"
    using segs(1,4) seg_part_globstar [of ?flags "last segs"] by (auto simp: ends_plain_def last_map)
  have "names_of U conf T (map (seg_part ?flags) segs) =
      {js_join [47] r | r. r \<noteq> [] \<and> T r \<noteq> None \<and> path_accepts ?flags segs r}"
    using names_of_walk [OF fs(1) parts(2) ends, of U conf] conf(8) tree_names [OF fs(1), of "[]"]
      walk_segs [OF conf(3) opts(1) _ segs(2), of _ U] by (auto simp: base_def)
  moreover have "pattern_text segs \<noteq> []" using pattern_text_first [OF segs(1,2)] by simp
  moreover have "mm_set (g_minimatch conf) = [map (seg_part ?flags) segs]" using conf(2) by simp
  ultimately show ?thesis
    using globSync_ok [OF fs _ conf(1) plain conf(9), of U collate] parts(1) by simp
qed

lemma path_accepts_flags: "path_accepts (glob_flags flags) segs r = path_accepts flags segs r"
proof -
  have "seg_accepts (glob_flags flags) = seg_accepts flags"
  proof (intro ext)
    show "seg_accepts (glob_flags flags) s f = seg_accepts flags s f" for s f
      by (cases s) (simp_all add: dot_rule_def opt_glob_flags)
  qed
  moreover have "dotted (glob_flags flags) = dotted flags" by (intro ext) (simp add: dotted_def opt_glob_flags)
  ultimately show ?thesis by (simp add: path_accepts_def)
qed

section \<open>Surprises\<close>

text \<open>
  Reading a path below a regular file reports \<open>ENOTDIR\<close>, which the module takes for "it exists, as a
  file". A later question whether the path exists is then answered from the cache with yes.
\<close>

lemma glob_phantom:
  assumes "plain_conf conf" and "list_all proper_name ps" and "ps \<noteq> []" and "g_cache st (abs_path (base conf @ ps)) = None"
    and "readdirSync F (abs_path (base conf @ ps)) = Inl er" and "er_code er = ''ENOTDIR''"
  shows "snd (stat F conf (js_join [47] ps) (fst (readdir F conf (abs_path (base conf @ ps)) False st))) = CFile"
  using assms makeAbs_names [OF assms(2,3)] makeAbs_abs [of conf "base conf @ ps"] join_no_slash_end [OF assms(2)]
  by (simp add: readdir_def readdir_plain_def readdirError_def stat_def plain_conf_def Let_def)

text \<open>
  Reading a symbolic link to nowhere reports \<open>ENOENT\<close>; afterwards the link itself is not found any
  more, while it is found when it is asked for first.
\<close>

lemma glob_hides_link:
  assumes "plain_conf conf" and "list_all proper_name ps" and "ps \<noteq> []" and "g_cache st (abs_path (base conf @ ps)) = None"
    and "g_statCache st (abs_path (base conf @ ps)) = None"
    and "readdirSync F (abs_path (base conf @ ps)) = Inl er" and "er_code er = ''ENOENT''"
    and "lstatSync F (abs_path (base conf @ ps)) = Inr \<lparr>isDirectory = False, isSymbolicLink = True\<rparr>"
    and "statSync F (abs_path (base conf @ ps)) = Inl er"
  shows "snd (stat F conf (js_join [47] ps) st) = CFile"
    and "snd (stat F conf (js_join [47] ps) (fst (readdir F conf (abs_path (base conf @ ps)) False st))) = CFalse"
  using assms makeAbs_names [OF assms(2,3)] makeAbs_abs [of conf "base conf @ ps"] join_no_slash_end [OF assms(2)]
  by (simp_all add: readdir_def readdir_plain_def readdirError_def stat_def stat_uncached_def plain_conf_def Let_def)

section \<open>Errors\<close>

text \<open>Parts whose \<open>_glob\<close> can be asked for its first unit.\<close>

fun part_known :: "glob_conf \<Rightarrow> glob_part \<Rightarrow> bool" where
  "part_known conf (Magic r i texts) = (opt (g_flags conf) ''dot'' \<or> texts \<noteq> None)"
| "part_known conf Unusable = False"
| "part_known conf _ = True"

fun task_known :: "glob_conf \<Rightarrow> task \<Rightarrow> bool" where
  "task_known conf (Process pat b) = list_all (part_known conf) pat"
| "task_known conf (GlobStarLoop prefix ab entries remain b) = list_all (part_known conf) remain"

lemma readdirError_lenient: "\<not> g_strict conf \<Longrightarrow> \<exists>st'. readdirError conf f er st = (st', Inr ())"
  by (auto simp: readdirError_def Let_def)

lemma readdir_lenient:
  assumes "\<not> g_strict conf"
  shows "\<exists>st' es. readdir F conf ab b st = (st', Inr es)"
proof -
  have plain: "\<exists>st' es. readdir_plain F conf ab st = (st', Inr es)" for st
  proof -
    have "\<exists>st' es. (case readdirSync F ab of Inr es \<Rightarrow> (readdirEntries conf ab es st, Inr (Some es))
        | Inl er \<Rightarrow> let (st, r) = readdirError conf ab er st in (st, ebind r (\<lambda>_. Inr None))) = (st', Inr es)"
      using readdirError_lenient [OF assms, of ab _ st] by (cases "readdirSync F ab") (auto, metis case_prod_conv ebind_simps(2))
    then show ?thesis by (auto simp: readdir_plain_def split: option.split cache_entry.split)
  qed
  then show ?thesis
    by (auto simp: readdir_def readdirInGlobStar_def Let_def split: sum.split)
qed

lemma prefix_parts_known: "list_all (part_known conf) (prefix_parts prefix)"
  by (auto simp: prefix_parts_def split: option.split)

lemma known_dot_ok: "part_known conf p \<Longrightarrow> \<not> is_literal p \<Longrightarrow> p \<noteq> Globstar \<Longrightarrow> \<exists>b. dot_ok conf p = Inr b"
  by (cases p) (auto simp: dot_ok_def split: option.split)

lemma processReaddir_lenient:
  assumes "\<not> g_strict conf" and "list_all (part_known conf) (p # ps)" and "\<not> is_literal p" and "p \<noteq> Globstar"
  shows "\<exists>st' new. processReaddir U F conf index prefix ab (p # ps) b st = Inr (st', new) \<and> list_all (task_known conf) new"
proof -
  obtain st1 es where st1: "readdir F conf ab b st = (st1, Inr es)" using readdir_lenient [OF assms(1)] by blast
  obtain d where d: "dot_ok conf p = Inr d" using known_dot_ok [of conf p] assms(2-4) by auto
  show ?thesis
    using st1 d assms(2) prefix_parts_known [of conf prefix]
    by (cases es) (auto simp: processReaddir_def Let_def list_all_iff)
qed

lemma do_task_lenient:
  assumes "\<not> g_strict conf" and "task_known conf t"
  shows "\<exists>st' new. do_task U F conf index t st = Inr (st', new) \<and> list_all (task_known conf) new"
proof (cases t)
  case (GlobStarLoop prefix ab entries remain b)
  then show ?thesis
    using assms(2) prefix_parts_known [of conf prefix]
    by (cases remain) (auto simp: globstar_loop_def list_all_iff)
next
  case (Process pat b)
  let ?n = "length (literal_prefix pat)"
  show ?thesis
  proof (cases "?n = length pat \<or> childrenIgnored U conf (snd (read_prefix pat))")
    case True
    then show ?thesis using Process by (auto simp: process_def split_def Let_def)
  next
    case False
    then obtain p ps where p: "drop ?n pat = p # ps" "\<not> is_literal p" using first_magic [of pat] by blast
    have known: "list_all (part_known conf) (p # ps)"
      using assms(2) Process p(1) by (metis append_take_drop_id list_all_append task_known.simps(1))
    obtain prefix read where pr: "read_prefix pat = (prefix, read)" by (cases "read_prefix pat")
    obtain st1 es where st1: "readdir F conf (makeAbs conf read) b st = (st1, Inr es)"
      using readdir_lenient [OF assms(1)] by blast
    show ?thesis
    proof (cases "p = Globstar")
      case True
      then show ?thesis
        using False Process p(1) pr st1 known prefix_parts_known [of conf prefix]
        by (cases es) (auto simp: process_def processGlobStar_def Let_def)
    next
      case np: False
      then show ?thesis
        using False Process p pr processReaddir_lenient [OF assms(1) known p(2) np] by (simp add: process_def Let_def)
    qed
  qed
qed

lemma run_tasks_lenient:
  assumes "run_tasks U F conf index tasks st = Some r" and "\<not> g_strict conf" and "list_all (task_known conf) tasks"
  shows "\<exists>st'. r = Inr st'"
proof -
  have "\<not> g_strict conf \<longrightarrow> list_all (task_known conf) tasks \<longrightarrow> (\<exists>st'. r = Inr st')"
    using assms(1)
  proof (rule run_tasks.raw_induct [where P = "\<lambda>U F conf index tasks st r.
      \<not> g_strict conf \<longrightarrow> list_all (task_known conf) tasks \<longrightarrow> (\<exists>st'. r = Inr st')", rotated], intro impI)
    fix run U F conf index tasks st and r :: "js_error + glob_caches"
    assume IH: "\<And>U F conf index tasks st r. run U F conf index tasks st = Some r \<Longrightarrow>
        \<not> g_strict conf \<longrightarrow> list_all (task_known conf) tasks \<longrightarrow> (\<exists>st'. r = Inr st')"
      and step: "(case tasks of [] \<Rightarrow> Some (Inr st)
        | t # ts \<Rightarrow> (case do_task U F conf index t st of Inl e \<Rightarrow> Some (Inl e)
           | Inr (st, new) \<Rightarrow> run U F conf index (new @ ts) st)) = Some r"
      and ok: "\<not> g_strict conf" "list_all (task_known conf) tasks"
    show "\<exists>st'. r = Inr st'"
    proof (cases tasks)
      case (Cons t ts)
      then obtain st1 new where "do_task U F conf index t st = Inr (st1, new)" "list_all (task_known conf) new"
        using do_task_lenient [OF ok(1)] ok(2) by fastforce
      then show ?thesis using step IH [of U F conf index "new @ ts" st1 r] ok Cons by simp
    qed (use step in auto)
  qed
  then show ?thesis using assms(2,3) by blast
qed


lemma run_task_alone: "do_task U F conf index t st = Inr (st', []) \<Longrightarrow> run_tasks U F conf index [t] st = Some (Inr st')"
  by (simp add: run_tasks.simps [of _ _ _ _ "[t]"] run_tasks.simps [of _ _ _ _ "[]"])

section \<open>Properties\<close>



end
