(* ===== verification/Event_Emitter.thy ===== *)
theory Event_Emitter
  imports Main "HOL-Library.AList"
begin

text \<open>
  The module \<open>events\<close> of \<open>wordcut.js\<close> (lines 1261 to 1562): the \<open>EventEmitter\<close>.

  \<^item> The own properties of \<open>_events\<close> are an association list in insertion order. A value is a
    single function or an array of functions; arrays live in a store, because \<open>emit\<close> and
    \<open>removeAllListeners\<close> hold a reference to one while listeners run. A name that is not an
    own property is looked up in \<open>Object.prototype\<close>, as \<open>_events\<close> is a plain object.
  \<^item> A function is a \<open>User\<close> function, a \<open>Builtin\<close> of \<open>Object.prototype\<close> or the wrapper
    \<open>OnceWrap\<close> made by \<open>once\<close>, whose \<open>listener\<close> property is the wrapped function. What a
    user function does when it is called is a parameter \<open>user\<close>, any transformation of the
    emitter, which includes calls of the emitter's own methods.
  \<^item> A result is the state after the call with either an exception or a value; \<open>None\<close> is a
    call that does not return. A wrapper of \<open>once\<close> calls \<open>removeListener\<close>, which emits, which
    calls wrappers again: \<open>call_fn n\<close> bounds the depth of this nesting by \<open>n\<close>.

  Event names that are array indices (which JavaScript enumerates first) and \<open>__proto__\<close> are
  not modelled.
\<close>

section \<open>State\<close>

datatype fn =
    User nat
  | Builtin string
  | OnceWrap nat

datatype handler = One fn | Arr nat

record listener_array =
  items :: "fn list"
  warned :: bool

datatype "value" =
    VString string
  | VFn fn
  | VError nat
  | VOther nat

datatype event_error =
    EThrow "value"
  | ETypeError string

record emitter =
  events :: "(string \<times> handler) list option"
  maxListeners :: "int option"
  arrays :: "nat \<Rightarrow> listener_array"
  next_array :: nat
  closures :: "nat \<Rightarrow> string \<times> fn"
  next_closure :: nat
  fired :: "nat list"
  warnings :: "nat list"

type_synonym 'a result = "(emitter \<times> (event_error + 'a)) option"
type_synonym caller = "fn \<Rightarrow> value list \<Rightarrow> emitter \<Rightarrow> unit result"

definition ret :: "emitter \<Rightarrow> 'a \<Rightarrow> 'a result" where
  "ret st x = Some (st, Inr x)"

definition throw :: "emitter \<Rightarrow> event_error \<Rightarrow> 'a result" where
  "throw st e = Some (st, Inl e)"

definition andThen :: "'a result \<Rightarrow> (emitter \<Rightarrow> 'a \<Rightarrow> 'b result) \<Rightarrow> 'b result" where
  "andThen r f = Option.bind r (\<lambda>(st, x). case x of Inl e \<Rightarrow> Some (st, Inl e) | Inr a \<Rightarrow> f st a)"

lemma andThen_simps [simp]:
  "andThen (ret st a) f = f st a"
  "andThen (throw st e) f = throw st e"
  "andThen None f = None"
  by (simp_all add: andThen_def ret_def throw_def)

lemma result_inject [simp]:
  "ret st a = ret st' a' \<longleftrightarrow> st = st' \<and> a = a'"
  "throw st e = throw st' e' \<longleftrightarrow> st = st' \<and> e = e'"
  "ret st a \<noteq> throw st' e" "throw st' e \<noteq> ret st a" "ret st a \<noteq> None" "throw st e \<noteq> None"
  by (auto simp: ret_def throw_def)

section \<open>Looking up a name\<close>

definition proto_names :: "string list" where
  "proto_names = [''constructor'', ''hasOwnProperty'', ''isPrototypeOf'', ''propertyIsEnumerable'',
     ''toLocaleString'', ''toString'', ''valueOf'', ''__defineGetter__'', ''__defineSetter__'',
     ''__lookupGetter__'', ''__lookupSetter__'']"

definition own :: "emitter \<Rightarrow> (string \<times> handler) list" where
  "own st = (case events st of None \<Rightarrow> [] | Some es \<Rightarrow> es)"

text \<open>\<open>this._events[type]\<close>, once \<open>_events\<close> is defined.\<close>

definition lookup :: "emitter \<Rightarrow> string \<Rightarrow> handler option" where
  "lookup st type =
     (case map_of (own st) type of
        Some h \<Rightarrow> Some h
      | None \<Rightarrow> if type \<in> set proto_names then Some (One (Builtin type)) else None)"

definition put :: "string \<Rightarrow> handler \<Rightarrow> emitter \<Rightarrow> emitter" where
  "put type h st = st\<lparr>events := Some (AList.update type h (own st))\<rparr>"

definition delete :: "string \<Rightarrow> emitter \<Rightarrow> emitter" where
  "delete type st = st\<lparr>events := Some (AList.delete type (own st))\<rparr>"

definition arr :: "emitter \<Rightarrow> nat \<Rightarrow> fn list" where
  "arr st a = items (arrays st a)"

definition set_arr :: "nat \<Rightarrow> listener_array \<Rightarrow> emitter \<Rightarrow> emitter" where
  "set_arr a v st = st\<lparr>arrays := (arrays st)(a := v)\<rparr>"

definition init_events :: "emitter \<Rightarrow> emitter" where
  "init_events st = st\<lparr>events := Some (own st)\<rparr>"

text \<open>The \<open>listener\<close> property of a function.\<close>

definition inner :: "emitter \<Rightarrow> fn \<Rightarrow> fn option" where
  "inner st f = (case f of OnceWrap g \<Rightarrow> Some (snd (closures st g)) | _ \<Rightarrow> None)"

definition matches :: "emitter \<Rightarrow> fn \<Rightarrow> fn \<Rightarrow> bool" where
  "matches st listener f \<longleftrightarrow> f = listener \<or> inner st f = Some listener"

section \<open>Operations\<close>

text \<open>The constructor; \<open>_maxListeners\<close> of 0 is taken for undefined.\<close>

definition EventEmitter :: "emitter \<Rightarrow> emitter" where
  "EventEmitter st =
     (init_events st)\<lparr>maxListeners := (if maxListeners st = Some 0 then None else maxListeners st)\<rparr>"

definition defaultMaxListeners :: int where
  "defaultMaxListeners = 10"

datatype number_arg = Num int | NaN | NotNumber

definition setMaxListeners :: "emitter \<Rightarrow> number_arg \<Rightarrow> unit result" where
  "setMaxListeners st n =
     (case n of
        Num k \<Rightarrow> if k < 0 then throw st (ETypeError ''n must be a positive number'')
                 else ret (st\<lparr>maxListeners := Some k\<rparr>) ()
      | _ \<Rightarrow> throw st (ETypeError ''n must be a positive number''))"

fun call_each :: "caller \<Rightarrow> fn list \<Rightarrow> value list \<Rightarrow> emitter \<Rightarrow> unit result" where
  "call_each call [] args st = ret st ()"
| "call_each call (f # fs) args st = andThen (call f args st) (\<lambda>st _. call_each call fs args st)"

text \<open>
  \<open>emit\<close>; the arguments are those after the type. The listeners of an array are those it
  holds when the event is emitted (\<open>slice\<close>).
\<close>

definition emit :: "caller \<Rightarrow> emitter \<Rightarrow> string \<Rightarrow> value list \<Rightarrow> bool result" where
  "emit call st type args =
     (let st = init_events st
      in if type = ''error'' \<and>
            (case lookup st ''error'' of None \<Rightarrow> True | Some (One f) \<Rightarrow> False | Some (Arr a) \<Rightarrow> arr st a = [])
         then (case args of
                 VError e # _ \<Rightarrow> throw st (EThrow (VError e))
               | _ \<Rightarrow> throw st (ETypeError ''Uncaught, unspecified error event.''))
         else (case lookup st type of
                 None \<Rightarrow> ret st False
               | Some (One f) \<Rightarrow> andThen (call f args st) (\<lambda>st _. ret st True)
               | Some (Arr a) \<Rightarrow> andThen (call_each call (arr st a) args st) (\<lambda>st _. ret st True)))"

text \<open>The check for a listener leak at the end of \<open>addListener\<close>.\<close>

definition check_leak :: "emitter \<Rightarrow> string \<Rightarrow> emitter" where
  "check_leak st type =
     (case lookup st type of
        Some (Arr a) \<Rightarrow>
          if warned (arrays st a) then st
          else let m = (case maxListeners st of Some m \<Rightarrow> m | None \<Rightarrow> defaultMaxListeners)
               in if m > 0 \<and> int (length (arr st a)) > m
                  then (set_arr a ((arrays st a)\<lparr>warned := True\<rparr>) st)
                         \<lparr>warnings := warnings st @ [length (arr st a)]\<rparr>
                  else st
      | _ \<Rightarrow> st)"

text \<open>The three cases of adding a function under a name.\<close>

definition append_listener :: "emitter \<Rightarrow> string \<Rightarrow> fn \<Rightarrow> emitter" where
  "append_listener st type listener =
     (case lookup st type of
        None \<Rightarrow> put type (One listener) st
      | Some (Arr a) \<Rightarrow> set_arr a ((arrays st a)\<lparr>items := arr st a @ [listener]\<rparr>) st
      | Some (One f) \<Rightarrow>
          put type (Arr (next_array st))
            (set_arr (next_array st) \<lparr>items = [f, listener], warned = False\<rparr> st
               \<lparr>next_array := Suc (next_array st)\<rparr>))"

text \<open>\<open>addListener\<close> and \<open>on\<close>; a listener that is not a function is \<open>None\<close>.\<close>

definition addListener :: "caller \<Rightarrow> emitter \<Rightarrow> string \<Rightarrow> fn option \<Rightarrow> unit result" where
  "addListener call st type listener =
     (case listener of
        None \<Rightarrow> throw st (ETypeError ''listener must be a function'')
      | Some f \<Rightarrow>
          let st = init_events st
          in andThen
               (if lookup st ''newListener'' \<noteq> None
                then emit call st ''newListener''
                  [VString type, VFn (case inner st f of Some g \<Rightarrow> g | None \<Rightarrow> f)]
                else ret st False)
               (\<lambda>st _. ret (check_leak (append_listener st type f) type) ()))"

definition once :: "caller \<Rightarrow> emitter \<Rightarrow> string \<Rightarrow> fn option \<Rightarrow> unit result" where
  "once call st type listener =
     (case listener of
        None \<Rightarrow> throw st (ETypeError ''listener must be a function'')
      | Some f \<Rightarrow>
          let g = next_closure st;
              st = st\<lparr>closures := (closures st)(g := (type, f)), next_closure := Suc g\<rparr>
          in addListener call st type (Some (OnceWrap g)))"

text \<open>The position of the last element with a property.\<close>

fun last_position :: "('a \<Rightarrow> bool) \<Rightarrow> 'a list \<Rightarrow> nat option" where
  "last_position P [] = None"
| "last_position P (x # xs) =
     (case last_position P xs of Some i \<Rightarrow> Some (Suc i) | None \<Rightarrow> if P x then Some 0 else None)"

definition splice1 :: "nat \<Rightarrow> 'a list \<Rightarrow> 'a list" where
  "splice1 i xs = take i xs @ drop (Suc i) xs"

definition emit_removed :: "caller \<Rightarrow> emitter \<Rightarrow> string \<Rightarrow> fn \<Rightarrow> unit result" where
  "emit_removed call st type listener =
     (if lookup st ''removeListener'' \<noteq> None
      then andThen (emit call st ''removeListener'' [VString type, VFn listener]) (\<lambda>st _. ret st ())
      else ret st ())"

text \<open>The state after a listener has been taken out, or \<open>None\<close> when it is not registered.\<close>

definition detach :: "emitter \<Rightarrow> string \<Rightarrow> fn \<Rightarrow> emitter option" where
  "detach st type l =
     (case lookup st type of
        None \<Rightarrow> None
      | Some (One f) \<Rightarrow> if matches st l f then Some (delete type st) else None
      | Some (Arr a) \<Rightarrow>
          (case last_position (matches st l) (arr st a) of
             None \<Rightarrow> None
           | Some position \<Rightarrow>
               Some (if length (arr st a) = 1
                     then delete type (set_arr a ((arrays st a)\<lparr>items := []\<rparr>) st)
                     else set_arr a ((arrays st a)\<lparr>items := splice1 position (arr st a)\<rparr>) st)))"

definition removeListener :: "caller \<Rightarrow> emitter \<Rightarrow> string \<Rightarrow> fn option \<Rightarrow> unit result" where
  "removeListener call st type listener =
     (case listener of
        None \<Rightarrow> throw st (ETypeError ''listener must be a function'')
      | Some l \<Rightarrow>
          if events st = None then ret st ()
          else case detach st type l of
                 None \<Rightarrow> ret st ()
               | Some st' \<Rightarrow> emit_removed call st' type l)"

text \<open>The loop of \<open>removeAllListeners\<close> that empties the array \<open>a\<close> from its end.\<close>

partial_function (option) drop_all ::
  "caller \<Rightarrow> string \<Rightarrow> nat \<Rightarrow> emitter \<Rightarrow> (emitter \<times> (event_error + unit)) option"
where
  "drop_all call type a st =
     (if arr st a = [] then Some (st, Inr ())
      else Option.bind (removeListener call st type (Some (last (arr st a)))) (\<lambda>(st, x).
        case x of Inl e \<Rightarrow> Some (st, Inl e) | Inr u \<Rightarrow> drop_all call type a st))"

declare drop_all.simps [code]

text \<open>\<open>removeAllListeners(type)\<close> and \<open>removeAllListeners()\<close>.\<close>

definition removeAllListeners_type :: "caller \<Rightarrow> emitter \<Rightarrow> string \<Rightarrow> unit result" where
  "removeAllListeners_type call st type =
     (if events st = None then ret st ()
      else if lookup st ''removeListener'' = None
      then ret (if lookup st type \<noteq> None then delete type st else st) ()
      else case lookup st type of
        None \<Rightarrow> throw st (ETypeError ''cannot read properties of undefined'')
      | Some (One f) \<Rightarrow> andThen (removeListener call st type (Some f)) (\<lambda>st _. ret (delete type st) ())
      | Some (Arr a) \<Rightarrow> andThen (drop_all call type a st) (\<lambda>st _. ret (delete type st) ()))"

text \<open>The \<open>for (key in ...)\<close> loop visits the names present at its start that still exist.\<close>

fun remove_keys :: "caller \<Rightarrow> string list \<Rightarrow> emitter \<Rightarrow> unit result" where
  "remove_keys call [] st = ret st ()"
| "remove_keys call (k # ks) st =
     (if k = ''removeListener'' \<or> map_of (own st) k = None then remove_keys call ks st
      else andThen (removeAllListeners_type call st k) (\<lambda>st _. remove_keys call ks st))"

definition removeAllListeners :: "caller \<Rightarrow> emitter \<Rightarrow> unit result" where
  "removeAllListeners call st =
     (if events st = None then ret st ()
      else if lookup st ''removeListener'' = None then ret (st\<lparr>events := Some []\<rparr>) ()
      else andThen (remove_keys call (map fst (own st)) st) (\<lambda>st _.
             andThen (removeAllListeners_type call st ''removeListener'') (\<lambda>st _.
               ret (st\<lparr>events := Some []\<rparr>) ())))"

definition listeners :: "emitter \<Rightarrow> string \<Rightarrow> fn list" where
  "listeners st type =
     (if events st = None then []
      else case lookup st type of None \<Rightarrow> [] | Some (One f) \<Rightarrow> [f] | Some (Arr a) \<Rightarrow> arr st a)"

definition listenerCount :: "emitter \<Rightarrow> string \<Rightarrow> nat" where
  "listenerCount st type =
     (if events st = None then 0
      else case lookup st type of None \<Rightarrow> 0 | Some (One f) \<Rightarrow> 1 | Some (Arr a) \<Rightarrow> length (arr st a))"

text \<open>
  Calling a function. The wrapper of \<open>once\<close> removes itself and calls the wrapped function
  unless it has been called before.
\<close>

fun call_fn :: "nat \<Rightarrow> caller \<Rightarrow> caller" where
  "call_fn 0 user f args st = None"
| "call_fn (Suc n) user (OnceWrap g) args st =
     (let (type, listener) = closures st g
      in andThen (removeListener (call_fn n user) st type (Some (OnceWrap g))) (\<lambda>st _.
           if g \<in> set (fired st) then ret st ()
           else call_fn n user listener args (st\<lparr>fired := g # fired st\<rparr>)))"
| "call_fn (Suc n) user f args st = user f args st"

section \<open>Well-formed emitters\<close>

text \<open>
  The constructor has run, every name has one entry, every array in use is allocated, not
  empty and used by one name only.
\<close>

definition emitter_ok :: "emitter \<Rightarrow> bool" where
  "emitter_ok st \<longleftrightarrow>
     events st \<noteq> None \<and> distinct (map fst (own st)) \<and>
     (\<forall>k a. map_of (own st) k = Some (Arr a) \<longrightarrow> a < next_array st \<and> arr st a \<noteq> []) \<and>
     (\<forall>k k' a. map_of (own st) k = Some (Arr a) \<and> map_of (own st) k' = Some (Arr a) \<longrightarrow> k = k')"

lemma emitter_okD:
  assumes "emitter_ok st"
  shows "events st \<noteq> None" and "distinct (map fst (own st))"
    and "map_of (own st) k = Some (Arr a) \<Longrightarrow> a < next_array st"
    and "map_of (own st) k = Some (Arr a) \<Longrightarrow> arr st a \<noteq> []"
    and "map_of (own st) k = Some (Arr a) \<Longrightarrow> map_of (own st) k' = Some (Arr a) \<Longrightarrow> k = k'"
  using assms by (auto simp: emitter_ok_def)

lemma own_simps [simp]:
  "own (put k h st) = AList.update k h (own st)"
  "own (delete k st) = AList.delete k (own st)"
  "own (set_arr a v st) = own st"
  "own (init_events st) = own st"
  "own (st\<lparr>next_array := n\<rparr>) = own st"
  "own (st\<lparr>warnings := w\<rparr>) = own st"
  "own (st\<lparr>closures := c\<rparr>) = own st"
  "own (st\<lparr>next_closure := m\<rparr>) = own st"
  "own (st\<lparr>fired := fs\<rparr>) = own st"
  by (simp_all add: put_def delete_def set_arr_def init_events_def own_def)

lemma arr_simps [simp]:
  "arr (put k h st) = arr st"
  "arr (delete k st) = arr st"
  "arr (set_arr a v st) = (arr st)(a := items v)"
  "arr (init_events st) = arr st"
  "arr (st\<lparr>next_array := n\<rparr>) = arr st"
  "arr (st\<lparr>warnings := w\<rparr>) = arr st"
  "arr (st\<lparr>closures := c\<rparr>) = arr st"
  "arr (st\<lparr>next_closure := m\<rparr>) = arr st"
  "arr (st\<lparr>fired := fs\<rparr>) = arr st"
  by (auto simp: put_def delete_def set_arr_def init_events_def arr_def)

lemma field_simps [simp]:
  "next_array (put k h st) = next_array st" "next_array (delete k st) = next_array st"
  "next_array (set_arr a v st) = next_array st" "next_array (init_events st) = next_array st"
  "events (put k h st) \<noteq> None" "events (delete k st) \<noteq> None" "events (set_arr a v st) = events st"
  "events (init_events st) \<noteq> None"
  by (simp_all add: put_def delete_def set_arr_def init_events_def)

lemma init_events_ok: "emitter_ok st \<Longrightarrow> init_events st = st"
  by (auto simp: init_events_def emitter_ok_def own_def)

lemma listeners_ok:
  "emitter_ok st \<Longrightarrow>
   listeners st t = (case lookup st t of None \<Rightarrow> [] | Some (One f) \<Rightarrow> [f] | Some (Arr a) \<Rightarrow> arr st a)"
  by (auto simp: listeners_def emitter_ok_def)

lemma lookup_Arr: "lookup st t = Some (Arr a) \<longleftrightarrow> map_of (own st) t = Some (Arr a)"
  by (auto simp: lookup_def split: option.splits)

lemma lookup_None_iff: "emitter_ok st \<Longrightarrow> lookup st t = None \<longleftrightarrow> listeners st t = []"
  using emitter_okD(4) [of st t]
  by (auto simp: listeners_ok lookup_Arr split: option.splits handler.splits)

lemma listeners_same:
  assumes "emitter_ok st" "emitter_ok st'" "lookup st' t = lookup st t"
    and "\<And>a. map_of (own st) t = Some (Arr a) \<Longrightarrow> arr st' a = arr st a"
  shows "listeners st' t = listeners st t"
proof (cases "lookup st t")
  case (Some h)
  show ?thesis
  proof (cases h)
    case (Arr a)
    then have "arr st' a = arr st a" using assms(4) [of a] Some lookup_Arr [of st t a] by simp
    then show ?thesis using assms(1-3) Some Arr by (simp add: listeners_ok)
  qed (use assms Some in \<open>simp add: listeners_ok\<close>)
qed (use assms in \<open>simp add: listeners_ok\<close>)

section \<open>Emitting\<close>

text \<open>Whether a name has one function or an array of them makes no difference to \<open>emit\<close>.\<close>

lemma emit_listeners:
  assumes ok: "emitter_ok st"
  shows "emit call st type args =
    (if listeners st type = []
     then (if type = ''error''
           then (case args of VError e # _ \<Rightarrow> throw st (EThrow (VError e))
                 | _ \<Rightarrow> throw st (ETypeError ''Uncaught, unspecified error event.''))
           else ret st False)
     else andThen (call_each call (listeners st type) args st) (\<lambda>st _. ret st True))"
proof (cases "lookup st type")
  case None
  then show ?thesis
    using ok lookup_None_iff [OF ok, of type]
    by (cases "type = ''error''") (auto simp: emit_def init_events_ok)
next
  case (Some h)
  show ?thesis
  proof (cases h)
    case (One f)
    have "andThen (andThen (call f args st) (\<lambda>st _. ret st ())) (\<lambda>st _. ret st True) =
        andThen (call f args st) (\<lambda>st _. ret st True)"
      by (cases "call f args st") (auto simp: andThen_def ret_def split: sum.split)
    then show ?thesis
      using ok Some One
      by (cases "type = ''error''") (auto simp: emit_def init_events_ok listeners_ok)
  next
    case (Arr a)
    then have "arr st a \<noteq> []" using Some emitter_okD(4) [OF ok, of type a] lookup_Arr [of st type a] by simp
    then show ?thesis
      using ok Some Arr
      by (cases "type = ''error''") (auto simp: emit_def init_events_ok listeners_ok)
  qed
qed

section \<open>Adding\<close>

lemma map_of_update [simp]: "map_of (AList.update k v al) = (map_of al)(k \<mapsto> v)"
  by (simp add: update_conv')

lemma append_listener_ok:
  assumes ok: "emitter_ok st"
  shows "emitter_ok (append_listener st t f)"
    and "listeners (append_listener st t f) = (listeners st)(t := listeners st t @ [f])"
proof -
  consider "lookup st t = None" | g where "lookup st t = Some (One g)" | a where "map_of (own st) t = Some (Arr a)"
    by (metis handler.exhaust lookup_Arr not_None_eq)
  then have "emitter_ok (append_listener st t f) \<and>
      (\<forall>t'. listeners (append_listener st t f) t' = ((listeners st)(t := listeners st t @ [f])) t')"
  proof cases
    case 1
    then have new: "append_listener st t f = put t (One f) st" by (simp add: append_listener_def)
    have "emitter_ok (put t (One f) st)"
      using ok by (auto simp: emitter_ok_def distinct_update)
    then show ?thesis
      using ok 1 by (auto simp: new listeners_ok lookup_def split: option.split handler.split)
  next
    case 2
    then have new: "append_listener st t f = put t (Arr (next_array st))
        (set_arr (next_array st) \<lparr>items = [g, f], warned = False\<rparr> st\<lparr>next_array := Suc (next_array st)\<rparr>)"
      by (simp add: append_listener_def)
    have "emitter_ok (append_listener st t f)"
      unfolding new using ok by (fastforce simp: emitter_ok_def distinct_update)
    then show ?thesis
      using ok 2 emitter_okD(3) [OF ok] unfolding new
      by (auto simp: listeners_ok lookup_def split: option.split handler.split)
  next
    case 3
    then have new: "append_listener st t f = set_arr a ((arrays st a)\<lparr>items := arr st a @ [f]\<rparr>) st"
      by (simp add: append_listener_def lookup_def)
    have ok': "emitter_ok (append_listener st t f)"
      unfolding new using ok by (auto simp: emitter_ok_def)
    have "listeners (append_listener st t f) t = listeners st t @ [f]"
      using ok ok' 3 by (simp add: new listeners_ok lookup_def)
    moreover have "listeners (append_listener st t f) t' = listeners st t'" if "t' \<noteq> t" for t'
      using emitter_okD(5) [OF ok 3] that
      by (intro listeners_same [OF ok ok']) (auto simp: new lookup_def)
    ultimately show ?thesis using ok' by simp
  qed
  then show "emitter_ok (append_listener st t f)"
    and "listeners (append_listener st t f) = (listeners st)(t := listeners st t @ [f])"
    by blast+
qed

lemma check_leak_ok:
  assumes "emitter_ok st"
  shows "emitter_ok (check_leak st t)" and "listeners (check_leak st t) = listeners st"
proof -
  have same: "events (check_leak st t) = events st \<and> own (check_leak st t) = own st \<and>
      arr (check_leak st t) = arr st \<and> next_array (check_leak st t) = next_array st"
    by (auto simp: check_leak_def set_arr_def own_def arr_def Let_def fun_eq_iff
        split: option.split handler.split)
  then show ok: "emitter_ok (check_leak st t)" using assms unfolding emitter_ok_def by simp
  show "listeners (check_leak st t) = listeners st"
    by (rule ext, rule listeners_same [OF assms ok]) (simp_all add: same lookup_def)
qed

lemma addListener_quiet:
  assumes ok: "emitter_ok st" and quiet: "listeners st ''newListener'' = []"
  shows "\<exists>st'. addListener call st t (Some f) = ret st' () \<and> emitter_ok st' \<and>
    listeners st' = (listeners st)(t := listeners st t @ [f])"
proof -
  have "lookup st ''newListener'' = None" using quiet lookup_None_iff [OF ok] by simp
  then have "addListener call st t (Some f) = ret (check_leak (append_listener st t f) t) ()"
    by (simp add: addListener_def init_events_ok [OF ok])
  then show ?thesis
    using append_listener_ok [OF ok, of t f] check_leak_ok [of "append_listener st t f" t] by simp
qed

section \<open>Removing\<close>

definition remove_last :: "('a \<Rightarrow> bool) \<Rightarrow> 'a list \<Rightarrow> 'a list" where
  "remove_last P xs = (case last_position P xs of None \<Rightarrow> xs | Some i \<Rightarrow> splice1 i xs)"

lemma last_position_less: "last_position P xs = Some i \<Longrightarrow> i < length xs \<and> P (xs ! i)"
  by (induction xs arbitrary: i) (auto split: option.splits if_split_asm)

lemma last_position_snoc: "P x \<Longrightarrow> last_position P (xs @ [x]) = Some (length xs)"
  by (induction xs) auto

lemma remove_last_snoc: "P x \<Longrightarrow> remove_last P (xs @ [x]) = xs"
  by (simp add: remove_last_def last_position_snoc splice1_def)

lemma length_splice1: "i < length xs \<Longrightarrow> length (splice1 i xs) = length xs - 1"
  by (simp add: splice1_def)

lemma map_of_delete [simp]: "map_of (AList.delete k al) = (map_of al)(k := None)"
  by (rule ext) (simp add: delete_conv')

lemma delete_ok: "emitter_ok st \<Longrightarrow> emitter_ok (delete t st)"
  by (auto simp: emitter_ok_def distinct_delete)

lemma listeners_delete:
  assumes "emitter_ok st" and "t \<notin> set proto_names"
  shows "listeners (delete t st) = (listeners st)(t := [])"
proof
  fix t'
  show "listeners (delete t st) t' = ((listeners st)(t := [])) t'"
  proof (cases "t' = t")
    case True
    then show ?thesis using assms by (simp add: listeners_ok delete_ok lookup_def)
  next
    case False
    then show ?thesis
      using listeners_same [OF assms(1) delete_ok [OF assms(1), of t], of t'] by (simp add: lookup_def)
  qed
qed

lemma set_arr_ok:
  assumes ok: "emitter_ok st" and a: "map_of (own st) t = Some (Arr a)" and "items v \<noteq> []"
  shows "emitter_ok (set_arr a v st)" and "listeners (set_arr a v st) = (listeners st)(t := items v)"
proof -
  show ok': "emitter_ok (set_arr a v st)" using ok assms(3) by (auto simp: emitter_ok_def)
  show "listeners (set_arr a v st) = (listeners st)(t := items v)"
  proof
    fix t'
    show "listeners (set_arr a v st) t' = ((listeners st)(t := items v)) t'"
    proof (cases "t' = t")
      case True
      then show ?thesis using ok' a by (simp add: listeners_ok lookup_def)
    next
      case False
      then have "listeners (set_arr a v st) t' = listeners st t'"
        using emitter_okD(5) [OF ok a, of t'] by (intro listeners_same [OF ok ok']) (auto simp: lookup_def)
      then show ?thesis using False by simp
    qed
  qed
qed

lemma set_arr_free:
  assumes ok: "emitter_ok st" and a: "\<And>k. map_of (own st) k \<noteq> Some (Arr a)"
  shows "emitter_ok (set_arr a v st)" and "listeners (set_arr a v st) = listeners st"
proof -
  have "a' \<noteq> a" if "map_of (own st) k = Some (Arr a')" for k a' using a that by auto
  then show ok': "emitter_ok (set_arr a v st)"
    using ok unfolding emitter_ok_def by simp
  show "listeners (set_arr a v st) = listeners st"
    by (rule ext, rule listeners_same [OF ok ok']) (use a in \<open>auto simp: lookup_def\<close>)
qed

lemma detach_ok:
  assumes ok: "emitter_ok st" and t: "t \<notin> set proto_names"
  shows "(case detach st t l of
      None \<Rightarrow> last_position (matches st l) (listeners st t) = None
    | Some st' \<Rightarrow> emitter_ok st' \<and> closures st' = closures st \<and> fired st' = fired st \<and>
        listeners st' = (listeners st)(t := remove_last (matches st l) (listeners st t)))"
proof -
  consider "lookup st t = None" | g where "lookup st t = Some (One g)" | a where "lookup st t = Some (Arr a)"
    by (metis handler.exhaust not_None_eq)
  then show ?thesis
  proof cases
    case 1
    then show ?thesis using ok by (simp add: detach_def listeners_ok)
  next
    case 2
    then show ?thesis
      using ok listeners_delete [OF ok t] delete_ok [OF ok]
      by (auto simp: detach_def listeners_ok remove_last_def splice1_def) (simp_all add: delete_def)
  next
    case 3
    then have a: "map_of (own st) t = Some (Arr a)" and ls: "listeners st t = arr st a"
      using ok by (simp_all add: lookup_Arr [symmetric] listeners_ok)
    show ?thesis
    proof (cases "last_position (matches st l) (arr st a)")
      case None
      then show ?thesis using 3 by (simp add: detach_def ls)
    next
      case (Some i)
      then have i: "i < length (arr st a)" using last_position_less by blast
      show ?thesis
      proof (cases "length (arr st a) = 1")
        case True
        have "delete t (set_arr a ((arrays st a)\<lparr>items := []\<rparr>) st) = set_arr a ((arrays st a)\<lparr>items := []\<rparr>) (delete t st)"
          by (simp add: delete_def set_arr_def own_def)
        moreover have "map_of (own (delete t st)) k \<noteq> Some (Arr a)" for k
          using emitter_okD(5) [OF ok a, of k] by auto
        note set_arr_free [OF delete_ok [OF ok, of t] this]
        ultimately show ?thesis
          using 3 Some True i listeners_delete [OF ok t]
          by (simp add: detach_def ls remove_last_def splice1_def) (simp add: delete_def set_arr_def)
      next
        case False
        then have "splice1 i (arr st a) \<noteq> []" using length_splice1 [OF i] i by auto
        then show ?thesis
          using 3 Some False set_arr_ok [OF ok a, of "(arrays st a)\<lparr>items := splice1 i (arr st a)\<rparr>"]
          by (simp add: detach_def ls remove_last_def) (simp add: set_arr_def)
      qed
    qed
  qed
qed

lemma removeListener_quiet:
  assumes ok: "emitter_ok st" and quiet: "listeners st ''removeListener'' = []" and t: "t \<notin> set proto_names"
  shows "\<exists>st'. removeListener call st t (Some l) = ret st' () \<and> emitter_ok st' \<and>
    closures st' = closures st \<and> fired st' = fired st \<and>
    listeners st' = (listeners st)(t := remove_last (matches st l) (listeners st t))"
proof (cases "detach st t l")
  case None
  then have "remove_last (matches st l) (listeners st t) = listeners st t"
    using detach_ok [OF ok t, of l] by (simp add: remove_last_def)
  then show ?thesis
    using None ok emitter_okD(1) [OF ok] by (auto simp: removeListener_def)
next
  case (Some st')
  then have st': "emitter_ok st'" "closures st' = closures st" "fired st' = fired st"
      "listeners st' = (listeners st)(t := remove_last (matches st l) (listeners st t))"
    using detach_ok [OF ok t, of l] by auto
  moreover have "remove_last P [] = []" for P :: "fn \<Rightarrow> bool" by (simp add: remove_last_def)
  ultimately have "listeners st' ''removeListener'' = []" using quiet by auto
  then have "lookup st' ''removeListener'' = None" using lookup_None_iff [OF st'(1)] by simp
  then have "removeListener call st t (Some l) = ret st' ()"
    using Some emitter_okD(1) [OF ok] by (auto simp: removeListener_def emit_removed_def)
  then show ?thesis using st' by blast
qed

section \<open>The table of listeners\<close>

text \<open>
  What a client of the emitter relies on when nobody observes the changes: adding appends at
  the end, removing takes out the last registration that matches.
\<close>

locale listener_table =
  fixes good :: "'s \<Rightarrow> bool"
    and usable :: "'k \<Rightarrow> bool"
    and view :: "'s \<Rightarrow> 'k \<Rightarrow> 'l list"
    and add :: "'s \<Rightarrow> 'k \<Rightarrow> 'l \<Rightarrow> 's"
    and remove :: "'s \<Rightarrow> 'k \<Rightarrow> 'l \<Rightarrow> 's"
    and same :: "'s \<Rightarrow> 'l \<Rightarrow> 'l \<Rightarrow> bool"
  assumes add_good: "good s \<Longrightarrow> good (add s k l)"
    and add_view: "good s \<Longrightarrow> view (add s k l) = (view s)(k := view s k @ [l])"
    and remove_good: "good s \<Longrightarrow> usable k \<Longrightarrow> good (remove s k l)"
    and remove_view: "good s \<Longrightarrow> usable k \<Longrightarrow>
      view (remove s k l) = (view s)(k := remove_last (same s l) (view s k))"
    and same_refl: "same s l l"
begin

lemma add_remove: "good s \<Longrightarrow> usable k \<Longrightarrow> view (remove (add s k l) k l) = view s"
  using remove_view [OF add_good, of s k k l l] add_view [of s k l]
  by (simp add: remove_last_snoc same_refl fun_eq_iff)

lemma remove_shrinks:
  assumes "good s" "usable k" "l \<in> set (view s k)"
  shows "length (view (remove s k l) k) < length (view s k)"
proof -
  have "last_position P xs \<noteq> None" if "P l" "l \<in> set xs" for P and xs :: "'l list"
    using that by (induction xs) (auto split: option.splits)
  then obtain i where i: "last_position (same s l) (view s k) = Some i"
    using assms(3) same_refl by blast
  then show ?thesis
    using remove_view [OF assms(1,2), of l] last_position_less [OF i] length_splice1 [of i "view s k"]
    by (auto simp: remove_last_def)
qed

fun remove_each :: "'s \<Rightarrow> 'k \<Rightarrow> 'l list \<Rightarrow> 's" where
  "remove_each s k [] = s"
| "remove_each s k (l # ls) = remove_each (remove s k l) k ls"

lemma remove_each_rev: "good s \<Longrightarrow> usable k \<Longrightarrow> view (remove_each s k (rev (view s k))) k = []"
proof (induction "length (view s k)" arbitrary: s)
  case (Suc n)
  then obtain ls l where v: "view s k = ls @ [l]" by (cases "view s k" rule: rev_cases) auto
  then have "view (remove s k l) k = ls"
    using remove_view [OF Suc.prems, of l] by (simp add: remove_last_snoc same_refl)
  then show ?case
    using Suc.hyps(1) [of "remove s k l"] Suc.hyps(2) Suc.prems remove_good v by simp
qed simp

end

definition add_state :: "emitter \<Rightarrow> string \<Rightarrow> fn \<Rightarrow> emitter" where
  "add_state st t f = check_leak (append_listener st t f) t"

definition remove_state :: "emitter \<Rightarrow> string \<Rightarrow> fn \<Rightarrow> emitter" where
  "remove_state st t l = (case detach st t l of None \<Rightarrow> st | Some st' \<Rightarrow> st')"

lemma remove_state_ok:
  assumes "emitter_ok st" and "t \<notin> set proto_names"
  shows "emitter_ok (remove_state st t l)"
    and "listeners (remove_state st t l) = (listeners st)(t := remove_last (matches st l) (listeners st t))"
  using detach_ok [OF assms, of l] assms(1)
  by (auto simp: remove_state_def remove_last_def split: option.splits)

interpretation et: listener_table emitter_ok "\<lambda>t. t \<notin> set proto_names" listeners add_state remove_state matches
  by unfold_locales
    (simp_all add: add_state_def append_listener_ok check_leak_ok remove_state_ok matches_def)

lemma addListener_state:
  "emitter_ok st \<Longrightarrow> listeners st ''newListener'' = [] \<Longrightarrow> addListener call st t (Some f) = ret (add_state st t f) ()"
  using lookup_None_iff [of st "''newListener''"]
  by (simp add: addListener_def init_events_ok add_state_def)

section \<open>Listeners that leave the emitter alone\<close>

definition inert :: "caller \<Rightarrow> bool" where
  "inert call \<longleftrightarrow> (\<forall>f args st. call f args st = ret st ())"

lemma call_each_inert: "inert call \<Longrightarrow> call_each call fs args st = ret st ()"
  by (induction fs) (auto simp: inert_def)

lemma removeListener_inert:
  assumes ok: "emitter_ok st" and "inert call" and t: "t \<notin> set proto_names"
  shows "removeListener call st t (Some l) = ret (remove_state st t l) ()"
proof (cases "detach st t l")
  case (Some st')
  then have "emitter_ok st'" using detach_ok [OF ok t, of l] by simp
  then have "emit_removed call st' t l = ret st' ()"
    using lookup_None_iff [of st' "''removeListener''"] call_each_inert [OF assms(2)]
    by (simp add: emit_removed_def emit_listeners)
  then show ?thesis using Some emitter_okD(1) [OF ok] by (auto simp: removeListener_def remove_state_def)
qed (use emitter_okD(1) [OF ok] in \<open>auto simp: removeListener_def remove_state_def\<close>)

lemma drop_all_inert:
  assumes "emitter_ok st" and pas: "inert call" and t: "t \<notin> set proto_names"
    and "map_of (own st) t = Some (Arr a)"
  shows "\<exists>st'. drop_all call t a st = Some (st', Inr ()) \<and> emitter_ok st' \<and> listeners st' = (listeners st)(t := [])"
  using assms(1,4)
proof (induction "length (arr st a)" arbitrary: st)
  case 0
  then show ?case using emitter_okD(4) by simp
next
  case (Suc n)
  then obtain ls l where v: "arr st a = ls @ [l]" by (cases "arr st a" rule: rev_cases) auto
  have look: "lookup st t = Some (Arr a)" using Suc.prems(2) by (simp add: lookup_Arr)
  then have ls: "listeners st t = ls @ [l]" using Suc.prems(1) v by (simp add: listeners_ok)
  define st1 where "st1 = remove_state st t l"
  have "last_position (matches st l) (arr st a) = Some (length ls)"
    unfolding v by (rule last_position_snoc) (simp add: matches_def)
  then have st1: "st1 = (if ls = [] then delete t (set_arr a ((arrays st a)\<lparr>items := []\<rparr>) st)
      else set_arr a ((arrays st a)\<lparr>items := ls\<rparr>) st)"
    using look v by (simp add: st1_def remove_state_def detach_def splice1_def)
  have ok1: "emitter_ok st1" and l1: "listeners st1 = (listeners st)(t := ls)"
    using remove_state_ok [OF Suc.prems(1) t, of l] ls
    by (simp_all add: st1_def remove_last_snoc matches_def)
  have step: "drop_all call t a st = drop_all call t a st1"
    using removeListener_inert [OF Suc.prems(1) pas t, of l] v
    by (subst drop_all.simps) (simp add: st1_def ret_def)
  show ?case
  proof (cases "ls = []")
    case True
    then have "drop_all call t a st1 = Some (st1, Inr ())"
      by (subst drop_all.simps) (simp add: st1)
    then show ?thesis using step ok1 l1 True by simp
  next
    case False
    then have "map_of (own st1) t = Some (Arr a)" "arr st1 a = ls" using Suc.prems(2) by (simp_all add: st1)
    then show ?thesis using Suc.hyps(1) [of st1] Suc.hyps(2) ok1 l1 step v by simp
  qed
qed

lemma removeAllListeners_type_inert:
  assumes ok: "emitter_ok st" and pas: "inert call" and t: "t \<notin> set proto_names"
    and reg: "listeners st t \<noteq> []"
  shows "\<exists>st'. removeAllListeners_type call st t = ret st' () \<and> emitter_ok st' \<and>
    listeners st' = (listeners st)(t := [])"
proof -
  have ev: "events st \<noteq> None" by (rule emitter_okD(1) [OF ok])
  have del: "emitter_ok (delete t st') \<and> listeners (delete t st') = (listeners st)(t := [])"
    if "emitter_ok st'" "listeners st' = (listeners st)(t := ls)" for st' ls
    using that listeners_delete [OF that(1) t] by (simp add: delete_ok)
  consider "lookup st ''removeListener'' = None"
    | f where "lookup st ''removeListener'' \<noteq> None" "lookup st t = Some (One f)"
    | a where "lookup st ''removeListener'' \<noteq> None" "lookup st t = Some (Arr a)"
    using reg lookup_None_iff [OF ok, of t] by (metis handler.exhaust not_None_eq)
  then show ?thesis
  proof cases
    case 1
    then show ?thesis
      using ev reg lookup_None_iff [OF ok, of t] del [OF ok, of "listeners st t"]
      by (auto simp: removeAllListeners_type_def)
  next
    case 2
    then show ?thesis
      using ev removeListener_inert [OF ok pas t] del [OF remove_state_ok [OF ok t, of f]]
      by (auto simp: removeAllListeners_type_def)
  next
    case 3
    then obtain st' where "drop_all call t a st = Some (st', Inr ())" "emitter_ok st'"
        "listeners st' = (listeners st)(t := [])"
      using drop_all_inert [OF ok pas t, of a] by (auto simp: lookup_Arr)
    then show ?thesis
      using 3 ev del [of st' "[]"] by (auto simp: removeAllListeners_type_def ret_def [symmetric])
  qed
qed

section \<open>Listeners that fire once\<close>

lemma add_state_closures: "closures (add_state st t f) = closures st" "fired (add_state st t f) = fired st"
  by (simp_all add: add_state_def check_leak_def append_listener_def set_arr_def put_def Let_def
      split: option.split handler.split)

lemma same_table:
  assumes ok: "emitter_ok st"
    and "events st' = events st" "arrays st' = arrays st" "next_array st' = next_array st"
  shows "emitter_ok st'" and "listeners st' = listeners st"
proof -
  have own: "own st' = own st" and arr: "arr st' = arr st"
    using assms by (simp_all add: own_def arr_def fun_eq_iff)
  show ok': "emitter_ok st'" using ok unfolding emitter_ok_def own arr assms(2,4) .
  show "listeners st' = listeners st"
    by (rule ext, rule listeners_same [OF ok ok']) (simp_all add: lookup_def own arr)
qed

lemma once_state:
  assumes ok: "emitter_ok st" and quiet: "listeners st ''newListener'' = []"
  obtains st1 where "once call st t (Some f) = ret st1 ()" and "emitter_ok st1"
    and "listeners st1 = (listeners st)(t := listeners st t @ [OnceWrap (next_closure st)])"
    and "closures st1 (next_closure st) = (t, f)" and "fired st1 = fired st"
proof -
  let ?st = "st\<lparr>closures := (closures st)(next_closure st := (t, f)), next_closure := Suc (next_closure st)\<rparr>"
  let ?w = "OnceWrap (next_closure st)"
  have ok': "emitter_ok ?st" and ls: "listeners ?st = listeners st"
    by (rule same_table [OF ok]; simp)+
  have "once call st t (Some f) = ret (add_state ?st t ?w) ()"
    using addListener_state [OF ok', of call t ?w] quiet ls by (simp add: once_def Let_def)
  then show ?thesis
    using et.add_good [OF ok', of t ?w] et.add_view [OF ok', of t ?w] ls
    by (intro that [of "add_state ?st t ?w"]) (simp_all add: add_state_closures)
qed

lemma once_fires:
  assumes ok: "emitter_ok st" and quiet: "listeners st ''newListener'' = []" "listeners st ''removeListener'' = []"
    and t: "t \<notin> set proto_names" "t \<noteq> ''removeListener''" and none: "listeners st t = []"
    and fresh: "next_closure st \<notin> set (fired st)"
  shows "\<exists>st1 st2. once call st t (Some (User k)) = ret st1 () \<and>
    emit (call_fn (Suc (Suc n)) user) st1 t args = andThen (user (User k) args st2) (\<lambda>st _. ret st True) \<and>
    emitter_ok st2 \<and> listeners st2 = listeners st \<and> next_closure st \<in> set (fired st2)"
proof -
  define g where "g = next_closure st"
  obtain st1 where once: "once call st t (Some (User k)) = ret st1 ()" and ok1: "emitter_ok st1"
    and l1: "listeners st1 = (listeners st)(t := [OnceWrap g])"
    and c1: "closures st1 g = (t, User k)" and f1: "fired st1 = fired st"
    using once_state [OF ok quiet(1), of call t "User k"] none unfolding g_def by auto
  have "listeners st1 ''removeListener'' = []" using l1 quiet(2) t(2) by simp
  then obtain st2 where rem: "removeListener (call_fn (Suc n) user) st1 t (Some (OnceWrap g)) = ret st2 ()"
    and ok2: "emitter_ok st2" and f2: "fired st2 = fired st"
    and l2: "listeners st2 = (listeners st1)(t := remove_last (matches st1 (OnceWrap g)) [OnceWrap g])"
    using removeListener_quiet [OF ok1 _ t(1), of "call_fn (Suc n) user" "OnceWrap g"] f1 l1 by auto
  have ls: "listeners st2 = listeners st"
    using l2 l1 none remove_last_snoc [of "matches st1 (OnceWrap g)" "OnceWrap g" "[]"]
    by (auto simp: matches_def)
  let ?st2 = "st2\<lparr>fired := g # fired st2\<rparr>"
  have "andThen (andThen r (\<lambda>st _. ret st ())) (\<lambda>st _. ret st True) = andThen r (\<lambda>st _. ret st True)" for r :: "unit result"
    by (cases r) (auto simp: andThen_def ret_def split: sum.split)
  moreover have "call_fn (Suc (Suc n)) user (OnceWrap g) args st1 = user (User k) args ?st2"
    using rem c1 f2 fresh by (simp add: g_def)
  ultimately have "emit (call_fn (Suc (Suc n)) user) st1 t args = andThen (user (User k) args ?st2) (\<lambda>st _. ret st True)"
    using l1 by (simp add: emit_listeners [OF ok1] del: call_fn.simps)
  then show ?thesis
    using once same_table [OF ok2, of ?st2] ls by (intro exI [of _ st1] exI [of _ ?st2]) (simp add: g_def)
qed

section \<open>A new emitter\<close>

definition new_emitter :: emitter where
  "new_emitter = EventEmitter \<lparr>events = None, maxListeners = None,
     arrays = (\<lambda>_. \<lparr>items = [], warned = False\<rparr>), next_array = 0, closures = (\<lambda>_. ([], User 0)),
     next_closure = 0, fired = [], warnings = []\<rparr>"

lemma new_emitter_ok: "emitter_ok new_emitter"
  by (simp add: new_emitter_def EventEmitter_def init_events_def emitter_ok_def own_def)

lemma new_emitter_listeners: "t \<notin> set proto_names \<Longrightarrow> listeners new_emitter t = []"
  by (simp add: listeners_ok [OF new_emitter_ok])
    (simp add: new_emitter_def EventEmitter_def init_events_def own_def lookup_def)

lemma new_emitter_fields: "next_closure new_emitter = 0" "fired new_emitter = []"
  by (simp_all add: new_emitter_def EventEmitter_def init_events_def)

section \<open>Theorems\<close>

text \<open>
  C11. \<open>emit\<close> calls the functions registered for the event in order, in the state left by the
  one before, and returns true; without any it returns false, except for the event
  \<open>error\<close>, which raises its argument if that is an Error and a TypeError otherwise.
\<close>

theorem event_emit_calls_listeners:
  assumes "emitter_ok st"
  shows "emit call st type args =
    (if listeners st type = []
     then (if type = ''error''
           then (case args of VError e # _ \<Rightarrow> throw st (EThrow (VError e))
                 | _ \<Rightarrow> throw st (ETypeError ''Uncaught, unspecified error event.''))
           else ret st False)
     else andThen (call_each call (listeners st type) args st) (\<lambda>st _. ret st True))"
  by (rule emit_listeners [OF assms])

theorem event_emit_calls_listeners_witness:
  "emit (\<lambda>f args st. ret st ()) new_emitter ''error'' [VError 7] = throw new_emitter (EThrow (VError 7))"
  using event_emit_calls_listeners [OF new_emitter_ok, of "\<lambda>f args st. ret st ()" "''error''" "[VError 7]"]
  by (simp add: new_emitter_listeners proto_names_def)

text \<open>
  C34. On a well-formed emitter that nobody observes, \<open>addListener\<close> returns a well-formed
  emitter in which the function is the last listener of the event and the listeners of all
  other events are the same.
\<close>

theorem event_addListener_appends:
  assumes "emitter_ok st" and "listeners st ''newListener'' = []"
  shows "\<exists>st'. addListener call st t (Some f) = ret st' () \<and> emitter_ok st' \<and>
    listeners st' = (listeners st)(t := listeners st t @ [f])"
  by (rule addListener_quiet [OF assms])

theorem event_addListener_appends_witness:
  "\<exists>st'. addListener (\<lambda>f args st. ret st ()) new_emitter ''end'' (Some (User 3)) = ret st' () \<and> emitter_ok st' \<and>
    listeners st' = (listeners new_emitter)(''end'' := [User 3])"
  using event_addListener_appends [OF new_emitter_ok, of "\<lambda>f args st. ret st ()" "''end''" "User 3"]
  by (simp add: new_emitter_listeners proto_names_def)



text \<open>
  Registering a function with \<open>addListener\<close> and removing it again leaves the listeners
  of every event as they were.
\<close>

theorem event_add_remove_roundtrip:
  assumes "emitter_ok st" and "listeners st ''newListener'' = []" and "t \<notin> set proto_names"
  shows "\<exists>st'. addListener call st t (Some l) = ret st' () \<and> listeners (remove_state st' t l) = listeners st"
  using addListener_state [OF assms(1,2), of call t l] et.add_remove [OF assms(1,3), of l] by blast

theorem event_add_remove_roundtrip_witness:
  "\<exists>st'. addListener (\<lambda>f args st. ret st ()) new_emitter ''match'' (Some (User 5)) = ret st' () \<and>
    listeners (remove_state st' ''match'' (User 5)) = listeners new_emitter"
  using event_add_remove_roundtrip [OF new_emitter_ok, of "''match''" "\<lambda>f args st. ret st ()" "User 5"]
  by (simp add: new_emitter_listeners proto_names_def)



text \<open>
  When listeners leave the emitter alone, \<open>removeAllListeners\<close> of an event that has
  listeners returns: the loop that empties the array from its end stops, the event has no
  listeners any more, and the other events keep theirs, also when the removals are observed.
\<close>

theorem event_removeAllListeners_returns:
  assumes "emitter_ok st" and "inert call" and "t \<notin> set proto_names" and "listeners st t \<noteq> []"
  shows "\<exists>st'. removeAllListeners_type call st t = ret st' () \<and> emitter_ok st' \<and>
    listeners st' = (listeners st)(t := [])"
  by (rule removeAllListeners_type_inert [OF assms])

theorem event_removeAllListeners_returns_witness:
  "\<exists>st'. removeAllListeners_type (\<lambda>f args st. ret st ())
      (add_state (add_state new_emitter ''end'' (User 3)) ''end'' (User 4)) ''end'' = ret st' () \<and>
    emitter_ok st' \<and> listeners st' ''end'' = []"
proof -
  let ?st = "add_state (add_state new_emitter ''end'' (User 3)) ''end'' (User 4)"
  have ok: "emitter_ok ?st" and reg: "listeners ?st ''end'' \<noteq> []"
    by (simp_all add: et.add_good et.add_view new_emitter_ok)
  have inert: "inert (\<lambda>f args st. ret st ())" and name: "''end'' \<notin> set proto_names"
    by (simp_all add: inert_def proto_names_def)
  obtain st' where "removeAllListeners_type (\<lambda>f args st. ret st ()) ?st ''end'' = ret st' ()"
      "emitter_ok st'" and ls: "listeners st' = (listeners ?st)(''end'' := [])"
    using event_removeAllListeners_returns [OF ok inert name reg] by (elim exE conjE)
  moreover have "listeners st' ''end'' = []" by (simp only: ls fun_upd_same)
  ultimately show ?thesis by (intro exI [of _ st'] conjI)
qed

text \<open>
  C37. When somebody listens for \<open>removeListener\<close>, \<open>removeAllListeners\<close> of an event without
  listeners raises a TypeError.
\<close>

theorem event_removeAllListeners_raises:
  assumes "emitter_ok st" and "listeners st ''removeListener'' \<noteq> []" and "listeners st t = []"
  shows "removeAllListeners_type call st t = throw st (ETypeError ''cannot read properties of undefined'')"
  using lookup_None_iff [OF assms(1), of t] lookup_None_iff [OF assms(1), of "''removeListener''"]
    assms(2,3) emitter_okD(1) [OF assms(1)]
  by (auto simp: removeAllListeners_type_def)

theorem event_removeAllListeners_raises_witness:
  "removeAllListeners_type (\<lambda>f args st. ret st ()) (add_state new_emitter ''removeListener'' (User 1)) ''end'' =
     throw (add_state new_emitter ''removeListener'' (User 1)) (ETypeError ''cannot read properties of undefined'')"
  using event_removeAllListeners_raises [OF et.add_good [OF new_emitter_ok],
      of "''removeListener''" "User 1" "''end''" "\<lambda>f args st. ret st ()"]
  by (simp add: et.add_view new_emitter_ok new_emitter_listeners proto_names_def)

end
