(* ===== verification/Process_Queue.thy ===== *)
theory Process_Queue
  imports Main
begin

text \<open>
  The module \<open>process\<close> of \<open>wordcut.js\<close> (lines 4337 to 4521): the browser shim of
  \<open>process.nextTick\<close>.

  \<^item> \<open>runTimeout\<close> and \<open>runClearTimeout\<close> choose how the timer functions of the global object are
    called; the outcome of calling such a function is a parameter.
  \<^item> The queue of \<open>nextTick\<close> is a record of the module's variables together with the pending
    timers of the environment. What an item does when it runs is a parameter \<open>body\<close>: the
    items it hands to \<open>nextTick\<close>, in order, and whether it raises an exception in the end.
    The field \<open>ran\<close> records the items in the order in which they were run and \<open>given\<close> those
    handed to \<open>nextTick\<close>.
  \<^item> \<open>drainQueue\<close> loops as long as items enqueue further items, so it is a
    \<open>partial_function\<close> with \<open>None\<close> for not returning.
  \<^item> \<open>reachable\<close> is the system of the module and the event loop: the program calls \<open>nextTick\<close>,
    and the environment fires timers one at a time.
\<close>

section \<open>Timer functions\<close>

text \<open>
  A value of the global object is falsy, a truthy value that is not a function, or a
  function; \<open>None\<close> is an undeclared identifier, which raises a ReferenceError when it is
  read. The cached function is the stub of the module, which raises an Error, or a value.
\<close>

datatype gvalue = Falsy | Truthy nat | Function nat

datatype cached = CDefault | CValue gvalue

datatype receiver = NoReceiver | NullReceiver | ThisReceiver

datatype timer_error = ReferenceError | NotDefined string | NotFunction | Failed nat

type_synonym invoke = "nat \<Rightarrow> receiver \<Rightarrow> timer_error option"

text \<open>The initialisation: the catch covers the reading of an undeclared name.\<close>

definition cache_global :: "gvalue option \<Rightarrow> cached" where
  "cache_global g = (case g of Some (Function f) \<Rightarrow> CValue (Function f) | _ \<Rightarrow> CDefault)"

definition call_value :: "invoke \<Rightarrow> gvalue \<Rightarrow> receiver \<Rightarrow> timer_error option" where
  "call_value invoke v r = (case v of Function f \<Rightarrow> invoke f r | _ \<Rightarrow> Some NotFunction)"

text \<open>Calling the cached function; the stub raises for every receiver.\<close>

definition call_cached :: "invoke \<Rightarrow> string \<Rightarrow> cached \<Rightarrow> receiver \<Rightarrow> timer_error option" where
  "call_cached invoke msg c r =
     (case c of CDefault \<Rightarrow> Some (NotDefined msg) | CValue v \<Rightarrow> call_value invoke v r)"

text \<open>
  \<open>runTimeout\<close> and \<open>runClearTimeout\<close> differ in the function they call and in the message of
  the stub. The result is the new cached function and the exception, if there is one.
\<close>

definition run_timer :: "invoke \<Rightarrow> string \<Rightarrow> cached \<Rightarrow> gvalue option \<Rightarrow> cached \<times> timer_error option" where
  "run_timer invoke msg c g =
     (case g of
        None \<Rightarrow> (c, Some ReferenceError)
      | Some v \<Rightarrow>
          if c = CValue v then (c, call_value invoke v NoReceiver)
          else if (c = CDefault \<or> c = CValue Falsy) \<and> v \<noteq> Falsy
          then (CValue v, call_value invoke v NoReceiver)
          else (c, case call_cached invoke msg c NoReceiver of
                     None \<Rightarrow> None
                   | Some _ \<Rightarrow>
                       (case call_cached invoke msg c NullReceiver of
                          None \<Rightarrow> None
                        | Some _ \<Rightarrow> call_cached invoke msg c ThisReceiver)))"

definition runTimeout :: "invoke \<Rightarrow> cached \<Rightarrow> gvalue option \<Rightarrow> cached \<times> timer_error option" where
  "runTimeout invoke c g = run_timer invoke ''setTimeout has not been defined'' c g"

definition runClearTimeout :: "invoke \<Rightarrow> cached \<Rightarrow> gvalue option \<Rightarrow> cached \<times> timer_error option" where
  "runClearTimeout invoke c g = run_timer invoke ''clearTimeout has not been defined'' c g"

section \<open>The queue\<close>

datatype timer = TDrain | TCleanUp

record 'i process_state =
  queue :: "'i list"
  draining :: bool
  currentQueue :: "'i list option"
  queueIndex :: int
  timers :: "(nat \<times> timer) list"
  next_timer :: nat
  ran :: "'i list"
  given :: "'i list"

type_synonym 'i body = "'i \<Rightarrow> 'i list \<times> bool"

definition set_timer :: "timer \<Rightarrow> 'i process_state \<Rightarrow> 'i process_state" where
  "set_timer t st = st\<lparr>timers := timers st @ [(next_timer st, t)], next_timer := Suc (next_timer st)\<rparr>"

definition clear_timer :: "nat \<Rightarrow> 'i process_state \<Rightarrow> 'i process_state" where
  "clear_timer n st = st\<lparr>timers := filter (\<lambda>(k, t). k \<noteq> n) (timers st)\<rparr>"

definition nextTick :: "'i process_state \<Rightarrow> 'i \<Rightarrow> 'i process_state" where
  "nextTick st item =
     (let st = st\<lparr>queue := queue st @ [item], given := given st @ [item]\<rparr>
      in if length (queue st) = 1 \<and> \<not> draining st then set_timer TDrain st else st)"

text \<open>\<open>Item.prototype.run\<close>: the item hands its items to \<open>nextTick\<close>; the result says whether it raises.\<close>

definition run_item :: "'i body \<Rightarrow> 'i \<Rightarrow> 'i process_state \<Rightarrow> 'i process_state \<times> bool" where
  "run_item body item st =
     (let (news, raises) = body item
      in (foldl nextTick (st\<lparr>ran := ran st @ [item]\<rparr>) news, raises))"

text \<open>
  The loops of \<open>drainQueue\<close>, one test of the inner loop at a time. The flag of the result is
  true when an item raised an exception, which leaves the function.
\<close>

partial_function (option) drain_loop ::
  "'i body \<Rightarrow> nat \<Rightarrow> 'i process_state \<Rightarrow> ('i process_state \<times> bool) option"
where
  "drain_loop body len st =
     (let st = st\<lparr>queueIndex := queueIndex st + 1\<rparr>
      in if queueIndex st < int len
         then (case currentQueue st of
                 Some cq \<Rightarrow>
                   (let (st', raised) = run_item body (cq ! nat (queueIndex st)) st
                    in if raised then Some (st', True) else drain_loop body len st')
               | None \<Rightarrow> drain_loop body len st)
         else
           let st = st\<lparr>queueIndex := - 1\<rparr>; len = length (queue st)
           in if len = 0 then Some (st, False)
              else drain_loop body len (st\<lparr>currentQueue := Some (queue st), queue := []\<rparr>))"

declare drain_loop.simps [code]

definition drainQueue :: "'i body \<Rightarrow> 'i process_state \<Rightarrow> ('i process_state \<times> bool) option" where
  "drainQueue body st =
     (if draining st then Some (st, False)
      else
        let timeout = next_timer st;
            st = (set_timer TCleanUp st)\<lparr>draining := True\<rparr>
        in if length (queue st) = 0
           then Some (clear_timer timeout (st\<lparr>currentQueue := None, draining := False\<rparr>), False)
           else Option.bind
             (drain_loop body (length (queue st)) (st\<lparr>currentQueue := Some (queue st), queue := []\<rparr>))
             (\<lambda>(st, raised).
               if raised then Some (st, True)
               else Some (clear_timer timeout (st\<lparr>currentQueue := None, draining := False\<rparr>), False)))"

definition cleanUpNextTick :: "'i body \<Rightarrow> 'i process_state \<Rightarrow> ('i process_state \<times> bool) option" where
  "cleanUpNextTick body st =
     (case currentQueue st of
        None \<Rightarrow> Some (st, False)
      | Some cq \<Rightarrow>
          if \<not> draining st then Some (st, False)
          else
            let st = st\<lparr>draining := False\<rparr>;
                st = (if cq \<noteq> [] then st\<lparr>queue := cq @ queue st\<rparr> else st\<lparr>queueIndex := - 1\<rparr>)
            in if queue st \<noteq> [] then drainQueue body st else Some (st, False))"

text \<open>The remaining functions of the module.\<close>

definition process_binding :: "string \<Rightarrow> timer_error" where
  "process_binding name = NotDefined ''process.binding is not supported''"

definition process_chdir :: "string \<Rightarrow> timer_error" where
  "process_chdir dir = NotDefined ''process.chdir is not supported''"

definition process_umask :: nat where
  "process_umask = 0"

section \<open>The event loop\<close>

definition initial :: "'i process_state" where
  "initial = \<lparr>queue = [], draining = False, currentQueue = None, queueIndex = - 1, timers = [],
     next_timer = 0, ran = [], given = []\<rparr>"

text \<open>A timer fires: it is no longer pending, and its function runs to its end or exception.\<close>

definition fire :: "'i body \<Rightarrow> nat \<times> timer \<Rightarrow> 'i process_state \<Rightarrow> ('i process_state \<times> bool) option" where
  "fire body t st =
     (let st = clear_timer (fst t) st
      in case snd t of TDrain \<Rightarrow> drainQueue body st | TCleanUp \<Rightarrow> cleanUpNextTick body st)"

inductive reachable :: "'i body \<Rightarrow> 'i process_state \<Rightarrow> bool" for body where
  reach_initial: "reachable body initial"
| reach_nextTick: "reachable body st \<Longrightarrow> reachable body (nextTick st item)"
| reach_fire: "reachable body st \<Longrightarrow> t \<in> set (timers st) \<Longrightarrow> fire body t st = Some (st', raised) \<Longrightarrow>
    reachable body st'"

section \<open>No item is lost, repeated or run out of order\<close>

text \<open>The items that have been handed over and not been run.\<close>

definition pending :: "'i process_state \<Rightarrow> 'i list" where
  "pending st =
     (case currentQueue st of None \<Rightarrow> [] | Some cq \<Rightarrow> drop (nat (queueIndex st + 1)) cq) @ queue st"

definition timers_ok :: "'i process_state \<Rightarrow> bool" where
  "timers_ok st \<longleftrightarrow> distinct (map fst (timers st)) \<and> (\<forall>t \<in> set (timers st). fst t < next_timer st)"

text \<open>
  The states between two turns of the event loop: idle, with a timer that drains the queue
  when there is something in it, or interrupted by an exception, with a timer that goes on
  behind the item that raised it.
\<close>

definition process_ok :: "'i process_state \<Rightarrow> bool" where
  "process_ok st \<longleftrightarrow>
     ran st @ pending st = given st \<and> timers_ok st \<and>
     (if draining st
      then (\<exists>cq. currentQueue st = Some cq \<and> 0 \<le> queueIndex st \<and> queueIndex st < int (length cq)) \<and>
           TCleanUp \<in> snd ` set (timers st)
      else currentQueue st = None \<and> queueIndex st = - 1 \<and>
           (queue st \<noteq> [] \<longrightarrow> TDrain \<in> snd ` set (timers st)))"

text \<open>The state at the head of the inner loop.\<close>

definition loop_ok :: "nat \<Rightarrow> 'i process_state \<Rightarrow> bool" where
  "loop_ok len st \<longleftrightarrow>
     ran st @ pending st = given st \<and> timers_ok st \<and> draining st \<and> TCleanUp \<in> snd ` set (timers st) \<and>
     (\<exists>cq. currentQueue st = Some cq \<and> len = length cq \<and> - 1 \<le> queueIndex st \<and> queueIndex st < int len)"

definition loop_post :: "'i process_state \<times> bool \<Rightarrow> bool" where
  "loop_post res \<longleftrightarrow>
     (let (st, raised) = res
      in if raised then draining st \<and> process_ok st
         else queue st = [] \<and> queueIndex st = - 1 \<and> ran st = given st \<and> timers_ok st)"

lemma nextTick_draining:
  "draining st \<Longrightarrow> nextTick st i = st\<lparr>queue := queue st @ [i], given := given st @ [i]\<rparr>"
  by (simp add: nextTick_def Let_def)

lemma foldl_nextTick_draining:
  "draining st \<Longrightarrow> foldl nextTick st news = st\<lparr>queue := queue st @ news, given := given st @ news\<rparr>"
  by (induction news arbitrary: st) (simp_all add: nextTick_draining)

lemma run_item_draining:
  "draining st \<Longrightarrow> run_item body i st =
     (st\<lparr>ran := ran st @ [i], queue := queue st @ fst (body i), given := given st @ fst (body i)\<rparr>, snd (body i))"
  by (simp add: run_item_def foldl_nextTick_draining split: prod.split)

lemma loop_ok_item:
  fixes body :: "'i body"
  assumes ok: "loop_ok len st" and less: "queueIndex st + 1 < int len" and cq: "currentQueue st = Some cq"
  defines "st1 \<equiv> st\<lparr>queueIndex := queueIndex st + 1\<rparr>"
  defines "st2 \<equiv> fst (run_item body (cq ! nat (queueIndex st1)) st1)"
  shows "loop_ok len st2" and "process_ok st2" and "draining st2"
proof -
  define k where "k = nat (queueIndex st + 1)"
  have dr: "draining st1" and k: "k < length cq" "queueIndex st1 = int k" and len: "len = length cq"
    and all: "ran st @ drop k cq @ queue st = given st"
    using ok less cq by (auto simp: loop_ok_def st1_def k_def pending_def)
  have st2: "st2 = st1\<lparr>ran := ran st @ [cq ! k], queue := queue st @ fst (body (cq ! k)),
      given := given st @ fst (body (cq ! k))\<rparr>"
    using run_item_draining [OF dr, of body "cq ! k"] by (simp add: st2_def st1_def k_def)
  have "nat (int k + 1) = Suc k" by simp
  moreover have "drop k cq = cq ! k # drop (Suc k) cq" using k by (simp add: Cons_nth_drop_Suc)
  ultimately have "ran st2 @ pending st2 = given st2"
    using all k cq by (simp add: st2 pending_def st1_def)
  then show "loop_ok len st2" "process_ok st2" "draining st2"
    using ok cq k len by (simp_all add: loop_ok_def process_ok_def timers_ok_def st2 st1_def)
qed

lemma loop_ok_next:
  assumes ok: "loop_ok len st" and "\<not> queueIndex st + 1 < int len"
  shows "if queue st = [] then loop_post (st\<lparr>queueIndex := - 1\<rparr>, False)
    else loop_ok (length (queue st)) (st\<lparr>queueIndex := - 1, currentQueue := Some (queue st), queue := []\<rparr>)"
  using assms by (auto simp: loop_ok_def loop_post_def pending_def timers_ok_def)

lemma drain_loop_post:
  assumes "drain_loop body len st = Some res" and "loop_ok len st"
  shows "loop_post res"
proof -
  have "loop_ok len st \<longrightarrow> loop_post res"
    using assms(1)
  proof (rule drain_loop.raw_induct [where P = "\<lambda>body len st res. loop_ok len st \<longrightarrow> loop_post res", rotated], intro impI)
    fix loop :: "'a body \<Rightarrow> nat \<Rightarrow> 'a process_state \<Rightarrow> ('a process_state \<times> bool) option"
    fix body len st res
    assume IH: "\<And>body len st res. loop body len st = Some res \<Longrightarrow> loop_ok len st \<longrightarrow> loop_post res"
      and ok: "loop_ok len st"
      and res: "(let st = st\<lparr>queueIndex := queueIndex st + 1\<rparr>
        in if queueIndex st < int len
           then (case currentQueue st of
               None \<Rightarrow> loop body len st
             | Some cq \<Rightarrow> let (st', raised) = run_item body (cq ! nat (queueIndex st)) st
                 in if raised then Some (st', True) else loop body len st')
           else let st = st\<lparr>queueIndex := - 1\<rparr>; len = length (queue st)
             in if len = 0 then Some (st, False)
                else loop body len (st\<lparr>currentQueue := Some (queue st), queue := []\<rparr>)) = Some res"
    obtain cq where cq: "currentQueue st = Some cq" using ok by (auto simp: loop_ok_def)
    show "loop_post res"
    proof (cases "queueIndex st + 1 < int len")
      case True
      show ?thesis
        using res True cq loop_ok_item [OF ok True cq, of body] IH
        by (auto simp: Let_def loop_post_def split: prod.splits if_split_asm)
    next
      case False
      then show ?thesis
        using res loop_ok_next [OF ok False] IH by (auto simp: Let_def split: if_split_asm)
    qed
  qed
  then show ?thesis using assms(2) by blast
qed

lemma timers_ok_set: "timers_ok st \<Longrightarrow> timers_ok (set_timer t st)"
  by (auto simp: timers_ok_def set_timer_def less_Suc_eq)

lemma timers_ok_clear: "timers_ok st \<Longrightarrow> timers_ok (clear_timer n st)"
  by (auto simp: timers_ok_def clear_timer_def intro: distinct_map_filter)

lemma drainQueue_ok:
  assumes "\<not> draining st" and "timers_ok st" and "queue st \<noteq> []" and "- 1 \<le> queueIndex st"
    and "queueIndex st < int (length (queue st))"
    and "ran st @ drop (nat (queueIndex st + 1)) (queue st) = given st"
    and "drainQueue body st = Some (st', raised)"
  shows "process_ok st'"
proof -
  let ?st = "(set_timer TCleanUp st)\<lparr>draining := True, currentQueue := Some (queue st), queue := []\<rparr>"
  have ok: "loop_ok (length (queue st)) ?st"
    using assms timers_ok_set [OF assms(2), of TCleanUp]
    by (auto simp: loop_ok_def pending_def set_timer_def timers_ok_def)
  obtain st1 raised1 where loop: "drain_loop body (length (queue st)) ?st = Some (st1, raised1)"
    and res: "(if raised1 then Some (st1, True)
      else Some (clear_timer (next_timer st) (st1\<lparr>currentQueue := None, draining := False\<rparr>), False)) = Some (st', raised)"
    using assms(1,3,7) by (auto simp: drainQueue_def Let_def set_timer_def bind_eq_Some_conv)
  have post: "loop_post (st1, raised1)" by (rule drain_loop_post [OF loop ok])
  show ?thesis
  proof (cases raised1)
    case True
    then show ?thesis using post res by (simp add: loop_post_def)
  next
    case False
    then have "st' = clear_timer (next_timer st) (st1\<lparr>currentQueue := None, draining := False\<rparr>)"
      using res by simp
    moreover have "timers_ok (clear_timer (next_timer st) (st1\<lparr>currentQueue := None, draining := False\<rparr>))"
      using post False by (intro timers_ok_clear) (simp add: loop_post_def timers_ok_def)
    ultimately show ?thesis
      using post False by (simp add: loop_post_def process_ok_def pending_def clear_timer_def)
  qed
qed

lemma nextTick_ok: "process_ok st \<Longrightarrow> process_ok (nextTick st item)"
  by (cases "currentQueue st")
    (auto simp: process_ok_def nextTick_def pending_def set_timer_def timers_ok_def less_Suc_eq Let_def
      split: if_split_asm)

lemma in_clear_timer:
  assumes "timers_ok st" "t \<in> set (timers st)" "x \<in> set (timers st)" "snd x \<noteq> snd t"
  shows "x \<in> set (timers (clear_timer (fst t) st))"
proof -
  have "fst x \<noteq> fst t"
    using assms unfolding timers_ok_def by (auto simp: distinct_map inj_on_def)
  then show ?thesis using assms(3) by (auto simp: clear_timer_def split: prod.split)
qed

lemma clear_fields [simp]:
  "queue (clear_timer n st) = queue st" "draining (clear_timer n st) = draining st"
  "currentQueue (clear_timer n st) = currentQueue st" "queueIndex (clear_timer n st) = queueIndex st"
  "ran (clear_timer n st) = ran st" "given (clear_timer n st) = given st"
  "pending (clear_timer n st) = pending st"
  by (simp_all add: clear_timer_def pending_def split: option.split)

lemma clear_timer_ok:
  assumes ok: "process_ok st" and t: "t \<in> set (timers st)"
    and other: "snd t \<noteq> (if draining st then TCleanUp else TDrain) \<or> \<not> draining st \<and> queue st = []"
  shows "process_ok (clear_timer (fst t) st)"
proof -
  have tok: "timers_ok st" using ok by (simp add: process_ok_def)
  have keep: "k \<in> snd ` set (timers (clear_timer (fst t) st))"
    if "k \<in> snd ` set (timers st)" "k \<noteq> snd t" for k
    using in_clear_timer [OF tok t] that by force
  show ?thesis
    using ok other keep [of TDrain] keep [of TCleanUp] timers_ok_clear [OF tok, of "fst t"]
    by (cases "draining st"; cases "queue st = []") (simp_all add: process_ok_def)
qed

lemma fire_ok:
  assumes ok: "process_ok st" and t: "t \<in> set (timers st)" and fire: "fire body t st = Some (st', raised)"
  shows "process_ok st'"
proof -
  let ?st = "clear_timer (fst t) st"
  have tok: "timers_ok ?st" using ok by (intro timers_ok_clear) (simp add: process_ok_def)
  consider "snd t = TDrain" "draining st" | "snd t = TDrain" "\<not> draining st"
    | "snd t = TCleanUp" "draining st" | "snd t = TCleanUp" "\<not> draining st"
    by (metis timer.exhaust)
  then show ?thesis
  proof cases
    case 1
    then have "st' = ?st" using fire by (simp add: fire_def drainQueue_def)
    then show ?thesis using clear_timer_ok [OF ok t] 1 by simp
  next
    case 2
    then have idle: "currentQueue st = None" "queueIndex st = - 1" "ran st @ queue st = given st"
      using ok by (auto simp: process_ok_def pending_def)
    show ?thesis
    proof (cases "queue st = []")
      case True
      have "st' = clear_timer (next_timer ?st) ((set_timer TCleanUp ?st)\<lparr>currentQueue := None, draining := False\<rparr>)"
        using fire 2 True by (simp add: fire_def drainQueue_def Let_def set_timer_def)
      moreover have "timers_ok (clear_timer (next_timer ?st) ((set_timer TCleanUp ?st)\<lparr>currentQueue := None, draining := False\<rparr>))"
        by (intro timers_ok_clear) (use timers_ok_set [OF tok, of TCleanUp] in \<open>simp add: timers_ok_def\<close>)
      ultimately show ?thesis
        using idle 2 True by (simp add: process_ok_def pending_def set_timer_def)
    next
      case False
      have "drainQueue body ?st = Some (st', raised)" using fire 2 by (simp add: fire_def)
      then show ?thesis
        using drainQueue_ok [of ?st body st' raised] idle 2 False tok by simp
    qed
  next
    case 3
    then obtain cq where cq: "currentQueue st = Some cq" "0 \<le> queueIndex st" "queueIndex st < int (length cq)"
      using ok by (auto simp: process_ok_def)
    let ?st1 = "?st\<lparr>draining := False, queue := cq @ queue st\<rparr>"
    have "cq \<noteq> []" using cq by auto
    then have "drainQueue body ?st1 = Some (st', raised)"
      using fire 3 cq by (simp add: fire_def cleanUpNextTick_def Let_def)
    moreover have "ran st @ drop (nat (queueIndex st + 1)) (cq @ queue st) = given st"
      using ok cq by (simp add: process_ok_def pending_def)
    moreover have "timers_ok ?st1" using tok by (simp add: timers_ok_def)
    ultimately show ?thesis
      using drainQueue_ok [of ?st1 body st' raised] cq \<open>cq \<noteq> []\<close> by simp
  next
    case 4
    then have "st' = ?st" using fire ok by (simp add: fire_def cleanUpNextTick_def process_ok_def)
    then show ?thesis using clear_timer_ok [OF ok t] 4 by simp
  qed
qed

lemma reachable_ok: "reachable body st \<Longrightarrow> process_ok st"
proof (induction rule: reachable.induct)
  case reach_initial
  then show ?case by (simp add: initial_def process_ok_def pending_def timers_ok_def)
qed (auto intro: nextTick_ok fire_ok)

section \<open>Draining returns\<close>

text \<open>
  Items with a weight that is greater than the weights of the items they hand over, together:
  the work is finite.
\<close>

definition finite_work :: "('i \<Rightarrow> nat) \<Rightarrow> 'i body \<Rightarrow> bool" where
  "finite_work w body \<longleftrightarrow> (\<forall>i. sum_list (map w (fst (body i))) < w i)"

definition work :: "('i \<Rightarrow> nat) \<Rightarrow> 'i process_state \<Rightarrow> nat" where
  "work w st = sum_list (map w (pending st))"

lemma run_item_less_work:
  assumes fin: "finite_work w body" and ok: "loop_ok (length cq) st" and cq: "currentQueue st = Some cq"
    and less: "queueIndex st + 1 < int (length cq)"
  shows "work w (fst (run_item body (cq ! nat (queueIndex st + 1)) (st\<lparr>queueIndex := queueIndex st + 1\<rparr>))) < work w st"
proof -
  define k where "k = nat (queueIndex st + 1)"
  have k: "k < length cq" "queueIndex st + 1 = int k" using less ok by (auto simp: loop_ok_def k_def)
  have dr: "draining (st\<lparr>queueIndex := int k\<rparr>)" using ok by (simp add: loop_ok_def)
  have "nat (int k + 1) = Suc k" by simp
  moreover have "drop k cq = cq ! k # drop (Suc k) cq" using k by (simp add: Cons_nth_drop_Suc)
  moreover have "sum_list (map w (fst (body (cq ! k)))) < w (cq ! k)" using fin by (simp add: finite_work_def)
  ultimately show ?thesis
    using cq by (simp add: k(2) run_item_draining [OF dr] work_def pending_def)
qed

lemma drain_loop_item:
  assumes cq: "currentQueue st = Some cq" and less: "queueIndex st + 1 < int (length cq)"
    and rest: "\<exists>res. drain_loop body (length cq)
      (fst (run_item body (cq ! nat (queueIndex st + 1)) (st\<lparr>queueIndex := queueIndex st + 1\<rparr>))) = Some res"
  shows "\<exists>res. drain_loop body (length cq) st = Some res"
  using rest cq less by (subst drain_loop.simps) (auto simp: Let_def split: prod.splits)

lemma drain_loop_returns:
  assumes fin: "finite_work w body" and "loop_ok len st"
  shows "\<exists>res. drain_loop body len st = Some res"
  using assms(2)
proof (induction "work w st" arbitrary: len st rule: less_induct)
  case less
  have item: "\<exists>res. drain_loop body (length cq) st' = Some res"
    if "loop_ok (length cq) st'" "currentQueue st' = Some cq" "queueIndex st' + 1 < int (length cq)"
      "work w st' = work w st" for st' cq
  proof (rule drain_loop_item [OF that(2,3)], rule less.hyps)
    show "work w (fst (run_item body (cq ! nat (queueIndex st' + 1)) (st'\<lparr>queueIndex := queueIndex st' + 1\<rparr>))) < work w st"
      using run_item_less_work [OF fin that(1-3)] that(4) by simp
    show "loop_ok (length cq) (fst (run_item body (cq ! nat (queueIndex st' + 1)) (st'\<lparr>queueIndex := queueIndex st' + 1\<rparr>)))"
      using loop_ok_item(1) [OF that(1,3,2), of body] by simp
  qed
  obtain cq where cq: "currentQueue st = Some cq" and len: "len = length cq"
    using less.prems by (auto simp: loop_ok_def)
  show ?case
  proof (cases "queueIndex st + 1 < int len")
    case True
    then show ?thesis using item [of cq st] less.prems cq len by simp
  next
    case False
    let ?st = "st\<lparr>queueIndex := - 1, currentQueue := Some (queue st), queue := []\<rparr>"
    have "work w ?st = work w st"
      using less.prems False cq len by (auto simp: work_def pending_def loop_ok_def)
    then have "\<exists>res. drain_loop body (length (queue st)) ?st = Some res" if "queue st \<noteq> []"
      using item [of "queue st" ?st] loop_ok_next [OF less.prems False] that by simp
    then show ?thesis
      using False by (subst drain_loop.simps) (auto simp: Let_def)
  qed
qed

lemma drainQueue_returns:
  assumes fin: "finite_work w body"
    and "\<not> draining st" and "timers_ok st" and "queue st \<noteq> []" and "- 1 \<le> queueIndex st"
    and "queueIndex st < int (length (queue st))"
    and "ran st @ drop (nat (queueIndex st + 1)) (queue st) = given st"
  shows "\<exists>st' raised. drainQueue body st = Some (st', raised) \<and> (raised \<or> pending st' = [])"
proof -
  let ?st = "(set_timer TCleanUp st)\<lparr>draining := True, currentQueue := Some (queue st), queue := []\<rparr>"
  have ok: "loop_ok (length (queue st)) ?st"
    using assms timers_ok_set [OF assms(3), of TCleanUp]
    by (auto simp: loop_ok_def pending_def set_timer_def timers_ok_def)
  then obtain st1 raised1 where loop: "drain_loop body (length (queue st)) ?st = Some (st1, raised1)"
    using drain_loop_returns [OF fin ok] by auto
  have "loop_post (st1, raised1)" by (rule drain_loop_post [OF loop ok])
  with loop assms(2,4) show ?thesis
    by (auto simp: drainQueue_def Let_def set_timer_def loop_post_def pending_def)
qed

lemma fire_returns:
  assumes fin: "finite_work w body" and ok: "process_ok st" and t: "t \<in> set (timers st)"
    and due: "snd t = (if draining st then TCleanUp else TDrain)"
  shows "\<exists>st' raised. fire body t st = Some (st', raised) \<and> (raised \<or> pending st' = [])"
proof -
  let ?st = "clear_timer (fst t) st"
  have tok: "timers_ok ?st" using ok by (intro timers_ok_clear) (simp add: process_ok_def)
  show ?thesis
  proof (cases "draining st")
    case True
    then obtain cq where cq: "currentQueue st = Some cq" "0 \<le> queueIndex st" "queueIndex st < int (length cq)"
      using ok by (auto simp: process_ok_def)
    let ?st1 = "?st\<lparr>draining := False, queue := cq @ queue st\<rparr>"
    have "cq \<noteq> []" using cq by auto
    moreover have "ran st @ drop (nat (queueIndex st + 1)) (cq @ queue st) = given st"
      using ok cq by (simp add: process_ok_def pending_def)
    moreover have "timers_ok ?st1" using tok by (simp add: timers_ok_def)
    ultimately have "\<exists>st' raised. drainQueue body ?st1 = Some (st', raised) \<and> (raised \<or> pending st' = [])"
      using drainQueue_returns [OF fin, of ?st1] cq by simp
    then show ?thesis
      using True due cq \<open>cq \<noteq> []\<close> by (simp add: fire_def cleanUpNextTick_def Let_def)
  next
    case False
    then have idle: "currentQueue st = None" "queueIndex st = - 1" "ran st @ queue st = given st"
      using ok by (auto simp: process_ok_def pending_def)
    show ?thesis
    proof (cases "queue st = []")
      case True
      then show ?thesis
        using False due idle by (auto simp: fire_def drainQueue_def Let_def set_timer_def pending_def)
    next
      case ne: False
      then show ?thesis
        using drainQueue_returns [OF fin, of ?st] False due idle tok by (simp add: fire_def)
    qed
  qed
qed

section \<open>Theorems\<close>

text \<open>
  C5. In every reachable state the items that have been run, followed by those that are
  still pending, are exactly the items handed to \<open>nextTick\<close>, in that order: no item is
  lost, run twice or overtaken, also when items raise exceptions or hand over new items.
\<close>

theorem process_runs_in_order:
  assumes "reachable body st"
  shows "ran st @ pending st = given st"
  using reachable_ok [OF assms] by (simp add: process_ok_def)

theorem process_runs_in_order_witness:
  "ran (nextTick initial (1::nat)) @ pending (nextTick initial 1) = given (nextTick initial 1)"
  by (rule process_runs_in_order [of "\<lambda>i. ([], False)", OF reach_nextTick [OF reach_initial]])

text \<open>
  C31. In every reachable state with pending items a timer is set that goes on with them: the
  one that drains the queue, or after an exception the one that cleans up.
\<close>

theorem process_never_stalls:
  assumes "reachable body st" and "pending st \<noteq> []"
  shows "(if draining st then TCleanUp else TDrain) \<in> snd ` set (timers st)"
  using reachable_ok [OF assms(1)] assms(2)
  by (auto simp: process_ok_def pending_def split: if_split_asm)

theorem process_never_stalls_witness:
  "(if draining (nextTick initial (1::nat)) then TCleanUp else TDrain) \<in> snd ` set (timers (nextTick initial 1))"
  using process_never_stalls [of "\<lambda>i. ([], False)", OF reach_nextTick [OF reach_initial], of 1]
  by (simp add: pending_def nextTick_def initial_def set_timer_def)

text \<open>
  When the work is finite, the turn of that timer returns, and unless an item raised an
  exception all items have been run then.
\<close>

theorem process_turn_returns:
  assumes "finite_work w body" and "reachable body st" and "t \<in> set (timers st)"
    and "snd t = (if draining st then TCleanUp else TDrain)"
  shows "\<exists>st' raised. fire body t st = Some (st', raised) \<and> (raised \<or> pending st' = [])"
  by (rule fire_returns [OF assms(1) reachable_ok [OF assms(2)] assms(3,4)])

theorem process_turn_returns_witness:
  "\<exists>st' raised. fire (\<lambda>i. (if i = 2 then [1, 1] else [], False)) (0, TDrain) (nextTick initial (2::nat)) = Some (st', raised) \<and>
     (raised \<or> pending st' = [])"
  using process_turn_returns [of "\<lambda>i. if i = 2 then 3 else 1" "\<lambda>i. (if i = 2 then [1, 1] else [], False)"
      "nextTick initial (2::nat)" "(0, TDrain)"]
    reach_nextTick [OF reach_initial, of "\<lambda>i. (if i = 2 then [1, 1] else [], False)" "2::nat"]
  by (simp add: finite_work_def nextTick_def initial_def set_timer_def)

text \<open>
  When the global timer function was a function at the start and still is the same, it is
  called without a receiver, and only its own exception can occur; when it was missing at the
  start and is a function now, it is taken over.
\<close>

lemma process_timer_choice:
  "runTimeout invoke (cache_global g) (Some (Function f)) =
     (if g = Some (Function f) \<or> (\<forall>h. g \<noteq> Some (Function h))
      then (CValue (Function f), invoke f NoReceiver)
      else (cache_global g, case g of
        Some (Function h) \<Rightarrow>
          (case invoke h NoReceiver of None \<Rightarrow> None
           | Some _ \<Rightarrow> (case invoke h NullReceiver of None \<Rightarrow> None | Some _ \<Rightarrow> invoke h ThisReceiver))
      | _ \<Rightarrow> None))"
  by (auto simp: runTimeout_def run_timer_def cache_global_def call_value_def call_cached_def
      split: option.splits gvalue.splits)

end
