(* ===== verification/Callbacks.thy ===== *)
theory Callbacks
  imports JS_Prelude
begin

text \<open>
  The small modules of \<open>wordcut.js\<close> that deal with callbacks: \<open>once\<close> (lines 4041 to 4083),
  \<open>inflight\<close> (lines 3033 to 3088), \<open>wrappy\<close> (lines 6672 to 6705) and \<open>inherits\<close> (lines 3091
  to 3114).

  \<^item> A function made by \<open>once\<close> is a cell with its properties \<open>called\<close> and \<open>value\<close>. The wrapped
    function is a parameter that transforms the whole world, the cell included, so it may
    call the function made by \<open>once\<close> again.
  \<^item> \<open>inflight\<close> keeps the callbacks of a key until the response arrives. What a callback does
    is a parameter: the further calls of \<open>inflight\<close> it makes and whether it raises.
  \<^item> \<open>wrappy\<close> and \<open>inherits\<close> work on function objects: a heap of objects with a prototype and
    properties in insertion order.
\<close>

section \<open>once\<close>

record 'v once_cell =
  called :: bool
  cell_value :: "'v option"

type_synonym ('a, 'v, 'w) func =
  "'a \<Rightarrow> 'v once_cell \<times> 'w \<Rightarrow> ('v once_cell \<times> 'w) \<times> (js_error + 'v option)"

definition once_new :: "'v once_cell" where
  "once_new = \<lparr>called = False, cell_value = None\<rparr>"

text \<open>The call of the wrapped function and the assignment of its value.\<close>

definition once_run :: "('a, 'v, 'w) func \<Rightarrow> ('a, 'v, 'w) func" where
  "once_run fn args st =
     (let (st', r) = fn args ((fst st)\<lparr>called := True\<rparr>, snd st)
      in case r of
           Inl e \<Rightarrow> (st', Inl e)
         | Inr v \<Rightarrow> (((fst st')\<lparr>cell_value := v\<rparr>, snd st'), Inr v))"

definition once_call :: "('a, 'v, 'w) func \<Rightarrow> ('a, 'v, 'w) func" where
  "once_call fn args st =
     (if called (fst st) then (st, Inr (cell_value (fst st))) else once_run fn args st)"

definition onceError :: "string \<Rightarrow> string" where
  "onceError name =
     (if name = '''' then ''Function wrapped with `once`'' else name) @ '' shouldn't be called more than once''"

definition onceStrict_call :: "string \<Rightarrow> ('a, 'v, 'w) func \<Rightarrow> ('a, 'v, 'w) func" where
  "onceStrict_call name fn args st =
     (if called (fst st) then (st, Inl (JsError (onceError name))) else once_run fn args st)"

text \<open>A sequence of calls; exceptions are caught by the caller.\<close>

fun calls :: "('a, 'v, 'w) func \<Rightarrow> 'a list \<Rightarrow> 'v once_cell \<times> 'w \<Rightarrow>
    ('v once_cell \<times> 'w) \<times> (js_error + 'v option) list" where
  "calls f [] st = (st, [])"
| "calls f (a # as) st = (let (st1, r) = f a st; (st2, rs) = calls f as st1 in (st2, r # rs))"

text \<open>A wrapped function that does not reset the cell: it has no access to it but by calling.\<close>

definition keeps_called :: "('a, 'v, 'w) func \<Rightarrow> bool" where
  "keeps_called fn \<longleftrightarrow> (\<forall>args st. called (fst st) \<longrightarrow> called (fst (fst (fn args st))))"

lemma once_run_called: "keeps_called fn \<Longrightarrow> called (fst (fst (once_run fn args st)))"
  by (auto simp: once_run_def keeps_called_def Let_def split: prod.splits sum.splits)
    (metis fst_conv once_cell.select_convs(1) once_cell.surjective once_cell.update_convs(1))+

section \<open>inflight\<close>

type_synonym ('k, 'c) callbacks = "'c \<Rightarrow> ('k \<times> 'c) list \<times> bool"

record ('k, 'c) inflight_state =
  reqs :: "'k \<Rightarrow> 'c list option"
  ticks :: "'k list"
  handles :: "'k list"
  registered :: "('k \<times> 'c) list"
  answered :: "('k \<times> 'c) list"

text \<open>
  \<open>inflight\<close>: true when the caller gets a function for the response, false for \<open>null\<close>. The
  field \<open>handles\<close> has the keys whose function has not been called; as it is made by \<open>once\<close>,
  only its first call does something. \<open>registered\<close> and \<open>answered\<close> record the callbacks given
  and called.
\<close>

definition inflight :: "('k, 'c) inflight_state \<Rightarrow> 'k \<Rightarrow> 'c \<Rightarrow> ('k, 'c) inflight_state \<times> bool" where
  "inflight st key cb =
     (let st = st\<lparr>registered := registered st @ [(key, cb)]\<rparr>
      in case reqs st key of
           Some cbs \<Rightarrow> (st\<lparr>reqs := (reqs st)(key \<mapsto> cbs @ [cb])\<rparr>, False)
         | None \<Rightarrow> (st\<lparr>reqs := (reqs st)(key \<mapsto> [cb]), handles := handles st @ [key]\<rparr>, True))"

definition inflight_each :: "('k, 'c) inflight_state \<Rightarrow> ('k \<times> 'c) list \<Rightarrow> ('k, 'c) inflight_state" where
  "inflight_each st rs = foldl (\<lambda>st (k, c). fst (inflight st k c)) st rs"

text \<open>
  The loop over the callbacks: each is called in turn, its own calls of \<open>inflight\<close> come at
  the end of the arrays, and an exception leaves the loop. The array is the one of \<open>reqs\<close>,
  since only the end of \<open>RES\<close> removes it from there.
\<close>

fun call_all :: "('k, 'c) callbacks \<Rightarrow> 'k \<Rightarrow> 'c list \<Rightarrow> ('k, 'c) inflight_state \<Rightarrow> ('k, 'c) inflight_state \<times> bool" where
  "call_all body key [] st = (st, False)"
| "call_all body key (cb # cbs) st =
     (let (more, raises) = body cb;
          st = st\<lparr>answered := answered st @ [(key, cb)]\<rparr>;
          st = inflight_each st more
      in if raises then (st, True) else call_all body key cbs st)"

text \<open>
  \<open>RES\<close>, with its \<open>finally\<close> part. Reading the length of the missing array of a key raises a
  TypeError.
\<close>

definition RES :: "('k, 'c) callbacks \<Rightarrow> 'k \<Rightarrow> ('k, 'c) inflight_state \<Rightarrow> js_error + ('k, 'c) inflight_state \<times> bool" where
  "RES body key st =
     (case reqs st key of
        None \<Rightarrow> Inl (TypeError ''cannot read properties of undefined'')
      | Some cbs \<Rightarrow>
          let len = length cbs;
              (st, raised) = call_all body key cbs st;
              cbs' = the (reqs st key)
          in Inr (if length cbs' > len
                  then st\<lparr>reqs := (reqs st)(key \<mapsto> drop len cbs'), ticks := ticks st @ [key]\<rparr>
                  else st\<lparr>reqs := (reqs st)(key := None)\<rparr>, raised))"

text \<open>The system: the program makes requests, responses arrive, and ticks run.\<close>

inductive inflight_reachable :: "('k, 'c) callbacks \<Rightarrow> ('k, 'c) inflight_state \<Rightarrow> bool" for body where
  inflight_initial: "inflight_reachable body
    \<lparr>reqs = (\<lambda>_. None), ticks = [], handles = [], registered = [], answered = []\<rparr>"
| inflight_request: "inflight_reachable body st \<Longrightarrow> inflight_reachable body (fst (inflight st key cb))"
| inflight_response: "inflight_reachable body st \<Longrightarrow> key \<in> set (handles st) \<Longrightarrow>
    RES body key (st\<lparr>handles := remove1 key (handles st)\<rparr>) = Inr (st', raised) \<Longrightarrow> inflight_reachable body st'"
| inflight_tick: "inflight_reachable body st \<Longrightarrow> ticks st = key # ks \<Longrightarrow>
    RES body key (st\<lparr>ticks := ks\<rparr>) = Inr (st', raised) \<Longrightarrow> inflight_reachable body st'"

text \<open>
  The callbacks of a key: \<open>waiting\<close> are those in its array. A key has an array exactly when
  one response or one tick for it is to come; \<open>K\<close> are the keys whose response is being
  processed.
\<close>

definition of_key :: "'k \<Rightarrow> ('k \<times> 'c) list \<Rightarrow> 'c list" where
  "of_key key xs = map snd (filter (\<lambda>x. fst x = key) xs)"

definition waiting :: "('k, 'c) inflight_state \<Rightarrow> 'k \<Rightarrow> 'c list" where
  "waiting st key = (case reqs st key of None \<Rightarrow> [] | Some cbs \<Rightarrow> cbs)"

definition due :: "('k, 'c) inflight_state \<Rightarrow> 'k \<Rightarrow> nat" where
  "due st key = count_list (handles st) key + count_list (ticks st) key"

definition inflight_ok :: "'k set \<Rightarrow> ('k, 'c) inflight_state \<Rightarrow> bool" where
  "inflight_ok K st \<longleftrightarrow>
     (\<forall>key. due st key = (if reqs st key = None \<or> key \<in> K then 0 else 1)) \<and>
     (\<forall>key \<in> K. reqs st key \<noteq> None)"

definition accounted :: "('k, 'c) inflight_state \<Rightarrow> 'k \<Rightarrow> bool" where
  "accounted st key \<longleftrightarrow> of_key key (answered st) @ waiting st key = of_key key (registered st)"

lemma of_key_snoc [simp]: "of_key key (xs @ [(k, c)]) = of_key key xs @ (if k = key then [c] else [])"
  by (simp add: of_key_def)

lemma inflight_fields:
  "waiting (fst (inflight st key cb)) k = waiting st k @ (if k = key then [cb] else [])"
  "answered (fst (inflight st key cb)) = answered st"
  "of_key k (registered (fst (inflight st key cb))) = of_key k (registered st) @ (if k = key then [cb] else [])"
  "reqs (fst (inflight st key cb)) k = None \<longleftrightarrow> reqs st k = None \<and> k \<noteq> key"
  by (auto simp: inflight_def waiting_def Let_def split: option.split)

lemma due_inflight:
  "due (fst (inflight st key cb)) k = due st k + (if k = key \<and> reqs st key = None then 1 else 0)"
  by (simp add: due_def inflight_def Let_def split: option.split)

lemma inflight_keeps_ok: "inflight_ok K st \<Longrightarrow> inflight_ok K (fst (inflight st key cb))"
  unfolding inflight_ok_def inflight_fields(4) due_inflight by auto

text \<open>Calls of \<open>inflight\<close> only append to the arrays.\<close>

definition grows :: "('k, 'c) inflight_state \<Rightarrow> ('k, 'c) inflight_state \<Rightarrow> bool" where
  "grows st st' \<longleftrightarrow>
     (\<forall>key. \<exists>new. waiting st' key = waiting st key @ new \<and> of_key key (registered st') = of_key key (registered st) @ new)"

lemma foldl_inflight:
  assumes "inflight_ok K st"
  shows "inflight_ok K (inflight_each st extra) \<and> answered (inflight_each st extra) = answered st \<and>
    grows st (inflight_each st extra)"
  using assms unfolding inflight_each_def
proof (induction extra arbitrary: st)
  case Nil
  then show ?case by (simp add: grows_def)
next
  case (Cons p extra)
  obtain k c where p: "p = (k, c)" by (cases p)
  let ?st = "fst (inflight st k c)"
  have "grows st st2" if "grows ?st st2" for st2
    using that unfolding grows_def inflight_fields by (metis append.assoc)
  with Cons.IH [OF inflight_keeps_ok [OF Cons.prems, of k c]] show ?case
    by (simp add: p inflight_fields)
qed

lemma grows_trans: "grows a b \<Longrightarrow> grows b c \<Longrightarrow> grows a c"
  unfolding grows_def by (metis append.assoc)

lemma call_all_quiet:
  assumes "\<And>cb. \<not> snd (body cb)" and "inflight_ok K st"
  shows "\<exists>st'. call_all body key cbs st = (st', False) \<and> inflight_ok K st' \<and> grows st st' \<and>
    (\<forall>k. of_key k (answered st') = of_key k (answered st) @ (if k = key then cbs else []))"
  using assms(2)
proof (induction cbs arbitrary: st)
  case Nil
  then show ?case by (auto simp: grows_def)
next
  case (Cons cb cbs)
  let ?st1 = "st\<lparr>answered := answered st @ [(key, cb)]\<rparr>"
  let ?st2 = "inflight_each ?st1 (fst (body cb))"
  have "inflight_ok K ?st1" using Cons.prems by (simp add: inflight_ok_def due_def)
  from foldl_inflight [OF this, of "fst (body cb)"]
  have 2: "inflight_ok K ?st2" "answered ?st2 = answered st @ [(key, cb)]" "grows ?st1 ?st2" by auto
  have "grows st ?st2" using 2(3) by (simp add: grows_def waiting_def)
  moreover have "call_all body key (cb # cbs) st = call_all body key cbs ?st2"
    using assms(1) [of cb] by (cases "body cb") (simp add: Let_def)
  ultimately show ?case
    using Cons.IH [OF 2(1)] 2(2) grows_trans [of st ?st2] by auto
qed

lemma accounted_grows:
  assumes "accounted st k" and "grows st st'" and "of_key k (answered st') = of_key k (answered st)"
  shows "accounted st' k"
proof -
  obtain new where "waiting st' k = waiting st k @ new" "of_key k (registered st') = of_key k (registered st) @ new"
    using assms(2) unfolding grows_def by blast
  then show ?thesis using assms(1,3) unfolding accounted_def by (metis append.assoc)
qed

lemma RES_quiet:
  assumes quiet: "\<And>cb. \<not> snd (body cb)" and ok: "inflight_ok {key} st" and acc: "\<And>k. accounted st k"
  shows "\<exists>st'. RES body key st = Inr (st', False) \<and> inflight_ok {} st' \<and> (\<forall>k. accounted st' k)"
proof -
  obtain cbs where cbs: "reqs st key = Some cbs" using ok by (auto simp: inflight_ok_def)
  obtain st1 where st1: "call_all body key cbs st = (st1, False)" and ok1: "inflight_ok {key} st1"
    and grow: "grows st st1" and ans: "\<And>k. of_key k (answered st1) = of_key k (answered st) @ (if k = key then cbs else [])"
    using call_all_quiet [of body "{key}" st key cbs] quiet ok by blast
  obtain new where new: "waiting st1 key = cbs @ new" "of_key key (registered st1) = of_key key (registered st) @ new"
    using grow cbs unfolding grows_def by (metis option.case(2) waiting_def)
  have req: "reqs st1 key = Some (cbs @ new)"
    using ok1 new(1) by (auto simp: inflight_ok_def waiting_def)
  let ?st2 = "if new \<noteq> [] then st1\<lparr>reqs := (reqs st1)(key \<mapsto> new), ticks := ticks st1 @ [key]\<rparr>
    else st1\<lparr>reqs := (reqs st1)(key := None)\<rparr>"
  have res: "RES body key st = Inr (?st2, False)"
    using cbs st1 req by (simp add: RES_def Let_def)
  have "due st1 k = (if reqs st1 k = None \<or> k = key then 0 else 1)" for k
    using ok1 by (simp add: inflight_ok_def)
  moreover have "due ?st2 k = due st1 k + (if new \<noteq> [] \<and> k = key then 1 else 0)" for k
    by (simp add: due_def)
  ultimately have ok2: "inflight_ok {} ?st2"
    unfolding inflight_ok_def by auto
  have "accounted ?st2 k" for k
  proof (cases "k = key")
    case True
    have "of_key key (answered st) @ cbs = of_key key (registered st)"
      using acc [of key] cbs by (simp add: accounted_def waiting_def)
    then show ?thesis
      using True ans [of key] new(2) by (auto simp: accounted_def waiting_def)
  next
    case False
    then have "accounted st1 k" using accounted_grows [OF acc grow] ans [of k] by simp
    then show ?thesis using False by (simp add: accounted_def waiting_def)
  qed
  then show ?thesis using res ok2 by blast
qed

lemma count_remove1: "x \<in> set xs \<Longrightarrow> count_list xs y = count_list (remove1 x xs) y + (if y = x then 1 else 0)"
  by (induction xs) auto

lemma take_due:
  assumes ok: "inflight_ok {} st" and "reqs st' = reqs st"
    and due: "\<And>k. due st k = due st' k + (if k = key then 1 else 0)"
  shows "inflight_ok {key} st'"
proof -
  have st: "due st k = (if reqs st k = None then 0 else 1)" for k using ok by (simp add: inflight_ok_def)
  have "reqs st key \<noteq> None" "due st' key = 0" using st [of key] due [of key] by (auto split: if_split_asm)
  moreover from this have "due st' k = (if reqs st k = None \<or> k = key then 0 else 1)" for k
    using st [of k] due [of k] by (cases "k = key") auto
  ultimately show ?thesis by (auto simp: inflight_ok_def assms(2))
qed

lemma inflight_reachable_ok:
  assumes quiet: "\<And>cb. \<not> snd (body cb)"
  shows "inflight_reachable body st \<Longrightarrow> inflight_ok {} st \<and> (\<forall>k. accounted st k)"
proof (induction rule: inflight_reachable.induct)
  case inflight_initial
  then show ?case by (simp add: inflight_ok_def due_def accounted_def waiting_def of_key_def)
next
  case (inflight_request st key cb)
  have "accounted (fst (inflight st key cb)) k" for k
    using inflight_request.IH unfolding accounted_def inflight_fields by simp
  then show ?case using inflight_keeps_ok [of "{}" st key cb] inflight_request.IH by simp
next
  case (inflight_response st key st' raised)
  let ?st = "st\<lparr>handles := remove1 key (handles st)\<rparr>"
  have due: "due st k = due ?st k + (if k = key then 1 else 0)" for k
    using count_remove1 [OF inflight_response.hyps(2), of k] by (simp add: due_def)
  have "inflight_ok {key} ?st"
    using inflight_response.IH by (intro take_due [of st, OF _ _ due]) simp_all
  moreover have "accounted ?st k" for k
    using inflight_response.IH by (simp add: accounted_def waiting_def)
  ultimately show ?case using RES_quiet [of body key ?st] quiet inflight_response.hyps(3) by auto
next
  case (inflight_tick st key ks st' raised)
  let ?st = "st\<lparr>ticks := ks\<rparr>"
  have due: "due st k = due ?st k + (if k = key then 1 else 0)" for k
    using inflight_tick.hyps(2) by (simp add: due_def)
  have "inflight_ok {key} ?st"
    using inflight_tick.IH by (intro take_due [of st, OF _ _ due]) simp_all
  moreover have "accounted ?st k" for k
    using inflight_tick.IH by (simp add: accounted_def waiting_def)
  ultimately show ?case using RES_quiet [of body key ?st] quiet inflight_tick.hyps(3) by auto
qed

section \<open>Function objects\<close>

datatype jsval = JUndefined | JPrimitive nat | JObject nat

record obj =
  prototype :: "nat option"
  props :: "(string \<times> jsval \<times> bool) list"
  is_function :: bool

record heap =
  objects :: "nat \<Rightarrow> obj"
  next_object :: nat

definition keys :: "heap \<Rightarrow> nat \<Rightarrow> string list" where
  "keys h o1 = map fst (filter (\<lambda>(k, v, enum). enum) (props (objects h o1)))"

definition own_prop :: "heap \<Rightarrow> nat \<Rightarrow> string \<Rightarrow> jsval option" where
  "own_prop h o1 k = map_option fst (map_of (props (objects h o1)) k)"

definition set_prop :: "heap \<Rightarrow> nat \<Rightarrow> string \<Rightarrow> jsval \<Rightarrow> bool \<Rightarrow> heap" where
  "set_prop h o1 k v enum =
     h\<lparr>objects := (objects h)(o1 := (objects h o1)\<lparr>props :=
        (if map_of (props (objects h o1)) k = None then props (objects h o1) @ [(k, v, enum)]
         else map (\<lambda>(k', v', e'). if k' = k then (k, v, e') else (k', v', e')) (props (objects h o1)))\<rparr>)\<rparr>"

definition new_object :: "heap \<Rightarrow> nat option \<Rightarrow> heap \<times> nat" where
  "new_object h proto =
     (h\<lparr>objects := (objects h)(next_object h := \<lparr>prototype = proto, props = [], is_function = False\<rparr>),
        next_object := Suc (next_object h)\<rparr>, next_object h)"

text \<open>Copying the enumerable properties of \<open>from\<close> to \<open>to\<close>.\<close>

definition copy_props :: "heap \<Rightarrow> nat \<Rightarrow> nat \<Rightarrow> heap" where
  "copy_props h from to =
     foldl (\<lambda>h k. set_prop h to k (the (own_prop h from k)) True) h (keys h from)"

text \<open>
  The function \<open>wrapper\<close> of \<open>wrappy\<close>: \<open>call\<close> is the wrapped function on the heap. The last
  argument is undefined when there is none; \<open>Object.keys\<close> raises for undefined, and a
  primitive has no own keys here.
\<close>

definition wrapper_call :: "(jsval list \<Rightarrow> heap \<Rightarrow> heap \<times> (js_error + jsval)) \<Rightarrow>
    jsval list \<Rightarrow> heap \<Rightarrow> heap \<times> (js_error + jsval)" where
  "wrapper_call call args h =
     (let (h1, r) = call args h
      in case r of
           Inl e \<Rightarrow> (h1, Inl e)
         | Inr ret \<Rightarrow>
             let cb = (if args = [] then JUndefined else last args)
             in case ret of
                  JObject f \<Rightarrow>
                    if is_function (objects h1 f) \<and> ret \<noteq> cb
                    then (case cb of
                            JUndefined \<Rightarrow> (h1, Inl (TypeError ''cannot convert undefined to object''))
                          | JPrimitive _ \<Rightarrow> (h1, Inr ret)
                          | JObject c \<Rightarrow> (copy_props h1 c f, Inr ret))
                    else (h1, Inr ret)
                | _ \<Rightarrow> (h1, Inr ret))"

text \<open>\<open>wrappy(fn)\<close>: the new function object has the enumerable properties of \<open>fn\<close>.\<close>

definition wrappy :: "heap \<Rightarrow> jsval \<Rightarrow> heap \<times> (js_error + nat)" where
  "wrappy h fn =
     (case fn of
        JObject f \<Rightarrow>
          if is_function (objects h f)
          then let (h1, w) = new_object h None;
                   h1 = h1\<lparr>objects := (objects h1)(w := (objects h1 w)\<lparr>is_function := True\<rparr>)\<rparr>
               in (copy_props h1 f w, Inr w)
          else (h, Inl (TypeError ''need wrapper function''))
      | _ \<Rightarrow> (h, Inl (TypeError ''need wrapper function'')))"

text \<open>\<open>inherits\<close>, with \<open>Object.create\<close> and in the version for old browsers.\<close>

definition proto_prop :: "heap \<Rightarrow> nat \<Rightarrow> nat option" where
  "proto_prop h f = (case own_prop h f ''prototype'' of Some (JObject p) \<Rightarrow> Some p | _ \<Rightarrow> None)"

definition inherits :: "heap \<Rightarrow> nat \<Rightarrow> nat \<Rightarrow> js_error + heap" where
  "inherits h ctor superCtor =
     (let h = set_prop h ctor ''super_'' (JObject superCtor) True
      in case proto_prop h superCtor of
           None \<Rightarrow> Inl (TypeError ''Object prototype may only be an Object or null'')
         | Some sp \<Rightarrow>
             let (h, p) = new_object h (Some sp);
                 h = set_prop h p ''constructor'' (JObject ctor) False
             in Inr (set_prop h ctor ''prototype'' (JObject p) False))"

text \<open>Without an object as prototype, \<open>new\<close> takes \<open>Object.prototype\<close>.\<close>

definition inherits_shim :: "nat \<Rightarrow> heap \<Rightarrow> nat \<Rightarrow> nat \<Rightarrow> heap" where
  "inherits_shim object_prototype h ctor superCtor =
     (let h = set_prop h ctor ''super_'' (JObject superCtor) True;
          sp = (case proto_prop h superCtor of None \<Rightarrow> object_prototype | Some sp \<Rightarrow> sp);
          (h, p) = new_object h (Some sp);
          h = set_prop h ctor ''prototype'' (JObject p) False
      in set_prop h p ''constructor'' (JObject ctor) True)"

lemma own_set_prop:
  "own_prop (set_prop h a k v e) b k' = (if b = a \<and> k' = k then Some v else own_prop h b k')"
proof -
  have "map_of (map (\<lambda>(k', v', e'). if k' = k then (k, v, e') else (k', v', e')) ps) k' =
      (if k' = k then map_option (\<lambda>(v', e'). (v, e')) (map_of ps k) else map_of ps k')" for ps :: "(string \<times> jsval \<times> bool) list"
    by (induction ps) auto
  moreover have "map_of (ps @ [(k, v, e)]) k' = (if k' = k then Some (v, e) else map_of ps k')"
    if "map_of ps k = None" for ps :: "(string \<times> jsval \<times> bool) list"
    using that by (auto simp: map_add_def split: option.split)
  ultimately show ?thesis
    by (auto simp: own_prop_def set_prop_def option.map_comp comp_def split: option.splits)
qed

lemma prototype_set_prop [simp]: "prototype (objects (set_prop h a k v e) b) = prototype (objects h b)"
  by (simp add: set_prop_def)

lemma next_set_prop: "next_object (set_prop h a k v e) = next_object h"
  by (simp add: set_prop_def)

lemma own_new_object:
  "own_prop (fst (new_object h p)) b k = (if b = next_object h then None else own_prop h b k)"
  "prototype (objects (fst (new_object h p)) b) = (if b = next_object h then p else prototype (objects h b))"
  "snd (new_object h p) = next_object h"
  by (simp_all add: new_object_def own_prop_def)

text \<open>The two versions of \<open>inherits\<close> give the same objects, up to the enumerability of \<open>constructor\<close>.\<close>

lemma inherits_versions:
  fixes object_prototype :: nat
  assumes "inherits h ctor superCtor = Inr h1" and "ctor \<noteq> next_object h"
  defines "h2 \<equiv> inherits_shim object_prototype h ctor superCtor"
  shows "prototype (objects h1 b) = prototype (objects h2 b) \<and> own_prop h1 b k = own_prop h2 b k"
proof -
  let ?h = "set_prop h ctor ''super_'' (JObject superCtor) True"
  obtain sp where sp: "proto_prop ?h superCtor = Some sp"
    using assms(1) by (cases "proto_prop ?h superCtor") (auto simp: inherits_def)
  obtain g p where g: "new_object ?h (Some sp) = (g, p)" by fastforce
  have p: "p \<noteq> ctor" using own_new_object(3) [of ?h "Some sp"] assms(2) by (simp add: g next_set_prop)
  have "h1 = set_prop (set_prop g p ''constructor'' (JObject ctor) False) ctor ''prototype'' (JObject p) False"
    using assms(1) by (simp add: inherits_def sp g Let_def)
  moreover have "h2 = set_prop (set_prop g ctor ''prototype'' (JObject p) False) p ''constructor'' (JObject ctor) True"
    by (simp add: h2_def inherits_shim_def sp g Let_def)
  ultimately show ?thesis using p by (simp add: own_set_prop)
qed

section \<open>Theorems\<close>

text \<open>
  However often the function made by \<open>once\<close> is called, the wrapped function runs at most
  once: after the first call nothing changes any more, and all further calls return the
  value kept from then.
\<close>

theorem once_runs_once:
  assumes "keeps_called fn"
  shows "calls (once_call fn) (a # as) st =
    (let (st1, r) = once_call fn a st
     in (st1, r # map (\<lambda>_. Inr (cell_value (fst st1))) as))"
proof -
  have rest: "calls (once_call fn) as st1 = (st1, map (\<lambda>_. Inr (cell_value (fst st1))) as)"
    if "called (fst st1)" for st1
    using that by (induction as) (simp_all add: once_call_def)
  have "called (fst (fst (once_call fn a st)))"
    using once_run_called [OF assms, of a st] by (simp add: once_call_def)
  then show ?thesis
    using rest [of "fst (once_call fn a st)"] by (cases "once_call fn a st") (auto simp: Let_def)
qed

theorem once_runs_once_witness:
  "calls (once_call (\<lambda>a (c, n). ((c, n + a), Inr (Some n)))) [2, 5, 7] (once_new, 1::nat) =
     ((\<lparr>called = True, cell_value = Some 1\<rparr>, 3), [Inr (Some 1), Inr (Some 1), Inr (Some 1)])"
proof -
  have "keeps_called (\<lambda>a (c, n::nat). ((c, n + a), Inr (Some n)))" by (auto simp: keeps_called_def)
  from once_runs_once [OF this, of 2 "[5, 7]" "(once_new, 1)"] show ?thesis
    by (simp add: once_call_def once_run_def once_new_def)
qed

text \<open>
  C32. When no callback raises an exception, every callback given to \<open>inflight\<close> for a key is
  called exactly once, in the order in which they were given, or still waits for the
  response; this holds also for callbacks that are given while others are being called.
\<close>

theorem inflight_answers_in_order:
  assumes "inflight_reachable body st" and "\<forall>cb. \<not> snd (body cb)"
  shows "of_key key (answered st) @ waiting st key = of_key key (registered st)"
  using inflight_reachable_ok [OF _ assms(1)] assms(2) by (simp add: accounted_def)

theorem inflight_answers_in_order_witness:
  "let st = fst (inflight \<lparr>reqs = (\<lambda>_. None), ticks = [], handles = [], registered = [], answered = []\<rparr> (0::nat) (1::nat))
   in of_key 0 (answered st) @ waiting st 0 = of_key 0 (registered st)"
  unfolding Let_def
  by (rule inflight_answers_in_order [of "\<lambda>_. ([], False)", OF inflight_request [OF inflight_initial]]) simp

text \<open>
  C33. In every reachable state without exceptions, a key has waiting callbacks exactly when
  one response function or one tick for it is outstanding, and the array of a key is there
  when that function runs: \<open>RES\<close> does not raise a TypeError.
\<close>

theorem inflight_response_succeeds:
  assumes "inflight_reachable body st" and "\<forall>cb. \<not> snd (body cb)" and "key \<in> set (handles st)"
  shows "\<exists>st'. RES body key (st\<lparr>handles := remove1 key (handles st)\<rparr>) = Inr (st', False)"
proof -
  have ok: "inflight_ok {} st" "\<And>k. accounted st k"
    using inflight_reachable_ok [OF _ assms(1)] assms(2) by auto
  let ?st = "st\<lparr>handles := remove1 key (handles st)\<rparr>"
  have "due st k = due ?st k + (if k = key then 1 else 0)" for k
    using count_remove1 [OF assms(3), of k] by (simp add: due_def)
  then have "inflight_ok {key} ?st" using ok(1) by (intro take_due [of st]) simp_all
  moreover have "accounted ?st k" for k using ok(2) by (simp add: accounted_def waiting_def)
  ultimately show ?thesis using RES_quiet [of body key ?st] assms(2) by blast
qed

theorem inflight_response_succeeds_witness:
  "let st = fst (inflight \<lparr>reqs = (\<lambda>_. None), ticks = [], handles = [], registered = [], answered = []\<rparr> (0::nat) (1::nat))
   in \<exists>st'. RES (\<lambda>_. ([], False)) 0 (st\<lparr>handles := remove1 0 (handles st)\<rparr>) = Inr (st', False)"
  unfolding Let_def
  by (rule inflight_response_succeeds [of "\<lambda>_. ([], False)", OF inflight_request [OF inflight_initial]])
    (simp_all add: inflight_def)

end
