(* ===== verification/JS_Values.thy ===== *)
theory JS_Values
  imports JS_Prelude Complex_Main
begin

text \<open>
  Values of JavaScript for the parts of the sources that work on values of any type: numbers
  with NaN, the infinities and the two zeros, references to objects and functions, and a heap
  of objects. Finite numbers are rational; the modelled operations only compare them.

  An object has its class (what \<open>Object.prototype.toString\<close> shows), the elements of an array,
  the enumerable own properties in order, the primitive value behind a boxed primitive, a date
  or a regular expression, and the value of its property \<open>constructor\<close>, if there is one.
\<close>

section \<open>Numbers\<close>

datatype jsnum = NaN | NegInf | PosInf | NegZero | Fin rat

definition num_zero :: "jsnum \<Rightarrow> bool" where
  "num_zero x \<longleftrightarrow> x = NegZero \<or> x = Fin 0"

text \<open>The comparison \<open>===\<close> of numbers.\<close>

definition num_same :: "jsnum \<Rightarrow> jsnum \<Rightarrow> bool" where
  "num_same x y \<longleftrightarrow> x \<noteq> NaN \<and> (x = y \<or> num_zero x \<and> num_zero y)"

fun num_value :: "jsnum \<Rightarrow> rat" where
  "num_value (Fin q) = q"
| "num_value _ = 0"

text \<open>The comparison \<open><\<close> of numbers.\<close>

definition num_less :: "jsnum \<Rightarrow> jsnum \<Rightarrow> bool" where
  "num_less x y \<longleftrightarrow>
     x \<noteq> NaN \<and> y \<noteq> NaN \<and> x \<noteq> PosInf \<and> y \<noteq> NegInf \<and>
     (x = NegInf \<or> y = PosInf \<or> num_value x < num_value y)"

text \<open>\<open>1 / x === 1 / y\<close> for two zeros.\<close>

definition same_sign_zero :: "jsnum \<Rightarrow> jsnum \<Rightarrow> bool" where
  "same_sign_zero x y \<longleftrightarrow> (x = NegZero) = (y = NegZero)"

lemma num_same_sym: "num_same x y = num_same y x"
  by (auto simp: num_same_def num_zero_def)

lemma num_same_trans: "num_same x y \<Longrightarrow> num_same y z \<Longrightarrow> num_same x z"
  by (auto simp: num_same_def num_zero_def)

section \<open>Values\<close>

datatype jsval =
    VUndefined
  | VNull
  | VBool bool
  | VNum jsnum
  | VStr jsstr
  | VObj nat
  | VFun nat

text \<open>The comparison \<open>===\<close>: objects and functions are equal when they are the same.\<close>

fun strict_equal :: "jsval \<Rightarrow> jsval \<Rightarrow> bool" where
  "strict_equal (VNum x) (VNum y) = num_same x y"
| "strict_equal a b = (a = b)"

definition is_nullish :: "jsval \<Rightarrow> bool" where
  "is_nullish a \<longleftrightarrow> a = VUndefined \<or> a = VNull"

fun truthy :: "jsval \<Rightarrow> bool" where
  "truthy VUndefined = False"
| "truthy VNull = False"
| "truthy (VBool b) = b"
| "truthy (VNum x) = (x \<noteq> NaN \<and> \<not> num_zero x)"
| "truthy (VStr s) = (s \<noteq> [])"
| "truthy (VObj n) = True"
| "truthy (VFun n) = True"

lemma strict_equal_sym: "strict_equal a b = strict_equal b a"
  by (cases a; cases b) (auto simp: num_same_sym)

lemma strict_equal_trans: "strict_equal a b \<Longrightarrow> strict_equal b c \<Longrightarrow> strict_equal a c"
  by (cases a; cases b; cases c) (auto intro: num_same_trans)

lemma strict_equal_refl: "a \<noteq> VNum NaN \<Longrightarrow> strict_equal a a"
  by (cases a) (auto simp: num_same_def)

section \<open>Objects\<close>

record jsobj =
  class_name :: string
  elements :: "jsval list"
  own :: "(jsstr \<times> jsval) list"
  primitive :: jsval
  constructor :: "jsval option"
  is_wrapper :: bool

type_synonym jsheap = "jsobj list"

definition obj_at :: "jsheap \<Rightarrow> nat \<Rightarrow> jsobj option" where
  "obj_at H n = (if n < length H then Some (H ! n) else None)"

end
