(* ===== verification/Underscore_Equality.thy ===== *)
theory Underscore_Equality
  imports JS_Values
begin

text \<open>
  Deep comparison in underscore (\<open>wordcut.js\<close>, lines 5617 to 5713): \<open>eq\<close> and \<open>isEqual\<close>.

  The source keeps the objects it is inside of on two parallel stacks, and takes a pair for
  equal when it meets the first object again with the same partner. The model has one stack of
  pairs of addresses, the innermost first. \<open>eq_node\<close> is the comparison of two values up to the
  recursive calls; \<open>eq\<close> adds the stack and the loops.

  The reference is \<open>deep_equal\<close>, the greatest relation that \<open>eq_node\<close> justifies, without any
  stack. What \<open>isEqual\<close> accepts is deeply equal, on cyclic structures too, and on structures
  without cycles it accepts all that is deeply equal.
\<close>

section \<open>Comparison of two values\<close>

text \<open>
  \<open>1 / x\<close>, as far as it is compared: it is infinite for the zeros and for the numbers of double
  precision whose reciprocal is too large.
\<close>

definition reciprocal :: "jsnum \<Rightarrow> jsnum" where
  "reciprocal x =
     (case x of
        NaN \<Rightarrow> NaN
      | NegInf \<Rightarrow> NegZero
      | PosInf \<Rightarrow> Fin 0
      | NegZero \<Rightarrow> NegInf
      | Fin q \<Rightarrow>
          if q = 0 then PosInf
          else if 0 < q \<and> q * 2 ^ 1024 \<le> 1 then PosInf
          else if q < 0 \<and> - q * 2 ^ 1024 \<le> 1 then NegInf
          else Fin (1 / q))"

definition number_equal :: "jsnum \<Rightarrow> jsnum \<Rightarrow> bool" where
  "number_equal x y =
     (if x = NaN then y = NaN
      else if num_zero x then num_same (reciprocal x) (reciprocal y)
      else num_same x y)"

fun to_string :: "jsheap \<Rightarrow> jsval \<Rightarrow> string" where
  "to_string H VUndefined = ''Undefined''"
| "to_string H VNull = ''Null''"
| "to_string H (VBool b) = ''Boolean''"
| "to_string H (VNum x) = ''Number''"
| "to_string H (VStr s) = ''String''"
| "to_string H (VFun f) = ''Function''"
| "to_string H (VObj n) = (case obj_at H n of Some ob \<Rightarrow> class_name ob | None \<Rightarrow> ''Object'')"

definition unwrap :: "jsheap \<Rightarrow> jsval \<Rightarrow> jsval" where
  "unwrap H a =
     (case a of
        VObj n \<Rightarrow>
          (case obj_at H n of
             Some ob \<Rightarrow>
               if is_wrapper ob
               then (case map_of (own ob) (lit ''_wrapped'') of Some v \<Rightarrow> v | None \<Rightarrow> VUndefined)
               else a
           | None \<Rightarrow> a)
      | _ \<Rightarrow> a)"

definition prim_of :: "jsheap \<Rightarrow> jsval \<Rightarrow> jsval" where
  "prim_of H a = (case a of VObj n \<Rightarrow> (case obj_at H n of Some ob \<Rightarrow> primitive ob | None \<Rightarrow> a) | _ \<Rightarrow> a)"

definition num_of :: "jsval \<Rightarrow> jsnum" where
  "num_of a = (case a of VNum x \<Rightarrow> x | _ \<Rightarrow> NaN)"

text \<open>
  The test of the constructors; \<open>self_instance f\<close> says whether the function \<open>f\<close> is an instance
  of itself, which \<open>Object\<close> and \<open>Function\<close> are.
\<close>

definition root_constructor :: "(nat \<Rightarrow> bool) \<Rightarrow> jsval \<Rightarrow> bool" where
  "root_constructor self_instance c = (case c of VFun f \<Rightarrow> self_instance f | _ \<Rightarrow> False)"

definition constructors_differ :: "(nat \<Rightarrow> bool) \<Rightarrow> jsobj \<Rightarrow> jsobj \<Rightarrow> bool" where
  "constructors_differ self_instance oa ob =
     (case (constructor oa, constructor ob) of
        (Some ca, Some cb) \<Rightarrow>
          \<not> strict_equal ca cb \<and> \<not> (root_constructor self_instance ca \<and> root_constructor self_instance cb)
      | _ \<Rightarrow> False)"

text \<open>
  The result of a comparison, or two objects with the pairs of values still to be compared, in
  the order of the loops; no pairs when their numbers differ. A property that the second object
  does not have is \<open>None\<close>.
\<close>

datatype eq_node =
    Done "js_error + bool"
  | Descend nat nat "(jsval \<times> jsval option) list option"

definition eq_children :: "jsobj \<Rightarrow> jsobj \<Rightarrow> (jsval \<times> jsval option) list option" where
  "eq_children oa ob =
     (if class_name oa = ''Array''
      then (if length (elements oa) \<noteq> length (elements ob) then None
            else Some (zip (rev (elements oa)) (map Some (rev (elements ob)))))
      else if length (own ob) \<noteq> length (own oa) then None
      else Some (map (\<lambda>(key, v). (v, map_of (own ob) key)) (rev (own oa))))"

definition eq_objects :: "jsheap \<Rightarrow> (nat \<Rightarrow> bool) \<Rightarrow> jsval \<Rightarrow> jsval \<Rightarrow> eq_node" where
  "eq_objects H self_instance a b =
     (case (a, b) of
        (VObj m, VObj n) \<Rightarrow>
          (case (obj_at H m, obj_at H n) of
             (Some oa, Some ob) \<Rightarrow>
               if class_name oa \<noteq> ''Array'' \<and> constructors_differ self_instance oa ob then Done (Inr False)
               else Descend m n (eq_children oa ob)
           | _ \<Rightarrow> Done (Inl (JsError ''dangling reference'')))
      | (VNull, VNull) \<Rightarrow> Done (Inl (TypeError ''cannot read properties of null''))
      | _ \<Rightarrow> Done (Inr False))"

definition eq_node :: "jsheap \<Rightarrow> (nat \<Rightarrow> bool) \<Rightarrow> jsval \<Rightarrow> jsval \<Rightarrow> eq_node" where
  "eq_node H self_instance a b =
     (if strict_equal a b then
        Done (Inr (case (a, b) of
                     (VNum x, VNum y) \<Rightarrow> \<not> num_zero x \<or> num_same (reciprocal x) (reciprocal y)
                   | _ \<Rightarrow> True))
      else if is_nullish a \<or> is_nullish b then Done (Inr False)
      else
        let a = unwrap H a; b = unwrap H b; className = to_string H a
        in if className \<noteq> to_string H b then Done (Inr False)
           else if className = ''RegExp'' \<or> className = ''String'' then
             Done (Inr (strict_equal (prim_of H a) (prim_of H b)))
           else if className = ''Number'' then
             Done (Inr (number_equal (num_of (prim_of H a)) (num_of (prim_of H b))))
           else if className = ''Date'' \<or> className = ''Boolean'' then
             Done (Inr (strict_equal (prim_of H a) (prim_of H b)))
           else eq_objects H self_instance a b)"

section \<open>The stack and the loops\<close>

definition fresh_objects :: "jsheap \<Rightarrow> (nat \<times> nat) list \<Rightarrow> nat" where
  "fresh_objects H stack = card ({..<length H} - fst ` set stack)"

lemma eq_node_address: "eq_node H I a b = Descend m n ps \<Longrightarrow> m < length H \<and> n < length H"
  by (auto simp: eq_node_def eq_objects_def Let_def obj_at_def split: if_split_asm jsval.splits)

lemma fresh_objects_push:
  assumes "m < length H" and "map_of stack m = None"
  shows "fresh_objects H ((m, n) # stack) < fresh_objects H stack"
  unfolding fresh_objects_def
  by (rule psubset_card_mono) (use assms in \<open>auto simp: map_of_eq_None_iff\<close>)

function (sequential) eq :: "jsheap \<Rightarrow> (nat \<Rightarrow> bool) \<Rightarrow> jsval \<Rightarrow> jsval \<Rightarrow> (nat \<times> nat) list \<Rightarrow> js_error + bool"
  and eq_all :: "jsheap \<Rightarrow> (nat \<Rightarrow> bool) \<Rightarrow> (jsval \<times> jsval option) list \<Rightarrow> (nat \<times> nat) list \<Rightarrow> js_error + bool"
where
  "eq H I a b stack =
     (case eq_node H I a b of
        Done r \<Rightarrow> r
      | Descend m n children \<Rightarrow>
          (case map_of stack m of
             Some n' \<Rightarrow> Inr (n' = n)
           | None \<Rightarrow>
               (case children of
                  None \<Rightarrow> Inr False
                | Some ps \<Rightarrow> eq_all H I ps ((m, n) # stack))))"
| "eq_all H I [] stack = Inr True"
| "eq_all H I ((x, None) # ps) stack = Inr False"
| "eq_all H I ((x, Some y) # ps) stack =
     ebind (eq H I x y stack) (\<lambda>r. if r then eq_all H I ps stack else Inr False)"
  by pat_completeness auto
termination
  by (relation "measures [\<lambda>x. case x of Inl (H, I, a, b, stack) \<Rightarrow> fresh_objects H stack
                                       | Inr (H, I, ps, stack) \<Rightarrow> fresh_objects H stack,
                          \<lambda>x. case x of Inl (H, I, a, b, stack) \<Rightarrow> 0
                                       | Inr (H, I, ps, stack) \<Rightarrow> Suc (length ps)]")
    (auto dest: eq_node_address intro: fresh_objects_push)

declare eq.simps [simp del]

definition isEqual :: "jsheap \<Rightarrow> (nat \<Rightarrow> bool) \<Rightarrow> jsval \<Rightarrow> jsval \<Rightarrow> js_error + bool" where
  "isEqual H I a b = eq H I a b []"

section \<open>Deep equality\<close>

coinductive deep_equal :: "jsheap \<Rightarrow> (nat \<Rightarrow> bool) \<Rightarrow> jsval \<Rightarrow> jsval \<Rightarrow> bool" for H I where
  deep_leaf: "eq_node H I a b = Done (Inr True) \<Longrightarrow> deep_equal H I a b"
| deep_node: "eq_node H I a b = Descend m n (Some ps) \<Longrightarrow>
    (\<forall>x y. (x, y) \<in> set ps \<longrightarrow> (\<exists>z. y = Some z \<and> deep_equal H I x z)) \<Longrightarrow> deep_equal H I a b"

text \<open>A set \<open>W\<close> of pairs of addresses that are assumed to be equal.\<close>

definition pair_ok :: "jsheap \<Rightarrow> (nat \<Rightarrow> bool) \<Rightarrow> (nat \<times> nat) set \<Rightarrow> jsval \<Rightarrow> jsval \<Rightarrow> bool" where
  "pair_ok H I W a b \<longleftrightarrow>
     eq_node H I a b = Done (Inr True) \<or> (\<exists>m n c. eq_node H I a b = Descend m n c \<and> (m, n) \<in> W)"

definition pairs_ok :: "jsheap \<Rightarrow> (nat \<Rightarrow> bool) \<Rightarrow> (nat \<times> nat) set \<Rightarrow> (jsval \<times> jsval option) list \<Rightarrow> bool" where
  "pairs_ok H I W ps \<longleftrightarrow> (\<forall>x y. (x, y) \<in> set ps \<longrightarrow> (\<exists>z. y = Some z \<and> pair_ok H I W x z))"

definition supported :: "jsheap \<Rightarrow> (nat \<Rightarrow> bool) \<Rightarrow> (nat \<times> nat) set \<Rightarrow> (nat \<times> nat) set \<Rightarrow> bool" where
  "supported H I W V \<longleftrightarrow>
     (\<forall>m n. (m, n) \<in> V \<longrightarrow> (\<exists>ps. eq_children (H ! m) (H ! n) = Some ps \<and> pairs_ok H I W ps))"

lemma eq_node_children: "eq_node H I a b = Descend m n c \<Longrightarrow> c = eq_children (H ! m) (H ! n)"
  by (auto simp: eq_node_def eq_objects_def Let_def obj_at_def split: if_split_asm jsval.splits)

lemma pair_ok_mono: "pair_ok H I W a b \<Longrightarrow> W \<subseteq> W' \<Longrightarrow> pair_ok H I W' a b"
  by (auto simp: pair_ok_def)

lemma pairs_ok_mono: "pairs_ok H I W ps \<Longrightarrow> W \<subseteq> W' \<Longrightarrow> pairs_ok H I W' ps"
  unfolding pairs_ok_def using pair_ok_mono by blast

lemma supported_mono: "supported H I W V \<Longrightarrow> W \<subseteq> W' \<Longrightarrow> supported H I W' V"
  unfolding supported_def using pairs_ok_mono by blast

lemma supported_deep_equal:
  assumes "supported H I W W" and "pair_ok H I W a b"
  shows "deep_equal H I a b"
  using assms(2)
proof (coinduction arbitrary: a b)
  case deep_equal
  then consider "eq_node H I a b = Done (Inr True)" | m n c where "eq_node H I a b = Descend m n c" "(m, n) \<in> W"
    by (auto simp: pair_ok_def)
  then show ?case
  proof cases
    case 2
    then obtain ps where "c = Some ps" "pairs_ok H I W ps"
      using assms(1) eq_node_children [OF 2(1)] by (auto simp: supported_def)
    then show ?thesis using 2(1) by (auto simp: pairs_ok_def)
  qed simp
qed

lemma eq_supported:
  "eq H I a b stack = Inr True \<Longrightarrow>
     \<exists>V. supported H I (V \<union> set stack) V \<and> pair_ok H I (V \<union> set stack) a b"
  "eq_all H I ps stack = Inr True \<Longrightarrow>
     \<exists>V. supported H I (V \<union> set stack) V \<and> pairs_ok H I (V \<union> set stack) ps"
proof (induction H I a b stack and H I ps stack rule: eq_eq_all.induct)
  case (1 H I a b stack)
  show ?case
  proof (cases "eq_node H I a b")
    case (Done r)
    then show ?thesis
      using 1 by (intro exI [of _ "{}"]) (simp add: eq.simps pair_ok_def supported_def)
  next
    case (Descend m n c)
    show ?thesis
    proof (cases "map_of stack m")
      case (Some n')
      then have "(m, n) \<in> set stack"
        using 1 Descend by (auto simp: eq.simps dest: map_of_SomeD)
      then show ?thesis
        using Descend by (intro exI [of _ "{}"]) (simp add: pair_ok_def supported_def)
    next
      case None
      then obtain ps where c: "c = Some ps" and ps: "eq_all H I ps ((m, n) # stack) = Inr True"
        using 1 Descend by (auto simp: eq.simps split: option.splits)
      then obtain V where V: "supported H I (V \<union> set ((m, n) # stack)) V" "pairs_ok H I (V \<union> set ((m, n) # stack)) ps"
        using "1.IH" [OF Descend None c] by blast
      have "V \<union> set ((m, n) # stack) = insert (m, n) V \<union> set stack" by auto
      moreover have "eq_children (H ! m) (H ! n) = Some ps" using eq_node_children [OF Descend] c by simp
      ultimately have "supported H I (insert (m, n) V \<union> set stack) (insert (m, n) V)"
        using V by (auto simp: supported_def)
      then show ?thesis
        using Descend by (intro exI [of _ "insert (m, n) V"]) (simp add: pair_ok_def)
    qed
  qed
next
  case (2 H I stack)
  then show ?case by (intro exI [of _ "{}"]) (simp add: pairs_ok_def supported_def)
next
  case (4 H I x y ps stack)
  then have eqs: "eq H I x y stack = Inr True" "eq_all H I ps stack = Inr True"
    by (auto simp: ebind_Inr_iff split: if_split_asm)
  obtain V where V: "supported H I (V \<union> set stack) V" "pair_ok H I (V \<union> set stack) x y"
    using "4.IH"(1) eqs(1) by blast
  obtain V' where V': "supported H I (V' \<union> set stack) V'" "pairs_ok H I (V' \<union> set stack) ps"
    using "4.IH"(2) eqs by blast
  let ?W = "(V \<union> V') \<union> set stack"
  have "supported H I ?W V" "supported H I ?W V'" "pair_ok H I ?W x y" "pairs_ok H I ?W ps"
    using V V' by (auto elim!: supported_mono pair_ok_mono pairs_ok_mono)
  then show ?case by (intro exI [of _ "V \<union> V'"]) (auto simp: supported_def pairs_ok_def)
qed simp

section \<open>Structures without cycles\<close>

text \<open>A rank that decreases from every object to the objects it holds.\<close>

definition held :: "jsobj \<Rightarrow> jsval set" where
  "held ob = set (elements ob) \<union> snd ` set (own ob)"

definition ranked :: "jsheap \<Rightarrow> (nat \<Rightarrow> nat) \<Rightarrow> bool" where
  "ranked H rank \<longleftrightarrow> (\<forall>m < length H. \<forall>k. VObj k \<in> held (H ! m) \<longrightarrow> rank k < rank m)"

definition below :: "(nat \<Rightarrow> nat) \<Rightarrow> jsval \<Rightarrow> (nat \<times> nat) list \<Rightarrow> bool" where
  "below rank a stack \<longleftrightarrow> (\<forall>k. a = VObj k \<longrightarrow> (\<forall>m \<in> fst ` set stack. rank k < rank m))"

lemma children_held: "eq_children oa ob = Some ps \<Longrightarrow> (x, y) \<in> set ps \<Longrightarrow> x \<in> held oa"
  by (auto simp: eq_children_def held_def image_iff split: if_split_asm dest!: set_zip_leftD) force

lemma unwrap_rank:
  assumes "ranked H rank" and "eq_node H I a b = Descend m n c"
  shows "\<exists>k. a = VObj k \<and> rank m \<le> rank k"
proof -
  have m: "unwrap H a = VObj m"
    using assms(2) by (auto simp: eq_node_def eq_objects_def Let_def split: if_split_asm jsval.splits option.splits prod.splits)
  then obtain k where a: "a = VObj k" by (cases a) (auto simp: unwrap_def)
  show ?thesis
  proof (cases "m = k")
    case False
    then obtain ob where ob: "obj_at H k = Some ob" "map_of (own ob) (lit ''_wrapped'') = Some (VObj m)"
      using m a by (auto simp: unwrap_def split: option.splits if_split_asm)
    then have "VObj m \<in> held (H ! k)" "k < length H"
      by (force simp: held_def obj_at_def dest: map_of_SomeD split: if_split_asm)+
    then show ?thesis using assms(1) a by (auto simp: ranked_def intro: less_imp_le)
  qed (use a in simp)
qed

lemma deep_equal_eq:
  "ranked H rank \<Longrightarrow> deep_equal H I a b \<Longrightarrow> below rank a stack \<Longrightarrow> eq H I a b stack = Inr True"
  "ranked H rank \<Longrightarrow> \<forall>x y. (x, y) \<in> set ps \<longrightarrow> below rank x stack \<and> (\<exists>z. y = Some z \<and> deep_equal H I x z) \<Longrightarrow>
     eq_all H I ps stack = Inr True"
proof (induction H I a b stack and H I ps stack rule: eq_eq_all.induct)
  case (1 H I a b stack)
  from "1.prems"(2) show ?case
  proof (cases rule: deep_equal.cases)
    case deep_leaf
    then show ?thesis by (simp add: eq.simps)
  next
    case (deep_node m n ps)
    obtain k where k: "a = VObj k" "rank m \<le> rank k" using unwrap_rank [OF "1.prems"(1) deep_node(1)] by blast
    then have none: "map_of stack m = None"
      using "1.prems"(3) by (force simp: below_def map_of_eq_None_iff)
    have m: "m < length H" using eq_node_address [OF deep_node(1)] by simp
    have "below rank x ((m, n) # stack)" if "(x, y) \<in> set ps" for x y
    proof -
      have "x \<in> held (H ! m)" using children_held that eq_node_children [OF deep_node(1)] by metis
      then show ?thesis
        using "1.prems"(1,3) m k by (fastforce simp: below_def ranked_def)
    qed
    then have "eq_all H I ps ((m, n) # stack) = Inr True"
      using "1.IH" [OF deep_node(1) none refl "1.prems"(1)] deep_node(2) by blast
    then show ?thesis by (simp add: eq.simps deep_node(1) none)
  qed
qed auto

section \<open>No exceptions\<close>

definition value_ok :: "jsheap \<Rightarrow> jsval \<Rightarrow> bool" where
  "value_ok H a \<longleftrightarrow> (\<forall>k. a = VObj k \<longrightarrow> k < length H)"

definition heap_ok :: "jsheap \<Rightarrow> bool" where
  "heap_ok H \<longleftrightarrow> (\<forall>ob \<in> set H. \<not> is_wrapper ob \<and> (\<forall>v \<in> held ob. value_ok H v))"

lemma unwrap_plain: "heap_ok H \<Longrightarrow> unwrap H a = a"
  by (auto simp: unwrap_def obj_at_def heap_ok_def split: jsval.split)

lemma eq_node_returns:
  assumes "heap_ok H" and "value_ok H a" and "value_ok H b"
  shows "eq_node H I a b \<noteq> Done (Inl e)"
  using assms(2,3)
  by (auto simp: eq_node_def eq_objects_def unwrap_plain [OF assms(1)] Let_def obj_at_def value_ok_def is_nullish_def
      split: jsval.splits if_split_asm)

lemma children_held_right:
  assumes "eq_children oa ob = Some ps" and "(x, Some z) \<in> set ps"
  shows "z \<in> held ob"
proof (cases "class_name oa = ''Array''")
  case True
  then show ?thesis
    using assms by (auto simp: eq_children_def held_def split: if_split_asm dest!: set_zip_rightD)
next
  case False
  then obtain key where "map_of (own ob) key = Some z"
    using assms by (auto simp: eq_children_def split: if_split_asm)
  then show ?thesis by (force simp: held_def dest: map_of_SomeD)
qed

lemma eq_returns:
  "heap_ok H \<Longrightarrow> value_ok H a \<Longrightarrow> value_ok H b \<Longrightarrow> \<exists>r. eq H I a b stack = Inr r"
  "heap_ok H \<Longrightarrow> \<forall>x y. (x, y) \<in> set ps \<longrightarrow> value_ok H x \<and> (\<forall>z. y = Some z \<longrightarrow> value_ok H z) \<Longrightarrow>
     \<exists>r. eq_all H I ps stack = Inr r"
proof (induction H I a b stack and H I ps stack rule: eq_eq_all.induct)
  case (1 H I a b stack)
  show ?case
  proof (cases "eq_node H I a b")
    case (Done r)
    then show ?thesis using eq_node_returns [OF "1.prems"] by (cases r) (auto simp: eq.simps)
  next
    case (Descend m n c)
    show ?thesis
    proof (cases "map_of stack m = None \<and> c \<noteq> None")
      case True
      then obtain ps where c: "c = Some ps" "map_of stack m = None" by auto
      have mn: "H ! m \<in> set H" "H ! n \<in> set H" using eq_node_address [OF Descend] by simp_all
      have "eq_children (H ! m) (H ! n) = Some ps" using eq_node_children [OF Descend] c by simp
      then have "\<forall>x y. (x, y) \<in> set ps \<longrightarrow> value_ok H x \<and> (\<forall>z. y = Some z \<longrightarrow> value_ok H z)"
        using "1.prems"(1) mn children_held children_held_right unfolding heap_ok_def by blast
      then obtain r where "eq_all H I ps ((m, n) # stack) = Inr r"
        using "1.IH" [OF Descend c(2,1) "1.prems"(1)] by blast
      then show ?thesis by (simp add: eq.simps Descend c)
    qed (auto simp: eq.simps Descend split: option.split)
  qed
next
  case (4 H I x y ps stack)
  then obtain r where r: "eq H I x y stack = Inr r" by auto
  then show ?case
    using "4.IH"(2) [OF r _ "4.prems"(1)] "4.prems"(2) by (cases r) auto
qed auto

section \<open>Examples\<close>

definition array_obj :: "jsval list \<Rightarrow> jsobj" where
  "array_obj vs = \<lparr>class_name = ''Array'', elements = vs, own = [], primitive = VUndefined, constructor = Some (VFun 1), is_wrapper = False\<rparr>"

definition wrapper_obj :: "jsval \<Rightarrow> jsobj" where
  "wrapper_obj v = \<lparr>class_name = ''Object'', elements = [], own = [(lit ''_wrapped'', v)], primitive = VUndefined, constructor = Some (VFun 2), is_wrapper = True\<rparr>"

lemmas eq_eval = isEqual_def eq.simps eq_node_def eq_objects_def eq_children_def obj_at_def unwrap_def
  array_obj_def wrapper_obj_def is_nullish_def Let_def

text \<open>
  An array that holds itself, and two arrays that hold each other: the comparison depends on
  the order of its arguments.
\<close>

lemma isEqual_not_symmetric:
  fixes H :: jsheap
  defines "H \<equiv> [array_obj [VObj 0], array_obj [VObj 2], array_obj [VObj 1]]"
  shows "isEqual H I (VObj 1) (VObj 0) = Inr True" and "isEqual H I (VObj 0) (VObj 1) = Inr False"
  by (simp_all add: H_def eq_eval)

text \<open>Two wrappers of \<open>null\<close> raise a TypeError.\<close>

lemma isEqual_wrapped_null:
  "isEqual [wrapper_obj VNull, wrapper_obj VNull] I (VObj 0) (VObj 1) =
     Inl (TypeError ''cannot read properties of null'')"
  by (simp add: eq_eval)

text \<open>Zero equals the least positive number of double precision.\<close>

lemma isEqual_zero_tiny: "isEqual [] I (VNum (Fin 0)) (VNum (Fin (1 / 2 ^ 1074))) = Inr True"
  by (simp add: eq_eval num_same_def num_zero_def number_equal_def prim_of_def num_of_def reciprocal_def)

section \<open>Theorems\<close>

text \<open>
  C18. What \<open>isEqual\<close> accepts is deeply equal: cutting the comparison off at objects that are on
  the stack is sound, also for cyclic structures and for structures with shared parts.
\<close>

theorem underscore_isEqual_sound:
  assumes "isEqual H self_instance a b = Inr True"
  shows "deep_equal H self_instance a b"
proof -
  obtain V where "supported H self_instance V V" "pair_ok H self_instance V a b"
    using eq_supported(1) [of H self_instance a b "[]"] assms by (auto simp: isEqual_def)
  then show ?thesis by (rule supported_deep_equal)
qed

theorem underscore_isEqual_sound_witness:
  "deep_equal [array_obj [VObj 0], array_obj [VObj 1]] (\<lambda>f. f = 0) (VObj 0) (VObj 1)"
  by (rule underscore_isEqual_sound) (simp add: eq_eval)



text \<open>
  C20. The comparison ends and raises no exception on every heap without wrappers whose
  references are valid, however cyclic its objects are.
\<close>

theorem underscore_isEqual_returns:
  assumes "heap_ok H" and "value_ok H a" and "value_ok H b"
  shows "\<exists>r. isEqual H self_instance a b = Inr r"
  using eq_returns(1) [OF assms] by (simp add: isEqual_def)

theorem underscore_isEqual_returns_witness:
  "\<exists>r. isEqual [array_obj [VObj 1], array_obj [VObj 0]] (\<lambda>f. f = 0) (VObj 0) (VObj 1) = Inr r"
  by (rule underscore_isEqual_returns) (simp_all add: heap_ok_def value_ok_def held_def array_obj_def)

end
