(* ===== verification/Underscore_Arrays.thy ===== *)
theory Underscore_Arrays
  imports Underscore_Equality "HOL-Library.Sublist" "HOL-Library.AList"
begin

text \<open>
  The array functions of underscore (\<open>wordcut.js\<close>, lines 4973 to 5216) and the helpers they
  call. An array argument is the list of its elements; the arrays inside an array are objects of
  the heap \<open>H\<close>, which \<open>flatten\<close> and \<open>isNaN\<close> look into. A missing argument is \<open>None\<close>. Iteratees
  and predicates are functions without side effects. Numbers that count are integers.

  \<open>flatten\<close> is a \<open>partial_function\<close>: on an array that contains itself it does not return.
\<close>

section \<open>Ends of an array\<close>

datatype one_or_many = One jsval | Many "jsval list"

definition elem_at :: "jsval list \<Rightarrow> int \<Rightarrow> jsval" where
  "elem_at xs i = (if 0 \<le> i \<and> i < int (length xs) then xs ! nat i else VUndefined)"

definition initial :: "jsval list \<Rightarrow> int option \<Rightarrow> bool \<Rightarrow> jsval list" where
  "initial xs n guard =
     js_slice xs 0 (max 0 (int (length xs) - (case n of None \<Rightarrow> 1 | Some n \<Rightarrow> if guard then 1 else n)))"

definition rest :: "jsval list \<Rightarrow> int option \<Rightarrow> bool \<Rightarrow> jsval list" where
  "rest xs n guard = js_slice_from xs (case n of None \<Rightarrow> 1 | Some n \<Rightarrow> if guard then 1 else n)"

definition first :: "jsval list option \<Rightarrow> int option \<Rightarrow> bool \<Rightarrow> one_or_many" where
  "first xs n guard =
     (case xs of
        None \<Rightarrow> One VUndefined
      | Some xs \<Rightarrow>
          (case n of
             None \<Rightarrow> One (elem_at xs 0)
           | Some n \<Rightarrow>
               if guard then One (elem_at xs 0)
               else Many (initial xs (Some (int (length xs) - n)) False)))"

definition last_elem :: "jsval list option \<Rightarrow> int option \<Rightarrow> bool \<Rightarrow> one_or_many" where
  "last_elem xs n guard =
     (case xs of
        None \<Rightarrow> One VUndefined
      | Some xs \<Rightarrow>
          (case n of
             None \<Rightarrow> One (elem_at xs (int (length xs) - 1))
           | Some n \<Rightarrow>
               if guard then One (elem_at xs (int (length xs) - 1))
               else Many (rest xs (Some (max 0 (int (length xs) - n))) False)))"

definition compact :: "jsval list \<Rightarrow> jsval list" where
  "compact xs = filter truthy xs"

section \<open>Searching\<close>

text \<open>\<open>isNumber(obj) && obj !== +obj\<close>: a Number object is never identical to its value.\<close>

definition isNaN :: "jsheap \<Rightarrow> jsval \<Rightarrow> bool" where
  "isNaN H v \<longleftrightarrow> to_string H v = ''Number'' \<and> \<not> strict_equal v (VNum (num_of (prim_of H v)))"

definition findIndex :: "('a \<Rightarrow> nat \<Rightarrow> bool) \<Rightarrow> 'a list \<Rightarrow> int" where
  "findIndex predicate xs =
     (case List.find (\<lambda>i. predicate (xs ! i) i) [0..<length xs] of None \<Rightarrow> - 1 | Some i \<Rightarrow> int i)"

definition findLastIndex :: "('a \<Rightarrow> nat \<Rightarrow> bool) \<Rightarrow> 'a list \<Rightarrow> int" where
  "findLastIndex predicate xs =
     (case List.find (\<lambda>i. predicate (xs ! i) i) (rev [0..<length xs]) of None \<Rightarrow> - 1 | Some i \<Rightarrow> int i)"

text \<open>The binary search; \<open>lt\<close> is the comparison \<open><\<close> of the values of the iteratee.\<close>

function sortedIndex_loop :: "('k \<Rightarrow> 'k \<Rightarrow> bool) \<Rightarrow> ('a \<Rightarrow> 'k) \<Rightarrow> 'a list \<Rightarrow> 'k \<Rightarrow> nat \<Rightarrow> nat \<Rightarrow> nat" where
  "sortedIndex_loop lt iteratee xs v low high =
     (if low < high then
        let mid = (low + high) div 2
        in if lt (iteratee (xs ! mid)) v then sortedIndex_loop lt iteratee xs v (mid + 1) high
           else sortedIndex_loop lt iteratee xs v low mid
      else low)"
  by pat_completeness auto
termination
  by (relation "measure (\<lambda>(lt, iteratee, xs, v, low, high). high - low)") auto

declare sortedIndex_loop.simps [simp del]

definition sortedIndex :: "('k \<Rightarrow> 'k \<Rightarrow> bool) \<Rightarrow> ('a \<Rightarrow> 'k) \<Rightarrow> 'a list \<Rightarrow> 'a \<Rightarrow> nat" where
  "sortedIndex lt iteratee xs ob = sortedIndex_loop lt iteratee xs (iteratee ob) 0 (length xs)"

text \<open>
  The third argument of \<open>indexOf\<close> and \<open>lastIndexOf\<close>: a number, or another value, of which
  only the truth matters.
\<close>

datatype index_arg = FromIndex int | IsSorted bool

definition index_loop :: "jsval list \<Rightarrow> jsval \<Rightarrow> int list \<Rightarrow> int" where
  "index_loop xs item is =
     (case List.find (\<lambda>i. strict_equal (xs ! nat i) item) is of None \<Rightarrow> - 1 | Some i \<Rightarrow> i)"

definition indexOf :: "jsheap \<Rightarrow> (jsval \<Rightarrow> jsval \<Rightarrow> bool) \<Rightarrow> jsval list \<Rightarrow> jsval \<Rightarrow> index_arg \<Rightarrow> int" where
  "indexOf H lt xs item idx =
     (let len = int (length xs);
          i = (case idx of FromIndex k \<Rightarrow> if k \<ge> 0 then k else max (k + len) 0 | IsSorted b \<Rightarrow> 0)
      in if idx = IsSorted True \<and> xs \<noteq> [] then
           (let k = int (sortedIndex lt (\<lambda>v. v) xs item)
            in if strict_equal (elem_at xs k) item then k else - 1)
         else if \<not> strict_equal item item then
           (let k = findIndex (\<lambda>v _. isNaN H v) (js_slice xs i len) in if k \<ge> 0 then k + i else - 1)
         else index_loop xs item [i..len - 1])"

definition lastIndexOf :: "jsheap \<Rightarrow> jsval list \<Rightarrow> jsval \<Rightarrow> index_arg \<Rightarrow> int" where
  "lastIndexOf H xs item idx =
     (let len = (case idx of
            FromIndex k \<Rightarrow> if k \<ge> 0 then min (k + 1) (int (length xs)) else k + int (length xs) + 1
          | IsSorted b \<Rightarrow> int (length xs))
      in if \<not> strict_equal item item then
           (let k = findLastIndex (\<lambda>v _. isNaN H v) (js_slice xs 0 len) in if k \<ge> 0 then k else - 1)
         else index_loop xs item (rev [0..len - 1]))"

definition contains :: "jsheap \<Rightarrow> jsval list \<Rightarrow> jsval \<Rightarrow> bool" where
  "contains H xs item \<longleftrightarrow> indexOf H (\<lambda>_ _. False) xs item (FromIndex 0) \<ge> 0"

section \<open>Sets\<close>

definition array_elements :: "jsheap \<Rightarrow> jsval \<Rightarrow> jsval list option" where
  "array_elements H v =
     (case v of
        VObj n \<Rightarrow>
          (case obj_at H n of
             Some ob \<Rightarrow> if class_name ob = ''Array'' \<or> class_name ob = ''Arguments'' then Some (elements ob) else None
           | None \<Rightarrow> None)
      | _ \<Rightarrow> None)"

partial_function (option) flatten_loop ::
  "jsheap \<Rightarrow> bool \<Rightarrow> bool \<Rightarrow> jsval list \<Rightarrow> jsval list \<Rightarrow> jsval list option"
where
  "flatten_loop H shallow strict input output =
     (case input of
        [] \<Rightarrow> Some output
      | v # vs \<Rightarrow>
          (case array_elements H v of
             Some es \<Rightarrow>
               Option.bind (if shallow then Some es else flatten_loop H shallow strict es []) (\<lambda>es'.
                 flatten_loop H shallow strict vs (output @ es'))
           | None \<Rightarrow> flatten_loop H shallow strict vs (if strict then output else output @ [v])))"

declare flatten_loop.simps [code]

definition flatten :: "jsheap \<Rightarrow> bool \<Rightarrow> bool \<Rightarrow> nat \<Rightarrow> jsval list \<Rightarrow> jsval list option" where
  "flatten H shallow strict startIndex input = flatten_loop H shallow strict (drop startIndex input) []"

definition flatten_array :: "jsheap \<Rightarrow> bool \<Rightarrow> jsval list \<Rightarrow> jsval list option" where
  "flatten_array H shallow xs = flatten H shallow False 0 xs"

definition difference :: "jsheap \<Rightarrow> jsval list \<Rightarrow> jsval list \<Rightarrow> jsval list option" where
  "difference H xs others =
     Option.bind (flatten H True True 1 (VUndefined # others)) (\<lambda>r. Some (filter (\<lambda>v. \<not> contains H r v) xs))"

text \<open>\<open>without\<close> calls \<open>difference\<close> with one fresh array, of which \<open>flatten\<close> takes the elements.\<close>

definition without :: "jsheap \<Rightarrow> jsval list \<Rightarrow> jsval list \<Rightarrow> jsval list" where
  "without H xs vs = filter (\<lambda>v. \<not> contains H vs v) xs"

text \<open>
  \<open>uniq\<close>: with \<open>isSorted\<close> it compares with the value before only, with an iteratee it collects
  the computed values.
\<close>

fun uniq_sorted :: "(jsval \<Rightarrow> nat \<Rightarrow> jsval) \<Rightarrow> nat \<Rightarrow> jsval list \<Rightarrow> jsval \<Rightarrow> jsval list \<Rightarrow> jsval list" where
  "uniq_sorted iteratee i [] seen result = result"
| "uniq_sorted iteratee i (v # vs) seen result =
     (let computed = iteratee v i
      in uniq_sorted iteratee (Suc i) vs computed
           (if i = 0 \<or> \<not> strict_equal seen computed then result @ [v] else result))"

fun uniq_by :: "jsheap \<Rightarrow> (jsval \<Rightarrow> nat \<Rightarrow> jsval) \<Rightarrow> nat \<Rightarrow> jsval list \<Rightarrow> jsval list \<Rightarrow> jsval list \<Rightarrow> jsval list" where
  "uniq_by H iteratee i [] seen result = result"
| "uniq_by H iteratee i (v # vs) seen result =
     (let computed = iteratee v i
      in if \<not> contains H seen computed then uniq_by H iteratee (Suc i) vs (seen @ [computed]) (result @ [v])
         else uniq_by H iteratee (Suc i) vs seen result)"

fun uniq_plain :: "jsheap \<Rightarrow> jsval list \<Rightarrow> jsval list \<Rightarrow> jsval list" where
  "uniq_plain H [] result = result"
| "uniq_plain H (v # vs) result =
     uniq_plain H vs (if \<not> contains H result v then result @ [v] else result)"

definition uniq :: "jsheap \<Rightarrow> jsval list \<Rightarrow> bool \<Rightarrow> (jsval \<Rightarrow> nat \<Rightarrow> jsval) option \<Rightarrow> jsval list" where
  "uniq H xs isSorted iteratee =
     (if isSorted
      then uniq_sorted (case iteratee of Some f \<Rightarrow> f | None \<Rightarrow> (\<lambda>v _. v)) 0 xs VUndefined []
      else case iteratee of Some f \<Rightarrow> uniq_by H f 0 xs [] [] | None \<Rightarrow> uniq_plain H xs [])"

definition union :: "jsheap \<Rightarrow> jsval list \<Rightarrow> jsval list option" where
  "union H arrays = Option.bind (flatten H True True 0 arrays) (\<lambda>xs. Some (uniq H xs False None))"

fun intersection_loop :: "jsheap \<Rightarrow> jsval list list \<Rightarrow> jsval list \<Rightarrow> jsval list \<Rightarrow> jsval list" where
  "intersection_loop H others [] result = result"
| "intersection_loop H others (item # xs) result =
     intersection_loop H others xs
       (if contains H result item then result
        else if list_all (\<lambda>ys. contains H ys item) others then result @ [item]
        else result)"

definition intersection :: "jsheap \<Rightarrow> jsval list \<Rightarrow> jsval list list \<Rightarrow> jsval list" where
  "intersection H xs others = intersection_loop H others xs []"

section \<open>Tables and ranges\<close>

text \<open>The length of the first longest array, or 0 when there are no arrays.\<close>

fun longest :: "jsval list list \<Rightarrow> nat" where
  "longest [] = 0"
| "longest (a # as) = foldl (\<lambda>m a. if length a > m then length a else m) (length a) as"

definition unzip :: "jsval list list \<Rightarrow> jsval list list" where
  "unzip arrays = map (\<lambda>i. map (\<lambda>a. elem_at a (int i)) arrays) [0..<longest arrays]"

definition zip_arrays :: "jsval list list \<Rightarrow> jsval list list" where
  "zip_arrays arrays = unzip arrays"

text \<open>
  Assignment of a property keeps the place of a key that is there already; assigning to
  \<open>__proto__\<close> makes no own property.
\<close>

definition set_key :: "(jsstr \<times> jsval) list \<Rightarrow> jsstr \<Rightarrow> jsval \<Rightarrow> (jsstr \<times> jsval) list" where
  "set_key ob k v = (if k = lit ''__proto__'' then ob else AList.update k v ob)"

definition object_of :: "jsstr list \<Rightarrow> jsval list \<Rightarrow> (jsstr \<times> jsval) list" where
  "object_of ks vs = foldl (\<lambda>ob i. set_key ob (ks ! i) (elem_at vs (int i))) [] [0..<length ks]"

definition object_of_pairs :: "(jsstr \<times> jsval) list \<Rightarrow> (jsstr \<times> jsval) list" where
  "object_of_pairs ps = foldl (\<lambda>ob (k, v). set_key ob k v) [] ps"

text \<open>\<open>Math.ceil(a / b)\<close>, which is exact for integers below \<open>2 ^ 53\<close>.\<close>

definition ceil_div :: "int \<Rightarrow> int \<Rightarrow> int" where
  "ceil_div a b = - ((- a) div b)"

fun range_loop :: "nat \<Rightarrow> int \<Rightarrow> int \<Rightarrow> int list \<Rightarrow> int list" where
  "range_loop 0 start step r = r"
| "range_loop (Suc n) start step r = range_loop n (start + step) step (r @ [start])"

definition range_array :: "int \<Rightarrow> int option \<Rightarrow> int option \<Rightarrow> int list" where
  "range_array start stop step =
     (let (start, stop) = (case stop of None \<Rightarrow> (0, start) | Some t \<Rightarrow> (start, t));
          step = (case step of None \<Rightarrow> 1 | Some s \<Rightarrow> if s = 0 then 1 else s);
          len = max (ceil_div (stop - start) step) 0
      in range_loop (nat len) start step [])"


section \<open>What a search finds\<close>

text \<open>What \<open>contains\<close> accepts as an occurrence \<open>y\<close> of \<open>x\<close>.\<close>

definition occurs :: "jsheap \<Rightarrow> jsval \<Rightarrow> jsval \<Rightarrow> bool" where
  "occurs H x y = (if strict_equal x x then strict_equal y x else isNaN H y)"

definition first_from :: "(nat \<Rightarrow> bool) \<Rightarrow> int \<Rightarrow> int \<Rightarrow> int \<Rightarrow> bool" where
  "first_from P i n r \<longleftrightarrow>
     r = - 1 \<and> (\<forall>j. i \<le> int j \<and> int j < n \<longrightarrow> \<not> P j) \<or>
     i \<le> r \<and> r < n \<and> P (nat r) \<and> (\<forall>j. i \<le> int j \<and> int j < r \<longrightarrow> \<not> P j)"

lemma find_upto:
  "List.find P [i..n - 1] = None \<longleftrightarrow> (\<forall>j. i \<le> j \<and> j < n \<longrightarrow> \<not> P j)"
  "List.find P [i..n - 1] = Some r \<Longrightarrow> i \<le> r \<and> r < n \<and> P r \<and> (\<forall>j. i \<le> j \<and> j < r \<longrightarrow> \<not> P j)"
proof -
  show "List.find P [i..n - 1] = None \<longleftrightarrow> (\<forall>j. i \<le> j \<and> j < n \<longrightarrow> \<not> P j)"
    by (auto simp: find_None_iff)
  assume "List.find P [i..n - 1] = Some r"
  then obtain k where k: "k < length [i..n - 1]" "P ([i..n - 1] ! k)" "r = [i..n - 1] ! k"
      "\<forall>j < k. \<not> P ([i..n - 1] ! j)"
    unfolding find_Some_iff by blast
  have r: "r = i + int k" using k(1,3) by simp
  have "\<not> P j" if "i \<le> j" "j < r" for j
    using k(4) [rule_format, of "nat (j - i)"] k(1) that r by simp
  then show "i \<le> r \<and> r < n \<and> P r \<and> (\<forall>j. i \<le> j \<and> j < r \<longrightarrow> \<not> P j)" using k r by auto
qed

lemma index_loop_first:
  "0 \<le> i \<Longrightarrow> first_from (\<lambda>j. strict_equal (xs ! j) item) i n (index_loop xs item [i..n - 1])"
proof (cases "List.find (\<lambda>i. strict_equal (xs ! nat i) item) [i..n - 1]")
  case None
  then show ?thesis using find_upto(1) [of "\<lambda>i. strict_equal (xs ! nat i) item" i n]
    by (auto simp: index_loop_def first_from_def)
next
  case (Some r)
  assume "0 \<le> i"
  then show ?thesis using find_upto(2) [OF Some] Some by (auto simp: index_loop_def first_from_def)
qed

lemma findIndex_first:
  "first_from (\<lambda>j. P (xs ! j) j) 0 (int (length xs)) (findIndex P xs)"
proof (cases "List.find (\<lambda>i. P (xs ! i) i) [0..<length xs]")
  case None
  moreover have "\<forall>j < length xs. \<not> P (xs ! j) j" using None by (auto simp: find_None_iff)
  ultimately show ?thesis by (simp add: findIndex_def first_from_def)
next
  case (Some r)
  then have "r < length xs \<and> P (xs ! r) r \<and> (\<forall>j < r. \<not> P (xs ! j) j)"
    unfolding find_Some_iff by auto
  then show ?thesis using Some by (auto simp: findIndex_def first_from_def)
qed

lemma first_from_shift:
  assumes "0 \<le> i" and "first_from (\<lambda>j. P (nat i + j)) 0 (n - i) k"
  shows "first_from P i n (if k \<ge> 0 then k + i else - 1)"
proof -
  have shift: "P (nat i + (j - nat i)) = P j" if "i \<le> int j" for j
    using that assms(1) by (simp add: nat_le_iff)
  show ?thesis
  proof (cases "k \<ge> 0")
    case True
    then have k: "k < n - i" "P (nat i + nat k)" "\<And>j. int j < k \<Longrightarrow> \<not> P (nat i + j)"
      using assms(2) by (auto simp: first_from_def)
    have "\<not> P j" if "i \<le> int j" "int j < k + i" for j
      using k(3) [of "j - nat i"] shift [OF that(1)] that assms(1) by (simp add: of_nat_diff nat_le_iff)
    then show ?thesis using True k assms(1) by (auto simp: first_from_def nat_add_distrib add.commute)
  next
    case False
    then have k: "\<And>j. int j < n - i \<Longrightarrow> \<not> P (nat i + j)"
      using assms(2) by (auto simp: first_from_def)
    have "\<not> P j" if "i \<le> int j" "int j < n" for j
      using k [of "j - nat i"] shift [OF that(1)] that assms(1) by (simp add: of_nat_diff nat_le_iff)
    then show ?thesis using False by (auto simp: first_from_def)
  qed
qed

definition start_index :: "int \<Rightarrow> nat \<Rightarrow> int" where
  "start_index k n = (if k \<ge> 0 then k else max (k + int n) 0)"

lemma slice_tail: "0 \<le> i \<Longrightarrow> js_slice xs i (int (length xs)) = drop (nat i) xs"
  by (auto simp: js_slice_def js_rel_index_def Let_def min_def)

lemma start_index_nonneg [simp]: "0 \<le> start_index k n"
  by (simp add: start_index_def)

lemma indexOf_FromIndex:
  "indexOf H lt xs item (FromIndex k) =
     (let i = start_index k (length xs); n = int (length xs)
      in if strict_equal item item then index_loop xs item [i..n - 1]
         else let r = findIndex (\<lambda>v _. isNaN H v) (drop (nat i) xs) in if r \<ge> 0 then r + i else - 1)"
  using slice_tail [OF start_index_nonneg, of xs k "length xs"]
  by (simp add: indexOf_def Let_def start_index_def split: if_split_asm)

lemma indexOf_from:
  "first_from (\<lambda>j. occurs H item (xs ! j)) (start_index k (length xs)) (int (length xs))
     (indexOf H lt xs item (FromIndex k))"
proof -
  define i where "i = start_index k (length xs)"
  have i: "0 \<le> i" by (simp add: i_def)
  show ?thesis
  proof (cases "strict_equal item item")
    case True
    then show ?thesis
      using index_loop_first [OF i, of xs item "int (length xs)"]
      by (simp add: indexOf_FromIndex Let_def occurs_def flip: i_def)
  next
    case False
    let ?k = "findIndex (\<lambda>v _. isNaN H v) (drop (nat i) xs)"
    have f: "first_from (\<lambda>j. isNaN H (drop (nat i) xs ! j)) 0 (int (length (drop (nat i) xs))) ?k"
      by (rule findIndex_first)
    have "first_from (\<lambda>j. isNaN H (xs ! (nat i + j))) 0 (int (length xs) - i) ?k"
    proof (cases "nat i \<le> length xs")
      case True
      then have "int (length (drop (nat i) xs)) = int (length xs) - i" using i by (simp add: of_nat_diff)
      then show ?thesis using f True by simp
    next
      case False
      then show ?thesis by (auto simp: findIndex_def first_from_def)
    qed
    then have "first_from (\<lambda>j. isNaN H (xs ! j)) i (int (length xs)) (if ?k \<ge> 0 then ?k + i else - 1)"
      by (rule first_from_shift [OF i])
    then show ?thesis
      using False by (simp add: indexOf_FromIndex Let_def occurs_def flip: i_def)
  qed
qed

lemma contains_iff: "contains H xs x \<longleftrightarrow> (\<exists>y \<in> set xs. occurs H x y)"
proof -
  define r where "r = indexOf H (\<lambda>_ _. False) xs x (FromIndex 0)"
  have "first_from (\<lambda>j. occurs H x (xs ! j)) 0 (int (length xs)) r"
    using indexOf_from [of H x xs 0 "\<lambda>_ _. False"] by (simp add: r_def start_index_def)
  then have "0 \<le> r \<longleftrightarrow> (\<exists>j < length xs. occurs H x (xs ! j))"
    by (auto simp: first_from_def intro: exI [of _ "nat r"])
  then show ?thesis unfolding contains_def r_def [symmetric] by (metis in_set_conv_nth)
qed

lemma sortedIndex_loop_takeWhile:
  assumes "\<And>i j. i \<le> j \<Longrightarrow> j < length xs \<Longrightarrow> lt (f (xs ! j)) v \<Longrightarrow> lt (f (xs ! i)) v"
    and "high \<le> length xs" and "\<And>i. i < low \<Longrightarrow> lt (f (xs ! i)) v"
    and "\<And>i. high \<le> i \<Longrightarrow> i < length xs \<Longrightarrow> \<not> lt (f (xs ! i)) v" and "low \<le> high"
  shows "sortedIndex_loop lt f xs v low high = length (takeWhile (\<lambda>x. lt (f x) v) xs)"
  using assms
proof (induction lt f xs v low high rule: sortedIndex_loop.induct)
  case (1 lt f xs v low high)
  let ?mid = "(low + high) div 2"
  show ?case
  proof (cases "low < high")
    case True
    then have mid: "?mid < length xs" "low \<le> ?mid" "?mid < high" using "1.prems"(2) by auto
    show ?thesis
    proof (cases "lt (f (xs ! ?mid)) v")
      case t: True
      have "\<And>i. i < ?mid + 1 \<Longrightarrow> lt (f (xs ! i)) v" using "1.prems"(1) [OF _ mid(1) t] by simp
      then show ?thesis
        using "1.IH"(1) [OF True refl t "1.prems"(1,2) _ "1.prems"(4)] mid t True
        by (subst sortedIndex_loop.simps) (simp add: Let_def)
    next
      case f: False
      have "\<And>i. ?mid \<le> i \<Longrightarrow> i < length xs \<Longrightarrow> \<not> lt (f (xs ! i)) v" using "1.prems"(1) f by blast
      then show ?thesis
        using "1.IH"(2) [OF True refl f "1.prems"(1) _ "1.prems"(3)] mid f True
        by (subst sortedIndex_loop.simps) (simp add: Let_def)
    qed
  next
    case False
    then have "low = high" using "1.prems"(5) by simp
    then have "length (takeWhile (\<lambda>x. lt (f x) v) xs) = low"
      using "1.prems"(2-4) by (subst takeWhile_eq_take_P_nth [of low]) auto
    then show ?thesis using False by (subst sortedIndex_loop.simps) simp
  qed
qed


lemma sortedIndex_takeWhile:
  assumes "\<And>i j. i \<le> j \<Longrightarrow> j < length xs \<Longrightarrow> lt (f (xs ! j)) (f ob) \<Longrightarrow> lt (f (xs ! i)) (f ob)"
  shows "sortedIndex lt f xs ob = length (takeWhile (\<lambda>x. lt (f x) (f ob)) xs)"
  unfolding sortedIndex_def by (rule sortedIndex_loop_takeWhile) (use assms in auto)

section \<open>Numbers in order\<close>

lemma num_less_trans: "num_less a b \<Longrightarrow> num_less b c \<Longrightarrow> num_less a c"
  by (auto simp: num_less_def)

definition num_le :: "jsnum \<Rightarrow> jsnum \<Rightarrow> bool" where
  "num_le a b \<longleftrightarrow> a \<noteq> NaN \<and> b \<noteq> NaN \<and> \<not> num_less b a"

lemma num_le_less: "num_le a b \<Longrightarrow> num_less b c \<Longrightarrow> num_less a c"
  by (auto simp: num_le_def num_less_def)

lemma num_same_iff: "num_same a b \<longleftrightarrow> num_le a b \<and> num_le b a"
  by (cases a; cases b) (auto simp: num_same_def num_zero_def num_le_def num_less_def)

lemma num_same_less: "num_same a b \<Longrightarrow> \<not> num_less a b"
  by (simp add: num_same_iff num_le_def)

lemma num_le_trans: "num_le a b \<Longrightarrow> num_le b c \<Longrightarrow> num_le a c"
  using num_le_less [of b c a] by (auto simp: num_le_def)

section \<open>Values of the set operations\<close>

lemma occurs_trans: "strict_equal x x \<Longrightarrow> occurs H y z \<Longrightarrow> occurs H x y \<Longrightarrow> occurs H x z"
  using strict_equal_trans [of z y x] strict_equal_trans [of y x y] strict_equal_sym [of x y]
  by (auto simp: occurs_def split: if_split_asm)

lemma isNaN_NaN: "isNaN H (VNum NaN)"
  by (simp add: isNaN_def prim_of_def num_of_def num_same_def)

lemma occurs_self [simp]: "occurs H x x"
  using strict_equal_refl [of x] isNaN_NaN [of H] by (cases "x = VNum NaN") (auto simp: occurs_def)

lemma contains_mono: "contains H xs x \<Longrightarrow> set xs \<subseteq> set ys \<Longrightarrow> contains H ys x"
  by (auto simp: contains_iff)

lemma uniq_plain_props:
  "\<exists>zs. uniq_plain H xs r = r @ zs \<and> subseq zs xs \<and>
     (\<forall>x \<in> set xs. contains H (r @ zs) x) \<and>
     (\<forall>j < length zs. \<not> contains H (r @ take j zs) (zs ! j))"
proof (induction xs arbitrary: r)
  case (Cons v vs)
  show ?case
  proof (cases "contains H r v")
    case True
    then obtain zs where "uniq_plain H vs r = r @ zs" "subseq zs vs" "\<forall>x \<in> set vs. contains H (r @ zs) x"
        "\<forall>j < length zs. \<not> contains H (r @ take j zs) (zs ! j)"
      using Cons.IH [of r] by blast
    then show ?thesis using True contains_mono [of H r v] by (intro exI [of _ zs]) (auto)
  next
    case False
    then obtain zs where zs: "uniq_plain H vs (r @ [v]) = (r @ [v]) @ zs" "subseq zs vs"
        "\<forall>x \<in> set vs. contains H ((r @ [v]) @ zs) x"
        "\<forall>j < length zs. \<not> contains H ((r @ [v]) @ take j zs) (zs ! j)"
      using Cons.IH [of "r @ [v]"] by blast
    have "\<not> contains H (r @ take j (v # zs)) ((v # zs) ! j)" if "j < length (v # zs)" for j
      using zs(4) that False by (cases j) auto
    moreover have "contains H (r @ v # zs) v" by (auto simp: contains_iff)
    ultimately show ?thesis using zs(1-3) False by (intro exI [of _ "v # zs"]) auto
  qed
qed simp

lemma uniq_plain_contains:
  assumes "strict_equal x x"
  shows "contains H (uniq_plain H xs []) x = contains H xs x"
proof -
  obtain zs where zs: "uniq_plain H xs [] = zs" "subseq zs xs" "\<forall>x \<in> set xs. contains H zs x"
    using uniq_plain_props [of H xs "[]"] by auto
  have "contains H zs x" if c: "contains H xs x"
  proof -
    obtain y where y: "y \<in> set xs" "occurs H x y" using c by (auto simp: contains_iff)
    then show ?thesis using zs(3) occurs_trans [OF assms _ y(2)] by (auto simp: contains_iff)
  qed
  moreover have "set zs \<subseteq> set xs" using zs(2) by (auto dest: list_emb_set)
  ultimately show ?thesis using zs(1) contains_mono by blast
qed

lemma intersection_loop_contains:
  assumes "strict_equal x x"
  shows "contains H (intersection_loop H others xs r) x \<longleftrightarrow>
     contains H r x \<or> contains H xs x \<and> (\<forall>ys \<in> set others. contains H ys x)"
proof (induction xs arbitrary: r)
  case Nil
  then show ?case by (simp add: contains_iff)
next
  case (Cons v vs)
  let ?all = "\<lambda>v. \<forall>ys \<in> set others. contains H ys v"
  have cons: "contains H (v # vs) x \<longleftrightarrow> occurs H x v \<or> contains H vs x"
    "contains H (r @ [v]) x \<longleftrightarrow> contains H r x \<or> occurs H x v" by (auto simp: contains_iff)
  have swap: "contains H zs v \<longleftrightarrow> contains H zs x" if o: "occurs H x v" for zs
  proof -
    have "strict_equal v v" "occurs H v x"
      using o assms strict_equal_trans [of v x v] strict_equal_sym [of v x] by (auto simp: occurs_def)
    then show ?thesis using occurs_trans [OF assms _ o] occurs_trans [of v H x] by (auto simp: contains_iff)
  qed
  show ?case
    using Cons.IH cons swap by (auto simp: list_all_iff)
qed

lemma flatten_shallow:
  "flatten_loop H True True vs r =
     Some (r @ concat (map (\<lambda>v. case array_elements H v of Some es \<Rightarrow> es | None \<Rightarrow> []) vs))"
  by (induction vs arbitrary: r) (subst flatten_loop.simps; simp split: option.split)+

lemma contains_concat: "contains H (concat yss) x \<longleftrightarrow> (\<exists>ys \<in> set yss. contains H ys x)"
  by (auto simp: contains_iff)

section \<open>Adjacent duplicates\<close>

text \<open>Equal values stand together, as in a sorted array, and NaN does not occur.\<close>

definition grouped :: "jsval list \<Rightarrow> bool" where
  "grouped xs \<longleftrightarrow> VNum NaN \<notin> set xs \<and>
     (\<forall>i j k. i \<le> j \<and> j \<le> k \<and> k < length xs \<and> strict_equal (xs ! i) (xs ! k) \<longrightarrow> strict_equal (xs ! i) (xs ! j))"

lemma uniq_sorted_plain:
  assumes "grouped (ps @ xs)" and "i = length ps" and "ps \<noteq> [] \<Longrightarrow> seen = last ps"
    and "\<And>x. strict_equal x x \<Longrightarrow> contains H r x = contains H ps x"
  shows "uniq_sorted (\<lambda>v _. v) i xs seen r = uniq_plain H xs r"
  using assms
proof (induction xs arbitrary: ps i seen r)
  case (Cons v vs)
  have v: "strict_equal v v" using Cons.prems(1) strict_equal_refl [of v] by (auto simp: grouped_def)
  have "contains H r v \<longleftrightarrow> ps \<noteq> [] \<and> strict_equal seen v"
  proof
    assume "contains H r v"
    then obtain k where k: "k < length ps" "strict_equal (ps ! k) v"
      using Cons.prems(4) [OF v] v by (auto simp: contains_iff occurs_def in_set_conv_nth)
    then have "strict_equal ((ps @ v # vs) ! k) ((ps @ v # vs) ! (length ps - 1))"
      using Cons.prems(1) [unfolded grouped_def, THEN conjunct2, rule_format, of k "length ps - 1" "length ps"]
      by (auto simp: nth_append)
    moreover have ne: "ps \<noteq> []" using k(1) by auto
    ultimately have "strict_equal (ps ! k) (last ps)" using k(1) by (simp add: nth_append last_conv_nth)
    then have "strict_equal (last ps) v"
      using strict_equal_trans [of "last ps" "ps ! k" v] k(2) by (simp add: strict_equal_sym [of "last ps"])
    then show "ps \<noteq> [] \<and> strict_equal seen v"
      using Cons.prems(3) ne by simp
  next
    assume "ps \<noteq> [] \<and> strict_equal seen v"
    then show "contains H r v"
      using Cons.prems(3,4) v by (auto simp: contains_iff occurs_def intro!: bexI [of _ "last ps"])
  qed
  then have test: "(i = 0 \<or> \<not> strict_equal seen v) = (\<not> contains H r v)" using Cons.prems(2) by auto
  let ?r = "if \<not> contains H r v then r @ [v] else r"
  have "contains H ?r x = contains H (ps @ [v]) x" if "strict_equal x x" for x
    using Cons.prems(4) [OF that] occurs_trans [OF that, of H v] by (auto simp: contains_iff)
  then show ?case
    using Cons.IH [of "ps @ [v]" "Suc i" v ?r] Cons.prems(1,2) test by (simp add: Let_def)
qed simp


section \<open>Binary search\<close>

lemma first_from_unique: "0 \<le> i \<Longrightarrow> first_from P i n r \<Longrightarrow> first_from P i n r' \<Longrightarrow> r = r'"
  by (auto simp: first_from_def) (metis linorder_neqE_linordered_idom nat_0_le order_trans)+

definition sorted_numbers :: "jsnum list \<Rightarrow> bool" where
  "sorted_numbers ns \<longleftrightarrow> NaN \<notin> set ns \<and> sorted_wrt num_le ns"

lemma sorted_numbers_le:
  "sorted_numbers ns \<Longrightarrow> i \<le> j \<Longrightarrow> j < length ns \<Longrightarrow> num_le (ns ! i) (ns ! j)"
proof (cases "i = j")
  case True
  moreover assume "sorted_numbers ns" "j < length ns"
  ultimately show ?thesis by (metis num_le_def num_less_def less_irrefl nth_mem sorted_numbers_def)
qed (auto simp: sorted_numbers_def sorted_wrt_iff_nth_less)

lemma indexOf_sorted:
  assumes lt: "\<And>a b. lt (VNum a) (VNum b) = num_less a b" and ns: "sorted_numbers ns" and v: "v \<noteq> NaN"
  shows "indexOf H lt (map VNum ns) (VNum v) (IsSorted True) = indexOf H lt (map VNum ns) (VNum v) (FromIndex 0)"
proof (cases "ns = []")
  case False
  define r where "r = length (takeWhile (\<lambda>a. num_less a v) ns)"
  have "sortedIndex lt (\<lambda>v. v) (map VNum ns) (VNum v) = r"
    using num_le_less [OF sorted_numbers_le [OF ns]]
    by (subst sortedIndex_takeWhile) (auto simp: lt takeWhile_map o_def r_def)
  then have bin: "indexOf H lt (map VNum ns) (VNum v) (IsSorted True) =
      (if r < length ns \<and> num_same (ns ! r) v then int r else - 1)"
    using False by (auto simp: indexOf_def Let_def elem_at_def)
  have before: "\<not> num_same (ns ! j) v" if "j < r" for j
  proof -
    have "num_less (ns ! j) v"
      using that nth_mem [of j "takeWhile (\<lambda>a. num_less a v) ns"]
      by (auto simp: r_def takeWhile_nth dest: set_takeWhileD)
    then show ?thesis using num_same_less by blast
  qed
  have after: "num_same (ns ! r) v" if j: "r \<le> j" "j < length ns" "num_same (ns ! j) v" for j
  proof -
    have "\<not> num_less (ns ! r) v" using nth_length_takeWhile [of "\<lambda>a. num_less a v" ns] j by (simp add: r_def)
    moreover have "ns ! r \<noteq> NaN" using sorted_numbers_le [OF ns j(1,2)] by (simp add: num_le_def)
    ultimately have "num_le v (ns ! r)" using v by (simp add: num_le_def)
    moreover have "num_le (ns ! r) v"
      using num_le_trans [OF sorted_numbers_le [OF ns j(1,2)]] j(3) by (simp add: num_same_iff)
    ultimately show ?thesis by (simp add: num_same_iff)
  qed
  have "first_from (\<lambda>j. occurs H (VNum v) (map VNum ns ! j)) 0 (int (length ns))
      (if r < length ns \<and> num_same (ns ! r) v then int r else - 1)"
  proof -
    have "occurs H (VNum v) (map VNum ns ! j) = num_same (ns ! j) v" if "j < length ns" for j
      using that v by (simp add: occurs_def num_same_def)
    then show ?thesis
      using before after unfolding first_from_def by (auto simp: not_less) (meson not_le)
  qed
  moreover have "first_from (\<lambda>j. occurs H (VNum v) (map VNum ns ! j)) 0 (int (length ns))
      (indexOf H lt (map VNum ns) (VNum v) (FromIndex 0))"
    using indexOf_from [of H "VNum v" "map VNum ns" 0 lt] by (simp add: start_index_def)
  ultimately show ?thesis using first_from_unique [of 0] bin by fastforce
qed (simp add: indexOf_def)

section \<open>Nested arrays\<close>

inductive inside :: "jsheap \<Rightarrow> jsval list \<Rightarrow> jsval \<Rightarrow> bool" for H vs where
  inside_here: "v \<in> set vs \<Longrightarrow> inside H vs v"
| inside_array: "inside H vs a \<Longrightarrow> array_elements H a = Some es \<Longrightarrow> v \<in> set es \<Longrightarrow> inside H vs v"

lemma inside_mono: "inside H vs v \<Longrightarrow> \<forall>w \<in> set vs. inside H ws w \<Longrightarrow> inside H ws v"
  by (induction rule: inside.induct) (auto intro: inside_array)

lemma inside_Nil [simp]: "\<not> inside H [] v"
proof
  show False if "inside H [] v" using that by induction auto
qed

lemma inside_Cons:
  "inside H (v # vs) w \<longleftrightarrow>
     w = v \<or> (\<exists>es. array_elements H v = Some es \<and> inside H es w) \<or> inside H vs w"
proof
  assume "inside H (v # vs) w"
  then show "w = v \<or> (\<exists>es. array_elements H v = Some es \<and> inside H es w) \<or> inside H vs w"
    by induction (auto intro: inside.intros)
next
  have "inside H (v # vs) u" if "array_elements H v = Some es" "u \<in> set es" for u es
    using inside_array [OF inside_here [of v "v # vs"] that] by simp
  moreover have "inside H (v # vs) u" if "u \<in> set (v # vs)" for u using that by (rule inside_here)
  moreover assume "w = v \<or> (\<exists>es. array_elements H v = Some es \<and> inside H es w) \<or> inside H vs w"
  ultimately show "inside H (v # vs) w" using inside_mono [of H _ w "v # vs"] by fastforce
qed

lemma array_elements_held:
  "array_elements H v = Some es \<Longrightarrow> \<exists>n < length H. v = VObj n \<and> set es \<subseteq> held (H ! n)"
  by (auto simp: array_elements_def obj_at_def held_def split: jsval.split_asm if_split_asm)

lemma flatten_deep:
  "ranked H rank \<Longrightarrow> \<forall>k. VObj k \<in> set vs \<longrightarrow> rank k < R \<Longrightarrow>
   \<exists>ys. flatten_loop H False False vs r = Some (r @ ys) \<and>
        set ys = {v. inside H vs v \<and> array_elements H v = None}"
proof (induction R arbitrary: vs r rule: less_induct)
  case (less R)
  show ?case using less.prems(2)
  proof (induction vs arbitrary: r)
    case Nil
    then show ?case by (subst flatten_loop.simps) simp
  next
    case (Cons v vs)
    have vs: "\<forall>k. VObj k \<in> set vs \<longrightarrow> rank k < R" using Cons.prems by simp
    show ?case
    proof (cases "array_elements H v")
      case None
      obtain ys where "flatten_loop H False False vs (r @ [v]) = Some ((r @ [v]) @ ys)"
          "set ys = {v. inside H vs v \<and> array_elements H v = None}" using Cons.IH [OF vs] by blast
      then show ?thesis using None by (subst flatten_loop.simps) (auto simp: inside_Cons)
    next
      case (Some es)
      then obtain n where n: "n < length H" "v = VObj n" "set es \<subseteq> held (H ! n)"
        using array_elements_held by blast
      then have "rank n < R" "\<forall>k. VObj k \<in> set es \<longrightarrow> rank k < rank n"
        using Cons.prems less.prems(1) by (auto simp: ranked_def)
      then obtain zs where zs: "flatten_loop H False False es [] = Some zs"
          "set zs = {v. inside H es v \<and> array_elements H v = None}"
        using less.IH [of "rank n" es "[]"] less.prems(1) by auto
      obtain ys where "flatten_loop H False False vs (r @ zs) = Some ((r @ zs) @ ys)"
          "set ys = {v. inside H vs v \<and> array_elements H v = None}" using Cons.IH [OF vs] by blast
      then show ?thesis using Some zs by (subst flatten_loop.simps) (auto simp: inside_Cons)
    qed
  qed
qed

section \<open>Tables\<close>

definition table :: "nat \<Rightarrow> jsval list list \<Rightarrow> bool" where
  "table n rows \<longleftrightarrow> rows \<noteq> [] \<and> (\<forall>row \<in> set rows. length row = n)"

lemma longest_table:
  assumes "table n rows"
  shows "longest rows = n"
proof -
  have "foldl (\<lambda>m a. if length a > m then length a else m) n as = n" if "\<forall>a \<in> set as. length a = n" for as :: "jsval list list"
    using that by (induction as) auto
  then show ?thesis using assms by (cases rows) (auto simp: table_def)
qed

lemma unzip_table: "table n rows \<Longrightarrow> unzip rows = map (\<lambda>i. map (\<lambda>row. row ! i) rows) [0..<n]"
  using longest_table [of n rows] by (auto simp: unzip_def elem_at_def table_def)

lemma table_unzip: "table n rows \<Longrightarrow> 0 < n \<Longrightarrow> table (length rows) (unzip rows)"
  by (auto simp: unzip_table) (auto simp: table_def)

section \<open>Ranges\<close>

lemma range_loop_map: "range_loop n start step r = r @ map (\<lambda>k. start + int k * step) [0..<n]"
  by (induction n arbitrary: start r) (simp_all add: upt_conv_Cons map_Suc_upt [symmetric] del: upt_Suc, simp add: algebra_simps)

lemma le_div_iff_mult: "0 < (s::int) \<Longrightarrow> m \<le> x div s \<longleftrightarrow> m * s \<le> x"
proof
  assume s: "0 < s" and "m * s \<le> x"
  then have "(m * s) div s \<le> x div s" by (intro zdiv_mono1) auto
  then show "m \<le> x div s" using s by simp
next
  assume s: "0 < s" and "m \<le> x div s"
  then have "m * s \<le> x div s * s" by (simp add: mult_right_mono)
  also have "\<dots> \<le> x" using s by (simp add: minus_mod_eq_div_mult [symmetric])
  finally show "m * s \<le> x" .
qed

lemma less_ceil_div: "0 < (s::int) \<Longrightarrow> k < ceil_div d s \<longleftrightarrow> k * s < d"
  using le_div_iff_mult [of s "- k" "- d"] by (auto simp: ceil_div_def)

lemma ceil_div_minus: "ceil_div (- d) (- s) = ceil_div d s"
  by (simp add: ceil_div_def div_minus_right)

lemma range_array_nth: "s \<noteq> 0 \<Longrightarrow> range_array a (Some b) (Some s) = map (\<lambda>k. a + int k * s) [0..<nat (ceil_div (b - a) s)]"
  by (simp add: range_array_def range_loop_map max_def)

lemma range_array_up:
  assumes "0 < s"
  shows "set (range_array a (Some b) (Some s)) = {x. s dvd x - a \<and> a \<le> x \<and> x < b}"
proof -
  have mem: "x \<in> set (range_array a (Some b) (Some s)) \<longleftrightarrow> (\<exists>k. x = a + int k * s \<and> int k * s < b - a)" for x
    using assms less_ceil_div [OF assms] by (auto simp: range_array_nth image_iff zless_nat_eq_int_zless)
  have "(\<exists>k. x = a + int k * s \<and> int k * s < b - a) \<longleftrightarrow> s dvd x - a \<and> a \<le> x \<and> x < b" for x
  proof
    assume x: "s dvd x - a \<and> a \<le> x \<and> x < b"
    then obtain k where k: "x - a = s * k" by (auto elim: dvdE)
    then have "0 \<le> k" using x assms by (metis diff_ge_0_iff_ge zero_le_mult_iff not_less)
    then show "\<exists>k. x = a + int k * s \<and> int k * s < b - a"
      using x k by (intro exI [of _ "nat k"]) (auto simp: algebra_simps)
  qed (use assms in auto)
  then show ?thesis using mem by blast
qed

lemma range_array_minus: "s \<noteq> 0 \<Longrightarrow> range_array (- a) (Some (- b)) (Some (- s)) = map uminus (range_array a (Some b) (Some s))"
  using ceil_div_minus [of "b - a" s] by (simp add: range_array_nth)

lemma range_array_down:
  assumes "s < 0"
  shows "set (range_array a (Some b) (Some s)) = {x. s dvd x - a \<and> b < x \<and> x \<le> a}"
proof -
  have "range_array a (Some b) (Some s) = map uminus (range_array (- a) (Some (- b)) (Some (- s)))"
    using range_array_minus [of "- s" "- a" "- b"] assms by simp
  then have "set (range_array a (Some b) (Some s)) = uminus ` {x. - s dvd x - - a \<and> - a \<le> x \<and> x < - b}"
    using range_array_up [of "- s" "- a" "- b"] assms by simp
  also have "\<dots> = {x. - s dvd - x - - a \<and> - a \<le> - x \<and> - x < - b}"
    by (rule set_eqI) (metis (mono_tags, lifting) image_iff mem_Collect_eq minus_minus)
  also have "\<dots> = {x. s dvd x - a \<and> b < x \<and> x \<le> a}"
    using dvd_diff_commute [of s _ a] by auto
  finally show ?thesis .
qed

lemma range_array_sorted:
  assumes "s \<noteq> 0"
  shows "sorted_wrt (\<lambda>x y. if 0 < s then x < y else y < x) (range_array a (Some b) (Some s))"
  using assms by (auto simp: range_array_nth sorted_wrt_map intro!: sorted_wrt_mono_rel [OF _ sorted_wrt_upt])


section \<open>Surprises\<close>

text \<open>
  \<open>isNaN\<close> holds of every Number object, as it compares the object with its value; so \<open>uniq\<close>
  takes NaN for a duplicate of a Number object.
\<close>

definition number_obj :: "jsnum \<Rightarrow> jsobj" where
  "number_obj x =
     \<lparr>class_name = ''Number'', elements = [], own = [], primitive = VNum x, constructor = Some (VFun 1), is_wrapper = False\<rparr>"

lemma isNaN_number_object: "isNaN [number_obj x] (VObj 0)"
  by (simp add: isNaN_def obj_at_def number_obj_def)

lemma uniq_loses_NaN: "uniq [number_obj (Fin 5)] [VObj 0, VNum NaN] False None = [VObj 0]"
  using isNaN_number_object [of "Fin 5"]
  by (simp add: uniq_def contains_iff occurs_def num_same_def)

text \<open>
  A negative index before the start of the array makes \<open>lastIndexOf\<close> of NaN search the array up
  to an end that \<open>slice\<close> counts from the back; for other items it finds nothing.
\<close>

lemma lastIndexOf_NaN_negative:
  "lastIndexOf [] [VNum NaN, VNull, VNull] (VNum NaN) (FromIndex (- 5)) = 0"
  "lastIndexOf [] [VNull, VNull, VNull] VNull (FromIndex (- 5)) = - 1"
  by (simp_all add: lastIndexOf_def js_slice_def js_rel_index_def findLastIndex_def index_loop_def
      isNaN_def prim_of_def num_of_def num_same_def)

section \<open>Properties\<close>

text \<open>
  \<open>uniq\<close> keeps the order of the array, drops no value without keeping an occurrence of it,
  and no value it keeps occurs among the values kept before it.
\<close>

theorem underscore_uniq_spec:
  "subseq (uniq H xs False None) xs \<and>
   (\<forall>x \<in> set xs. contains H (uniq H xs False None) x) \<and>
   (\<forall>j < length (uniq H xs False None).
      \<not> contains H (take j (uniq H xs False None)) (uniq H xs False None ! j))"
  using uniq_plain_props [of H xs "[]"] by (auto simp: uniq_def)

theorem underscore_uniq_spec_witness:
  "contains [] (uniq [] [VNull, VNum NaN, VNull, VNum NaN] False None) (VNum NaN)"
  using underscore_uniq_spec [of "[]" "[VNull, VNum NaN, VNull, VNum NaN]"] by simp

text \<open>
  The fast algorithm of \<open>uniq\<close> for sorted arrays, which compares neighbours only, gives the
  same as the general one when equal values stand together and NaN does not occur.
\<close>

theorem underscore_uniq_sorted:
  assumes "grouped xs"
  shows "uniq H xs True None = uniq H xs False None"
  using uniq_sorted_plain [of "[]" xs 0 VUndefined H "[]"] assms by (simp add: uniq_def)

theorem underscore_uniq_sorted_witness:
  "uniq [] [VNull, VNull, VBool True] True None = uniq [] [VNull, VNull, VBool True] False None"
proof (rule underscore_uniq_sorted)
  show "grouped [VNull, VNull, VBool True]"
    by (auto simp: grouped_def less_Suc_eq le_Suc_eq nth_Cons')
qed

text \<open>
  C23. The values of \<open>union\<close>, \<open>intersection\<close> and \<open>difference\<close> are the union, the intersection
  and the difference of the values of the arrays, for every value that is equal to itself.
\<close>

theorem underscore_set_laws:
  assumes "strict_equal x x"
    and "list_all2 (\<lambda>a es. array_elements H a = Some es) arrays ess"
  shows "(\<exists>u. union H arrays = Some u \<and> (contains H u x \<longleftrightarrow> (\<exists>es \<in> set ess. contains H es x))) \<and>
    (contains H (intersection H xs ess) x \<longleftrightarrow> contains H xs x \<and> (\<forall>es \<in> set ess. contains H es x)) \<and>
    (\<exists>d. difference H xs arrays = Some d \<and>
       d = filter (\<lambda>v. \<not> (\<exists>es \<in> set ess. contains H es v)) xs)"
proof -
  have "map (\<lambda>v. case array_elements H v of Some es \<Rightarrow> es | None \<Rightarrow> []) arrays = ess"
    using assms(2) by (induction rule: list_all2_induct) auto
  then have "flatten_loop H True True arrays [] = Some (concat ess)" using flatten_shallow by simp
  then show ?thesis
    using uniq_plain_contains [OF assms(1)] intersection_loop_contains [OF assms(1), of H ess xs "[]"]
    by (auto simp: union_def flatten_def uniq_def intersection_def difference_def contains_concat)
      (auto simp: contains_iff)
qed

theorem underscore_set_laws_witness:
  "contains [array_obj [VNull], array_obj [VNull, VBool True]]
     (intersection [array_obj [VNull], array_obj [VNull, VBool True]] [VNull] [[VNull], [VNull, VBool True]]) VNull"
  using underscore_set_laws [of VNull "[array_obj [VNull], array_obj [VNull, VBool True]]" "[VObj 0, VObj 1]"
      "[[VNull], [VNull, VBool True]]" "[VNull]"]
  by (simp add: array_elements_def obj_at_def array_obj_def contains_iff occurs_def)

text \<open>
  C25. On a sorted array of numbers the binary search that \<open>indexOf\<close> makes with \<open>isSorted\<close> finds
  the same index as the search from the start, for every number but NaN.
\<close>

theorem underscore_indexOf_sorted:
  assumes "\<And>a b. lt (VNum a) (VNum b) = num_less a b" and "sorted_numbers ns" and "v \<noteq> NaN"
  shows "indexOf H lt (map VNum ns) (VNum v) (IsSorted True) = indexOf H lt (map VNum ns) (VNum v) (FromIndex 0)"
  using assms by (rule indexOf_sorted)

theorem underscore_indexOf_sorted_witness:
  "indexOf [] (\<lambda>a b. num_less (num_of a) (num_of b)) (map VNum [NegInf, Fin 1, Fin 1, Fin 3]) (VNum (Fin 1)) (IsSorted True) =
   indexOf [] (\<lambda>a b. num_less (num_of a) (num_of b)) (map VNum [NegInf, Fin 1, Fin 1, Fin 3]) (VNum (Fin 1)) (FromIndex 0)"
  by (rule underscore_indexOf_sorted) (simp_all add: num_of_def sorted_numbers_def num_le_def num_less_def)

text \<open>
  C24. Flattening an array returns when no array contains itself, and the values of the result are
  exactly the values inside it, at any depth, that are not arrays.
\<close>

theorem underscore_flatten_leaves:
  assumes "ranked H rank"
  shows "\<exists>ys. flatten_array H False xs = Some ys \<and>
    set ys = {v. inside H xs v \<and> array_elements H v = None}"
proof -
  define R where "R = Suc (Max (insert 0 (rank ` {k. VObj k \<in> set xs})))"
  have "finite {k. VObj k \<in> set xs}"
    by (rule finite_imageD [of VObj]) (auto intro: finite_subset [of _ "set xs"] inj_onI)
  then have "\<forall>k. VObj k \<in> set xs \<longrightarrow> rank k < R" by (auto simp: R_def less_Suc_eq_le intro!: Max_ge)
  then show ?thesis
    using flatten_deep [OF assms, of xs R "[]"] by (simp add: flatten_array_def flatten_def)
qed

theorem underscore_flatten_leaves_witness:
  "\<exists>ys. flatten_array [array_obj [VNull]] False [VObj 0, VBool True] = Some ys \<and>
    set ys = {v. inside [array_obj [VNull]] [VObj 0, VBool True] v \<and> array_elements [array_obj [VNull]] v = None}"
  by (rule underscore_flatten_leaves [of _ "\<lambda>n. n"]) (auto simp: ranked_def held_def array_obj_def)

text \<open>Unzipping a table twice gives the table back.\<close>

theorem underscore_unzip_twice:
  assumes "table n rows" and "0 < n"
  shows "unzip (unzip rows) = rows"
  using unzip_table [OF table_unzip [OF assms]] unzip_table [OF assms(1)] assms
  by (auto simp: table_def intro!: nth_equalityI)

theorem underscore_unzip_twice_witness:
  "unzip (unzip [[VNull, VBool True], [VUndefined, VNull]]) = [[VNull, VBool True], [VUndefined, VNull]]"
  by (rule underscore_unzip_twice [of 2]) (simp_all add: table_def)

text \<open>
  \<open>range\<close> lists exactly the numbers from \<open>start\<close> that are whole steps away and do not reach
  \<open>stop\<close>, in the direction of the step, each once.
\<close>

theorem underscore_range_members:
  assumes "s \<noteq> 0"
  shows "set (range_array a (Some b) (Some s)) =
      {x. s dvd x - a \<and> (if 0 < s then a \<le> x \<and> x < b else b < x \<and> x \<le> a)} \<and>
    sorted_wrt (\<lambda>x y. if 0 < s then x < y else y < x) (range_array a (Some b) (Some s))"
  using range_array_up [of s a b] range_array_down [of s a b] range_array_sorted [OF assms] assms
  by (cases "0 < s") auto

theorem underscore_range_members_witness:
  "set (range_array 10 (Some 0) (Some (- 3))) = {x. - 3 dvd x - 10 \<and> 0 < x \<and> x \<le> 10}"
  using underscore_range_members [of "- 3" 10 0] by simp

end
