(* ===== verification/Underscore_Functions.thy ===== *)
theory Underscore_Functions
  imports JS_Values
begin

text \<open>
  The functions of underscore that wrap other functions (\<open>wordcut.js\<close>, lines 5218 to 5421).

  \<open>throttle\<close> and \<open>debounce\<close> are state machines in time: a state has the variables of the closure,
  the clock that \<open>_.now\<close> reads, and a log of the calls of the wrapper and of the runs of the
  wrapped function. A step lets time pass, calls the wrapper, or runs the function of the pending
  timer, at its time or later. The clock starts above 0 and does not go back. The wrapped function
  neither raises an exception nor calls its own wrapper; the wrappers return its last result,
  which is the one of the last run in the log.

  The other wrappers take the wrapped function as a function that may raise an exception.
\<close>

section \<open>Logs\<close>

datatype 'a event = Call int 'a | Run int 'a

fun event_time :: "'a event \<Rightarrow> int" where
  "event_time (Call t a) = t"
| "event_time (Run t a) = t"

definition run_times :: "'a event list \<Rightarrow> int list" where
  "run_times l = [t. Run t a \<leftarrow> l]"

definition call_times :: "'a event list \<Rightarrow> int list" where
  "call_times l = [t. Call t a \<leftarrow> l]"

text \<open>The arguments of the last call and of the last run; a log has its last event first.\<close>

definition last_call :: "'a event list \<Rightarrow> 'a option" where
  "last_call l = (case [a. Call t a \<leftarrow> l] of [] \<Rightarrow> None | a # _ \<Rightarrow> Some a)"

definition last_run :: "'a event list \<Rightarrow> 'a option" where
  "last_run l = (case [a. Run t a \<leftarrow> l] of [] \<Rightarrow> None | a # _ \<Rightarrow> Some a)"

section \<open>throttle\<close>

record 'a throttle_state =
  th_clock :: int
  th_timeout :: "int option"
  th_previous :: int
  th_args :: "'a option"
  th_log :: "'a event list"

record throttle_options =
  leading :: bool
  trailing :: bool

definition throttle_new :: "int \<Rightarrow> 'a throttle_state" where
  "throttle_new now = \<lparr>th_clock = now, th_timeout = None, th_previous = 0, th_args = None, th_log = []\<rparr>"

text \<open>\<open>func.apply(context, args); if (!timeout) context = args = null\<close>.\<close>

definition throttle_run :: "'a throttle_state \<Rightarrow> 'a throttle_state" where
  "throttle_run st =
     (let st = (case th_args st of Some a \<Rightarrow> st\<lparr>th_log := Run (th_clock st) a # th_log st\<rparr> | None \<Rightarrow> st)
      in if th_timeout st = None then st\<lparr>th_args := None\<rparr> else st)"

definition throttle_later :: "throttle_options \<Rightarrow> 'a throttle_state \<Rightarrow> 'a throttle_state" where
  "throttle_later opts st =
     (let st = st\<lparr>th_previous := (if \<not> leading opts then 0 else th_clock st)\<rparr>;
          st = st\<lparr>th_timeout := None\<rparr>
      in throttle_run st)"

definition throttle_call :: "int \<Rightarrow> throttle_options \<Rightarrow> 'a \<Rightarrow> 'a throttle_state \<Rightarrow> 'a throttle_state" where
  "throttle_call wait opts a st =
     (let now = th_clock st;
          st = st\<lparr>th_log := Call now a # th_log st\<rparr>;
          st = (if th_previous st = 0 \<and> \<not> leading opts then st\<lparr>th_previous := now\<rparr> else st);
          remaining = wait - (now - th_previous st);
          st = st\<lparr>th_args := Some a\<rparr>
      in if remaining \<le> 0 \<or> remaining > wait then
           throttle_run (st\<lparr>th_timeout := None, th_previous := now\<rparr>)
         else if th_timeout st = None \<and> trailing opts then
           st\<lparr>th_timeout := Some (now + remaining)\<rparr>
         else st)"

inductive throttled :: "int \<Rightarrow> throttle_options \<Rightarrow> 'a throttle_state \<Rightarrow> bool" for wait opts where
  throttled_new: "0 < now \<Longrightarrow> throttled wait opts (throttle_new now)"
| throttled_wait: "throttled wait opts st \<Longrightarrow> th_clock st \<le> now \<Longrightarrow> throttled wait opts (st\<lparr>th_clock := now\<rparr>)"
| throttled_call: "throttled wait opts st \<Longrightarrow> throttled wait opts (throttle_call wait opts a st)"
| throttled_later:
    "throttled wait opts st \<Longrightarrow> th_timeout st = Some due \<Longrightarrow> due \<le> th_clock st \<Longrightarrow>
     throttled wait opts (throttle_later opts st)"

section \<open>debounce\<close>

record 'a debounce_state =
  db_clock :: int
  db_timeout :: "int option"
  db_args :: "'a option"
  db_timestamp :: int
  db_log :: "'a event list"

definition debounce_new :: "int \<Rightarrow> 'a debounce_state" where
  "debounce_new now = \<lparr>db_clock = now, db_timeout = None, db_args = None, db_timestamp = 0, db_log = []\<rparr>"

definition debounce_run :: "'a debounce_state \<Rightarrow> 'a debounce_state" where
  "debounce_run st = (case db_args st of Some a \<Rightarrow> st\<lparr>db_log := Run (db_clock st) a # db_log st\<rparr> | None \<Rightarrow> st)"

definition debounce_later :: "int \<Rightarrow> bool \<Rightarrow> 'a debounce_state \<Rightarrow> 'a debounce_state" where
  "debounce_later wait immediate st =
     (let last = db_clock st - db_timestamp st
      in if last < wait \<and> last \<ge> 0 then st\<lparr>db_timeout := Some (db_clock st + (wait - last))\<rparr>
         else
           let st = st\<lparr>db_timeout := None\<rparr>
           in if \<not> immediate
              then (let st = debounce_run st in if db_timeout st = None then st\<lparr>db_args := None\<rparr> else st)
              else st)"

definition debounce_call :: "int \<Rightarrow> bool \<Rightarrow> 'a \<Rightarrow> 'a debounce_state \<Rightarrow> 'a debounce_state" where
  "debounce_call wait immediate a st =
     (let st = st\<lparr>db_args := Some a, db_timestamp := db_clock st, db_log := Call (db_clock st) a # db_log st\<rparr>;
          callNow = (immediate \<and> db_timeout st = None);
          st = (if db_timeout st = None then st\<lparr>db_timeout := Some (db_clock st + wait)\<rparr> else st)
      in if callNow then (debounce_run st)\<lparr>db_args := None\<rparr> else st)"

inductive debounced :: "int \<Rightarrow> bool \<Rightarrow> 'a debounce_state \<Rightarrow> bool" for wait immediate where
  debounced_new: "0 < now \<Longrightarrow> debounced wait immediate (debounce_new now)"
| debounced_wait: "debounced wait immediate st \<Longrightarrow> db_clock st \<le> now \<Longrightarrow> debounced wait immediate (st\<lparr>db_clock := now\<rparr>)"
| debounced_call: "debounced wait immediate st \<Longrightarrow> debounced wait immediate (debounce_call wait immediate a st)"
| debounced_later:
    "debounced wait immediate st \<Longrightarrow> db_timeout st = Some due \<Longrightarrow> due \<le> db_clock st \<Longrightarrow>
     debounced wait immediate (debounce_later wait immediate st)"

section \<open>Counters and caches\<close>

text \<open>
  \<open>after\<close> and \<open>before\<close>: the state is the counter, and for \<open>before\<close> the remembered result and
  whether \<open>func\<close> is still there. A result \<open>None\<close> is \<open>undefined\<close>.
\<close>

definition after_call :: "('a \<Rightarrow> js_error + 'v) \<Rightarrow> 'a \<Rightarrow> int \<Rightarrow> int \<times> (js_error + 'v option)" where
  "after_call func a n = (let n = n - 1 in (n, if n < 1 then ebind (func a) (\<lambda>v. Inr (Some v)) else Inr None))"

record 'v before_state =
  bf_times :: int
  bf_func :: bool
  bf_memo :: "'v option"

definition before_new :: "int \<Rightarrow> 'v before_state" where
  "before_new n = \<lparr>bf_times = n, bf_func = True, bf_memo = None\<rparr>"

definition before_call ::
  "('a \<Rightarrow> js_error + 'v) \<Rightarrow> 'a \<Rightarrow> 'v before_state \<Rightarrow> 'v before_state \<times> (js_error + 'v option)"
where
  "before_call func a st =
     (let st = st\<lparr>bf_times := bf_times st - 1\<rparr>;
          r = (if bf_times st > 0
               then (if bf_func st then ebind (func a) (\<lambda>v. Inr (Some v)) else Inl (TypeError ''cannot read properties of null''))
               else Inr (bf_memo st))
      in case r of
           Inl e \<Rightarrow> (st, Inl e)
         | Inr m \<Rightarrow>
             let st = st\<lparr>bf_memo := m\<rparr>;
                 st = (if bf_times st \<le> 1 then st\<lparr>bf_func := False\<rparr> else st)
             in (st, Inr m))"

definition once_new :: "'v before_state" where
  "once_new = before_new 2"

text \<open>
  \<open>memoize\<close>: \<open>address\<close> is the hasher, or the conversion of the first argument to a string. The
  address \<open>__proto__\<close>, an assignment to which sets the prototype of the cache, is left out: \<open>None\<close>.
\<close>

definition memoize_call ::
  "('a \<Rightarrow> jsstr) \<Rightarrow> ('a \<Rightarrow> js_error + 'v) \<Rightarrow> 'a \<Rightarrow> (jsstr \<rightharpoonup> 'v) \<Rightarrow> ((jsstr \<rightharpoonup> 'v) \<times> (js_error + 'v)) option"
where
  "memoize_call address func a cache =
     (let k = address a
      in if k = lit ''__proto__'' then None
         else case cache k of
                Some v \<Rightarrow> Some (cache, Inr v)
              | None \<Rightarrow>
                  (case func a of
                     Inl e \<Rightarrow> Some (cache, Inl e)
                   | Inr v \<Rightarrow> Some (cache(k \<mapsto> v), Inr v)))"

section \<open>Arguments and composition\<close>

text \<open>The placeholder \<open>_\<close> among the bound arguments is \<open>None\<close>; a missing argument is undefined.\<close>

fun partial_fill :: "jsval option list \<Rightarrow> jsval list \<Rightarrow> jsval list" where
  "partial_fill [] args = args"
| "partial_fill (Some v # bound) args = v # partial_fill bound args"
| "partial_fill (None # bound) [] = VUndefined # partial_fill bound []"
| "partial_fill (None # bound) (a # args) = a # partial_fill bound args"

text \<open>
  A call of a bound function with \<open>new\<close> runs \<open>func\<close> on a fresh object \<open>self\<close> and returns it
  unless the result is an object.
\<close>

definition is_object :: "jsval \<Rightarrow> bool" where
  "is_object v = (case v of VObj _ \<Rightarrow> True | VFun _ \<Rightarrow> True | _ \<Rightarrow> False)"

definition executeBound ::
  "(jsval \<Rightarrow> jsval list \<Rightarrow> js_error + jsval) \<Rightarrow> jsval \<Rightarrow> jsval option \<Rightarrow> jsval list \<Rightarrow> js_error + jsval"
where
  "executeBound func context self args =
     (case self of
        None \<Rightarrow> func context args
      | Some self \<Rightarrow> ebind (func self args) (\<lambda>result. Inr (if is_object result then result else self)))"

definition bind_call ::
  "(jsval \<Rightarrow> jsval list \<Rightarrow> js_error + jsval) \<Rightarrow> jsval \<Rightarrow> jsval list \<Rightarrow> jsval option \<Rightarrow> jsval list \<Rightarrow> js_error + jsval"
where
  "bind_call func context args self called = executeBound func context self (args @ called)"

definition partial_call ::
  "(jsval \<Rightarrow> jsval list \<Rightarrow> js_error + jsval) \<Rightarrow> jsval option list \<Rightarrow> jsval \<Rightarrow> jsval option \<Rightarrow> jsval list \<Rightarrow> js_error + jsval"
where
  "partial_call func boundArgs this self args = executeBound func this self (partial_fill boundArgs args)"

definition wrap_call ::
  "(jsval \<Rightarrow> jsval list \<Rightarrow> js_error + jsval) \<Rightarrow> jsval \<Rightarrow> jsval \<Rightarrow> jsval option \<Rightarrow> jsval list \<Rightarrow> js_error + jsval"
where
  "wrap_call wrapper func = partial_call wrapper [Some func]"

fun compose_loop :: "(jsval \<Rightarrow> js_error + jsval) list \<Rightarrow> nat \<Rightarrow> jsval \<Rightarrow> js_error + jsval" where
  "compose_loop fs 0 result = Inr result"
| "compose_loop fs (Suc i) result = ebind ((fs ! i) result) (compose_loop fs i)"

definition compose :: "(jsval \<Rightarrow> js_error + jsval) list \<Rightarrow> jsval \<Rightarrow> js_error + jsval" where
  "compose fs x =
     (if fs = [] then Inl (TypeError ''cannot read properties of undefined'')
      else ebind (last fs x) (compose_loop fs (length fs - 1)))"

definition negate_call :: "('a \<Rightarrow> js_error + jsval) \<Rightarrow> 'a \<Rightarrow> js_error + bool" where
  "negate_call predicate a = ebind (predicate a) (\<lambda>v. Inr (\<not> truthy v))"

section \<open>What the wrappers keep\<close>

lemma log_simps [simp]:
  "run_times [] = []" "run_times (Call t a # l) = run_times l" "run_times (Run t a # l) = t # run_times l"
  "call_times [] = []" "call_times (Call t a # l) = t # call_times l" "call_times (Run t a # l) = call_times l"
  "last_call [] = None" "last_call (Call t a # l) = Some a" "last_call (Run t a # l) = last_call l"
  by (simp_all add: run_times_def call_times_def last_call_def)

text \<open>Every run has the arguments of the last call before it.\<close>

fun runs_latest :: "'a event list \<Rightarrow> bool" where
  "runs_latest [] = True"
| "runs_latest (Call t a # l) = runs_latest l"
| "runs_latest (Run t a # l) = (last_call l = Some a \<and> runs_latest l)"

definition spaced :: "int \<Rightarrow> 'a event list \<Rightarrow> bool" where
  "spaced wait l = sorted_wrt (\<lambda>t' t. t + wait \<le> t') (run_times l)"

text \<open>The last event is a run.\<close>

fun settled :: "'a event list \<Rightarrow> bool" where
  "settled (Call t a # l) = False"
| "settled _ = True"

definition throttle_inv :: "int \<Rightarrow> throttle_options \<Rightarrow> 'a throttle_state \<Rightarrow> bool" where
  "throttle_inv wait opts st \<longleftrightarrow>
     0 < th_clock st \<and> th_previous st \<le> th_clock st \<and>
     (\<forall>t \<in> set (run_times (th_log st)). t \<le> th_clock st \<and> (th_previous st \<noteq> 0 \<longrightarrow> t \<le> th_previous st) \<and>
        (\<forall>due. th_timeout st = Some due \<longrightarrow> t + wait \<le> due) \<and> (th_previous st = 0 \<longrightarrow> \<not> leading opts)) \<and>
     spaced wait (th_log st) \<and> runs_latest (th_log st) \<and>
     (th_timeout st \<noteq> None \<longrightarrow> (\<exists>a. th_args st = Some a \<and> last_call (th_log st) = Some a)) \<and>
     (trailing opts \<longrightarrow> th_timeout st = None \<longrightarrow> settled (th_log st))"

lemma throttle_inv_new: "0 < now \<Longrightarrow> throttle_inv wait opts (throttle_new now)"
  by (simp add: throttle_inv_def throttle_new_def spaced_def)

lemma throttle_inv_wait:
  "throttle_inv wait opts st \<Longrightarrow> th_clock st \<le> now \<Longrightarrow> throttle_inv wait opts (st\<lparr>th_clock := now\<rparr>)"
  unfolding throttle_inv_def by (auto intro: order_trans)

lemma throttle_inv_call: "throttle_inv wait opts st \<Longrightarrow> throttle_inv wait opts (throttle_call wait opts a st)"
  unfolding throttle_inv_def throttle_call_def throttle_run_def Let_def spaced_def
  by (auto intro: order_trans)

lemma throttle_inv_later:
  "throttle_inv wait opts st \<Longrightarrow> th_timeout st = Some due \<Longrightarrow> due \<le> th_clock st \<Longrightarrow>
   throttle_inv wait opts (throttle_later opts st)"
  unfolding throttle_inv_def throttle_later_def throttle_run_def Let_def spaced_def
  by (cases "th_args st") (auto intro: order_trans)

lemma throttled_inv: "throttled wait opts st \<Longrightarrow> throttle_inv wait opts st"
  by (induction rule: throttled.induct)
    (auto intro: throttle_inv_new throttle_inv_wait throttle_inv_call throttle_inv_later)

text \<open>
  A run of a debounced function comes when all calls are \<open>wait\<close> old; with \<open>immediate\<close> it is
  the run of a call before which all calls were \<open>wait\<close> old.
\<close>

fun quiet :: "int \<Rightarrow> bool \<Rightarrow> 'a event list \<Rightarrow> bool" where
  "quiet wait immediate [] = True"
| "quiet wait immediate (Call t a # l) = quiet wait immediate l"
| "quiet wait immediate (Run t a # l) =
     (quiet wait immediate l \<and> last_call l = Some a \<and>
      (if immediate then (case l of Call t' a' # l' \<Rightarrow> t' = t \<and> (\<forall>u \<in> set (call_times l'). u + wait \<le> t) | _ \<Rightarrow> False)
       else \<forall>u \<in> set (call_times l). u + wait \<le> t))"

definition debounce_inv :: "int \<Rightarrow> bool \<Rightarrow> 'a debounce_state \<Rightarrow> bool" where
  "debounce_inv wait immediate st \<longleftrightarrow>
     db_timestamp st \<le> db_clock st \<and>
     (\<forall>t \<in> set (call_times (db_log st)). t \<le> db_timestamp st \<and> (db_timeout st = None \<longrightarrow> t + wait \<le> db_clock st)) \<and>
     quiet wait immediate (db_log st) \<and>
     (\<not> immediate \<longrightarrow> db_timeout st \<noteq> None \<longrightarrow> (\<exists>a. db_args st = Some a \<and> last_call (db_log st) = Some a)) \<and>
     (\<not> immediate \<longrightarrow> db_timeout st = None \<longrightarrow> settled (db_log st))"

lemma debounce_inv_new: "0 < now \<Longrightarrow> debounce_inv wait immediate (debounce_new now)"
  by (simp add: debounce_inv_def debounce_new_def)

lemma debounce_inv_wait:
  "debounce_inv wait immediate st \<Longrightarrow> db_clock st \<le> now \<Longrightarrow> debounce_inv wait immediate (st\<lparr>db_clock := now\<rparr>)"
  unfolding debounce_inv_def by (auto intro: order_trans)

lemma debounce_inv_call:
  "debounce_inv wait immediate st \<Longrightarrow> debounce_inv wait immediate (debounce_call wait immediate a st)"
  unfolding debounce_inv_def debounce_call_def debounce_run_def Let_def
  by (cases "db_timeout st") (auto intro: order_trans)

lemma debounce_inv_later:
  assumes inv: "debounce_inv wait immediate st" and due: "db_timeout st = Some due"
  shows "debounce_inv wait immediate (debounce_later wait immediate st)"
proof (cases "db_clock st - db_timestamp st < wait")
  case True
  then show ?thesis using assms by (simp add: debounce_inv_def debounce_later_def Let_def)
next
  case False
  then have "\<forall>t \<in> set (call_times (db_log st)). t + wait \<le> db_clock st"
    using inv by (fastforce simp: debounce_inv_def)
  then show ?thesis
    using False assms by (auto simp: debounce_inv_def debounce_later_def debounce_run_def Let_def)
qed

lemma debounced_inv: "debounced wait immediate st \<Longrightarrow> debounce_inv wait immediate st"
  by (induction rule: debounced.induct)
    (auto intro: debounce_inv_new debounce_inv_wait debounce_inv_call debounce_inv_later)

section \<open>Sequences of calls\<close>

fun calls :: "('a \<Rightarrow> 's \<Rightarrow> 's \<times> 'r) \<Rightarrow> 'a list \<Rightarrow> 's \<Rightarrow> 'r list" where
  "calls call [] st = []"
| "calls call (a # as) st = (let (st, r) = call a st in r # calls call as st)"

lemma length_calls [simp]: "length (calls call as st) = length as"
  by (induction as arbitrary: st) (auto simp: split_def Let_def)

text \<open>\<open>after(n, func)\<close> runs \<open>func\<close> from the \<open>n\<close>-th call on.\<close>

lemma calls_after:
  "k < length as \<Longrightarrow>
   calls (after_call func) as n ! k = (if n \<le> int k + 1 then ebind (func (as ! k)) (\<lambda>v. Inr (Some v)) else Inr None)"
proof (induction as arbitrary: n k)
  case (Cons a as)
  then show ?case by (cases k) (auto simp: after_call_def Let_def)
qed simp

text \<open>\<open>before(n, func)\<close> runs \<open>func\<close> in the first \<open>n - 1\<close> calls, then it returns the last result.\<close>

lemma calls_before_done:
  "bf_times st \<le> 1 \<Longrightarrow> k < length as \<Longrightarrow> calls (before_call func) as st ! k = Inr (bf_memo st)"
proof (induction as arbitrary: st k)
  case (Cons a as)
  then show ?case by (cases k) (auto simp: before_call_def Let_def)
qed simp

lemma calls_before:
  assumes "\<And>a. func a = Inr (g a)"
  shows "bf_func st \<Longrightarrow> 1 < bf_times st \<Longrightarrow> k < length as \<Longrightarrow>
    calls (before_call func) as st ! k = Inr (Some (g (as ! min k (nat (bf_times st - 2)))))"
proof (induction as arbitrary: st k)
  case (Cons a as)
  define st' where "st' = fst (before_call func a st)"
  have step: "before_call func a st = (st', Inr (Some (g a)))" "bf_times st' = bf_times st - 1"
      "bf_memo st' = Some (g a)" "2 < bf_times st \<Longrightarrow> bf_func st'"
    using Cons.prems assms by (auto simp: st'_def before_call_def Let_def)
  show ?case
  proof (cases k)
    case (Suc j)
    show ?thesis
    proof (cases "2 < bf_times st")
      case True
      then have "nat (bf_times st - 2) = Suc (nat (bf_times st' - 2))" using step(2) by simp
      then show ?thesis using Cons.IH [of st' j] Cons.prems step Suc True by simp
    next
      case False
      then show ?thesis
        using calls_before_done [of st' j as func] Cons.prems step Suc by simp
    qed
  qed (simp add: step)
qed simp

text \<open>\<open>func\<close> is not called any more once the wrapper has dropped it: the only errors are its own.\<close>

definition before_ok :: "'v before_state \<Rightarrow> bool" where
  "before_ok st \<longleftrightarrow> bf_func st \<or> bf_times st \<le> 1"

lemma before_call_ok:
  "before_ok st \<Longrightarrow> before_ok (fst (before_call func a st)) \<and>
     (snd (before_call func a st) = Inl e \<longrightarrow> func a = Inl e)"
  by (cases "func a") (auto simp: before_ok_def before_call_def Let_def)

text \<open>A cache holds results of the function, at their addresses.\<close>

definition cache_ok :: "('a \<Rightarrow> jsstr) \<Rightarrow> ('a \<Rightarrow> js_error + 'v) \<Rightarrow> (jsstr \<rightharpoonup> 'v) \<Rightarrow> bool" where
  "cache_ok address func cache \<longleftrightarrow> (\<forall>k v. cache k = Some v \<longrightarrow> (\<exists>a. address a = k \<and> func a = Inr v))"

lemma memoize_call_ok:
  assumes "cache_ok address func cache" and "memoize_call address func a cache = Some (cache', r)"
  shows "cache_ok address func cache' \<and> (\<exists>b. address b = address a \<and> r = func b) \<and>
    (\<forall>k. cache k \<noteq> None \<longrightarrow> cache' k = cache k)"
proof (cases "cache (address a)")
  case None
  then show ?thesis using assms
    by (cases "func a") (auto simp: memoize_call_def cache_ok_def Let_def split: if_split_asm)
next
  case (Some v)
  then obtain b where "address b = address a" "func b = Inr v" using assms(1) by (auto simp: cache_ok_def)
  then show ?thesis using assms Some by (auto simp: memoize_call_def Let_def split: if_split_asm intro!: exI [of _ b])
qed

section \<open>Composition and bound arguments\<close>

lemma foldr_ebind_error [simp]: "foldr (\<lambda>f r. ebind r f) fs (Inl e) = Inl e"
  by (induction fs) auto

lemma compose_loop_foldr:
  "i \<le> length fs \<Longrightarrow> compose_loop fs i x = foldr (\<lambda>f r. ebind r f) (take i fs) (Inr x)"
proof (induction i arbitrary: x)
  case (Suc i)
  then show ?case by (cases "(fs ! i) x") (auto simp: take_Suc_conv_app_nth)
qed simp

lemma compose_foldr: "fs \<noteq> [] \<Longrightarrow> compose fs x = foldr (\<lambda>f r. ebind r f) fs (Inr x)"
  by (cases fs rule: rev_cases; cases "last fs x") (auto simp: compose_def compose_loop_foldr)

text \<open>Composition is associative.\<close>

lemma compose_append:
  "fs \<noteq> [] \<Longrightarrow> gs \<noteq> [] \<Longrightarrow> compose (fs @ gs) x = ebind (compose gs x) (compose fs)"
  by (cases "compose gs x") (auto simp: compose_foldr)

lemma partial_fill_bound: "partial_fill (map Some vs) args = vs @ args"
  by (induction vs) auto

lemma partial_fill_length:
  "length (partial_fill bound args) = max (length bound) (length args + length (filter (\<lambda>v. v \<noteq> None) bound))"
proof (induction bound args rule: partial_fill.induct)
  case (3 bound)
  then show ?case using length_filter_le [of "\<lambda>v. \<exists>y. v = Some y" bound] by (simp add: max_def del: length_filter_le)
qed auto

lemma bind_partial: "partial_call func (map Some args) context self called = bind_call func context args self called"
  by (simp add: partial_call_def bind_call_def partial_fill_bound)

section \<open>Properties\<close>

text \<open>
  C21. However calls, waiting and late timers follow each other, a throttled function runs at most
  once in \<open>wait\<close>, each time with the arguments of the last call; and unless trailing runs are
  switched off, the last call has been served or a timer is set that serves it.
\<close>

theorem underscore_throttle_spaced:
  assumes "throttled wait opts st"
  shows "spaced wait (th_log st) \<and> runs_latest (th_log st) \<and>
    (trailing opts \<longrightarrow> settled (th_log st) \<or> (\<exists>due a. th_timeout st = Some due \<and> th_args st = Some a \<and> last_call (th_log st) = Some a))"
  using throttled_inv [OF assms] by (cases "th_timeout st") (auto simp: throttle_inv_def)

theorem underscore_throttle_spaced_witness:
  "\<exists>st. throttled 10 \<lparr>leading = True, trailing = True\<rparr> st \<and> spaced 10 (th_log st) \<and>
     th_log st = [Run 111 (2::nat), Call 105 2, Run 100 1, Call 100 1]"
proof -
  let ?opts = "\<lparr>leading = True, trailing = True\<rparr>"
  let ?st1 = "throttle_call 10 ?opts (1::nat) (throttle_new 100)"
  let ?st2 = "throttle_call 10 ?opts 2 (?st1\<lparr>th_clock := 105\<rparr>)"
  let ?st = "throttle_later ?opts (?st2\<lparr>th_clock := 111\<rparr>)"
  note eval = throttle_call_def throttle_run_def throttle_new_def Let_def
  have "throttled 10 ?opts ?st1" by (intro throttled_call throttled_new) simp
  then have "throttled 10 ?opts (?st1\<lparr>th_clock := 105\<rparr>)" by (rule throttled_wait) (simp add: eval)
  then have "throttled 10 ?opts ?st2" by (rule throttled_call)
  then have "throttled 10 ?opts (?st2\<lparr>th_clock := 111\<rparr>)" by (rule throttled_wait) (simp add: eval)
  then have "throttled 10 ?opts ?st" by (rule throttled_later [where due = 110]) (simp_all add: eval)
  moreover from this have "spaced 10 (th_log ?st)" using underscore_throttle_spaced by blast
  moreover have "th_log ?st = [Run 111 2, Call 105 2, Run 100 1, Call 100 1]" by (simp add: throttle_later_def eval)
  ultimately show ?thesis by blast
qed

text \<open>
  C22. A debounced function runs only when there was no call for the last \<open>wait\<close> milliseconds, or
  with \<open>immediate\<close> only for a call before which there was none; it runs with the arguments of the
  last call, and without \<open>immediate\<close> the last call has been served or a timer is set.
\<close>

theorem underscore_debounce_quiet:
  assumes "debounced wait immediate st"
  shows "quiet wait immediate (db_log st) \<and>
    (\<not> immediate \<longrightarrow> settled (db_log st) \<or> (\<exists>due a. db_timeout st = Some due \<and> db_args st = Some a \<and> last_call (db_log st) = Some a))"
  using debounced_inv [OF assms] by (cases "db_timeout st") (auto simp: debounce_inv_def)

theorem underscore_debounce_quiet_witness:
  "\<exists>st. debounced 10 False st \<and> quiet 10 False (db_log st) \<and> db_log st = [Run 112 (1::nat), Call 100 1]"
proof -
  let ?st1 = "debounce_call 10 False (1::nat) (debounce_new 100)"
  let ?st = "debounce_later 10 False (?st1\<lparr>db_clock := 112\<rparr>)"
  note eval = debounce_call_def debounce_new_def Let_def
  have "debounced 10 False ?st1" by (intro debounced_call debounced_new) simp
  then have "debounced 10 False (?st1\<lparr>db_clock := 112\<rparr>)" by (rule debounced_wait) (simp add: eval)
  then have "debounced 10 False ?st" by (rule debounced_later [where due = 110]) (simp_all add: eval)
  moreover from this have "quiet 10 False (db_log ?st)" using underscore_debounce_quiet by blast
  moreover have "db_log ?st = [Run 112 1, Call 100 1]" by (simp add: debounce_later_def debounce_run_def eval)
  ultimately show ?thesis by blast
qed

text \<open>
  When arguments with the same address have the same result, a memoized function returns what
  the function returns, errors included, and its cache goes on holding results of the function.
\<close>

theorem underscore_memoize_transparent:
  assumes "\<And>a b. address a = address b \<Longrightarrow> func a = func b"
    and "cache_ok address func cache" and "address a \<noteq> lit ''__proto__''"
  shows "\<exists>cache'. memoize_call address func a cache = Some (cache', func a) \<and> cache_ok address func cache' \<and>
    (\<forall>v. func a = Inr v \<longrightarrow> cache' (address a) = Some v)"
proof -
  obtain cache' r where m: "memoize_call address func a cache = Some (cache', r)"
    using assms(3) by (cases "cache (address a)"; cases "func a") (auto simp: memoize_call_def Let_def)
  obtain b where "cache_ok address func cache'" "address b = address a" "r = func b"
    using memoize_call_ok [OF assms(2) m] by blast
  then have ok: "cache_ok address func cache'" "r = func a" using assms(1) [of b a] by simp_all
  have "cache' (address a) = Some v" if "func a = Inr v" for v
    using m ok(2) that
    by (cases "cache (address a)") (auto simp: memoize_call_def Let_def split: if_split_asm)
  then show ?thesis using m ok by blast
qed

theorem underscore_memoize_transparent_witness:
  "\<exists>cache'. memoize_call (\<lambda>s. s) (\<lambda>s. Inr (length s)) [97, 98] Map.empty = Some (cache', Inr (Suc (Suc 0))) \<and>
    cache_ok (\<lambda>s. s) (\<lambda>s. Inr (length s)) cache'"
proof -
  let ?f = "\<lambda>s. Inr (length s) :: js_error + nat"
  have "cache_ok (\<lambda>s. s) ?f Map.empty" by (simp add: cache_ok_def)
  then show ?thesis using underscore_memoize_transparent [of "\<lambda>s. s" ?f Map.empty "[97, 98]"] by auto
qed

end
