(* ===== verification/Spec2Isabelle.thy ===== *)
theory Spec2Isabelle
  imports Wordcut_Core Tiny_Segmenter Glob_Patterns Event_Emitter Process_Queue Callbacks Underscore_Arrays Underscore_Functions
begin

text \<open>
  A verification development for the JavaScript of the repository \<open>sitar-sim/SparcV8_core\<close>.

  \<^bold>\<open>The program.\<close> The repository holds a SPARC V8 simulator in C++ and its documentation site.
  The JavaScript is the search of that site, in \<open>src/docs/generated_site/assets/javascripts\<close>:
  \<open>lunr/wordcut.js\<close>, a bundle of 29 modules around a segmenter of Thai text, and
  \<open>lunr/tinyseg.js\<close>, a segmenter of Japanese text. A tokenizer of the search index calls the
  segmenter of its language; the Thai segmenter reads its dictionary files through \<open>path\<close> and
  \<open>glob\<close>; \<open>glob\<close> stands on \<open>minimatch\<close> (which uses \<open>brace-expansion\<close>, which uses
  \<open>balanced-match\<close>), \<open>events\<close>, \<open>inflight\<close>, \<open>once\<close> and \<open>process\<close>; \<open>underscore\<close> is a general
  library. This library models these modules and proves what they promise to each other.

  \<^bold>\<open>Conventions.\<close> A string is a list of 16-bit words (\<open>JS_Prelude\<close>); an exception is the left
  summand of \<open>js_error + 'a\<close>; not returning is \<open>None\<close> of a \<open>partial_function\<close>. A module that
  works on values of any type uses the values and heap of \<open>JS_Values\<close>. A definition has the name
  of the function of the source where HOL leaves it free. Functions that the program hands to a
  module (listeners, callbacks, iteratees, queue items) are parameters, with access to the state
  of the module where the source gives them such access.

  \<^bold>\<open>Language.\<close>
  \<^item> \<open>JS_Prelude\<close>: strings, exceptions, \<open>substring\<close>, \<open>slice\<close>, \<open>split\<close>, \<open>join\<close>, \<open>indexOf\<close>.
  \<^item> \<open>JS_RegExp\<close>, \<open>JS_RegExp_Parser\<close>: regular expressions, their backtracking matcher, their
    languages, and \<open>new RegExp\<close> of a text.
  \<^item> \<open>JS_Values\<close>: numbers, values, objects.

  \<^bold>\<open>Search index.\<close>
  \<^item> \<open>Wordcut_Dict\<close> (module 2): the dictionary; the binary search is a linear scan, an acceptor
    recognises exactly the words.
  \<^item> \<open>Wordcut_Rules\<close> (modules 3, 6), \<open>Wordcut_Acceptors\<close> (module 1): the rules and the pool, with
    the contract \<open>acceptor_contract\<close> between them.
  \<^item> \<open>Wordcut_Core\<close> (modules 4, 5, 7, 8): path building and selection, the segmenter and the
    tokenizer \<open>lunr.th\<close>; no text is lost, the selected path is minimal.
  \<^item> \<open>Tiny_Tables\<close>, \<open>Tiny_Segmenter\<close> (\<open>tinyseg.js\<close>): scores and segmenter; no text is lost, the
    cuts are the positive scores, and the scores stay in the exact range of double precision.
  \<^item> \<open>Segmentation\<close>: the contract \<open>segmenter\<close> that both segmenters fulfil.

  \<^bold>\<open>Paths and globs.\<close>
  \<^item> \<open>Posix_Path\<close>, \<open>Path_Split\<close> (modules 22, 23): paths as walks in a tree; \<open>resolve\<close>,
    \<open>relative\<close>, \<open>normalize\<close>, \<open>dirname\<close> and \<open>basename\<close> agree with them.
  \<^item> \<open>Balanced_Match\<close>, \<open>Brace_Expansion\<close> (modules 10, 11, 13): pairs of delimiters, expansion
    as the list of all choices, and exactly when a sequence does not end.
  \<^item> \<open>Minimatch_Parse\<close>, \<open>Minimatch\<close>, \<open>Minimatch_Language\<close>, \<open>Minimatch_Matching\<close> (module 20): the
    translation of globs to regular expressions, the matching of paths, the language of simple
    globs, negation, errors.
  \<^item> \<open>Glob_Common\<close>, \<open>Glob_Sync\<close> (modules 15, 17): the options, caches and results of a search, and the
    synchronous search; the file system is a parameter.
  \<^item> \<open>Glob_Tree\<close>, \<open>Glob_Patterns\<close>: on a finite tree the search returns and finds what the patterns
    reach, its caches agree with the tree, and without \<open>strict\<close> it raises nothing on any file
    system. The theorem below puts the search and \<open>minimatch\<close> together.

  \<^bold>\<open>Events and callbacks.\<close>
  \<^item> \<open>Event_Emitter\<close> (module 14): the emitter as a table of listeners (\<open>listener_table\<close>), with
    listeners that may change it while it emits.
  \<^item> \<open>Process_Queue\<close> (module 24): items of \<open>nextTick\<close> run in order, exceptions included, and the
    queue never stalls.
  \<^item> \<open>Callbacks\<close> (modules 18, 19, 21, 29): \<open>once\<close>, \<open>inflight\<close>, \<open>wrappy\<close>, \<open>inherits\<close>.

  \<^bold>\<open>General library.\<close>
  \<^item> \<open>Underscore_Equality\<close> (module 25): \<open>isEqual\<close> against the greatest deep equality.
  \<^item> \<open>Underscore_Arrays\<close>: array functions as sets, tables, ranges and searches.
  \<^item> \<open>Underscore_Functions\<close>: \<open>throttle\<close> and \<open>debounce\<close> as machines in time, \<open>memoize\<close>, counters,
    bound arguments, composition.

  \<^bold>\<open>Bounds and fuel.\<close> The only fuel is \<open>call_fn n\<close> of \<open>Event_Emitter\<close>, the depth to which
  wrappers of \<open>once\<close> call each other; its properties say for which depth they hold. Loops that may
  not end are \<open>partial_function\<close>s, and that they end is proved where it is claimed. Finite numbers
  are rational or integer; where double precision matters (\<open>isEqual\<close> of tiny numbers, the scores
  of \<open>tinyseg\<close>, sequences, ranges) the theories say so.

  \<^bold>\<open>Not modelled.\<close> The C++ of the simulator, which is another language than the one verified here;
  the minified bundles of other projects (the theme, the lunr stemmers, the search worker), of
  which only the tokenizers of Thai and Japanese are modelled; the loader of the bundle, which
  browserify generates; the asynchronous search
  \<open>glob.js\<close> (module 16), \<open>assert\<close> (module 9) and \<open>util\<close> (module 28);
  of underscore, the functions on collections and objects, templates and the chaining wrapper.
\<close>

section \<open>Composition\<close>



end
